(* ===== verification/Prelude.thy ===== *)
theory Prelude
  imports Main "HOL-Library.Word"
begin

text \<open>
  The ground every component stands on: the machine's integer types, the byte-addressed
  physical memory of the x86-64 machine with little-endian loads and stores, the regions of
  memory an access touches, the result type of an operation that may never return to its
  caller, and the lemmas about them that the component theories share.
\<close>

unbundle bit_operations_syntax

named_theorems mem_frame \<open>reads that an unrelated write leaves unchanged\<close>
named_theorems res_simps \<open>how the results of operations compose\<close>

section \<open>Machine integers, memory, regions\<close>

type_synonym u8 = "8 word"
type_synonym u16 = "16 word"
type_synonym u32 = "32 word"
type_synonym u64 = "64 word"

text \<open>\<open>addr\<close> is \<open>uintptr_t\<close> and every pointer type; \<open>i32\<close> is \<open>int\<close>.\<close>

type_synonym addr = u64
type_synonym i32 = "32 word"
type_synonym memory = "addr \<Rightarrow> u8"

text \<open>
  The \<open>n\<close> bytes from address \<open>a\<close> on. Addresses wrap around at \<open>2 ^ 64\<close>, as pointer
  arithmetic of the machine does.
\<close>

definition bytes :: "addr \<Rightarrow> nat \<Rightarrow> addr set" where
  "bytes a n = {x. unat (x - a) < n}"

text \<open>A little-endian load of \<open>n\<close> bytes and a little-endian store of \<open>n\<close> bytes.\<close>

primrec load_le :: "nat \<Rightarrow> memory \<Rightarrow> addr \<Rightarrow> 'a::len word" where
  "load_le 0 m a = 0"
| "load_le (Suc n) m a = ucast (m a) OR push_bit 8 (load_le n m (a + 1))"

definition store_le :: "nat \<Rightarrow> memory \<Rightarrow> addr \<Rightarrow> 'a::len word \<Rightarrow> memory" where
  "store_le n m a v =
     (\<lambda>x. if unat (x - a) < n then ucast (drop_bit (8 * unat (x - a)) v) else m x)"

abbreviation load16 :: "memory \<Rightarrow> addr \<Rightarrow> u16" where "load16 \<equiv> load_le 2"
abbreviation load32 :: "memory \<Rightarrow> addr \<Rightarrow> u32" where "load32 \<equiv> load_le 4"
abbreviation load64 :: "memory \<Rightarrow> addr \<Rightarrow> u64" where "load64 \<equiv> load_le 8"
abbreviation store16 :: "memory \<Rightarrow> addr \<Rightarrow> u16 \<Rightarrow> memory" where "store16 \<equiv> store_le 2"
abbreviation store32 :: "memory \<Rightarrow> addr \<Rightarrow> u32 \<Rightarrow> memory" where "store32 \<equiv> store_le 4"
abbreviation store64 :: "memory \<Rightarrow> addr \<Rightarrow> u64 \<Rightarrow> memory" where "store64 \<equiv> store_le 8"

subsection \<open>Counting\<close>

text \<open>A word index below a bound does not wrap when it is incremented.\<close>

lemma unat_Suc_below:
  assumes "i < (n :: 'a::len word)"
  shows "unat (i + 1) = Suc (unat i)"
proof -
  have "Suc (unat i) \<le> unat n" using assms by (simp add: word_less_nat_alt)
  also have "unat n < 2 ^ LENGTH('a)" by (rule unsigned_less)
  finally show ?thesis by (simp add: unat_word_ariths unat_1)
qed

lemma count_up_decreases:
  "i < (n :: 'a::len word) \<Longrightarrow> unat n - unat (i + 1) < unat n - unat i"
  by (simp add: unat_Suc_below word_less_nat_alt)

text \<open>Two multiples of a number are at least that number apart.\<close>

lemma multiples_apart:
  assumes "a mod k = 0" and "b mod k = 0" and "a < (b :: nat)"
  shows "a + k \<le> b"
proof -
  from assms(1,2) obtain i j where ij: "a = k * i" "b = k * j" by (auto elim!: dvdE simp: mod_eq_0_iff_dvd)
  with assms(3) have "i < j" by simp
  then have "k * Suc i \<le> k * j" by (intro mult_le_mono2) simp
  with ij show ?thesis by simp
qed

subsection \<open>Regions\<close>

lemma in_bytes_iff: "x \<in> bytes a n \<longleftrightarrow> unat (x - a) < n"
  by (simp add: bytes_def)

lemma bytes_0 [simp]: "bytes a 0 = {}"
  by (simp add: bytes_def)

lemma bytes_mono: "n \<le> k \<Longrightarrow> bytes a n \<subseteq> bytes a k"
  by (auto simp: bytes_def)

lemma base_in_bytes [simp]: "a \<in> bytes a n \<longleftrightarrow> 0 < n"
  by (simp add: bytes_def)

lemma unat_of_nat64: "n < 2 ^ 64 \<Longrightarrow> unat (of_nat n :: u64) = n"
  by (simp add: unat_of_nat)

lemma offset_in_bytes: "i < n \<Longrightarrow> n \<le> 2 ^ 64 \<Longrightarrow> a + of_nat i \<in> bytes a n"
  by (simp add: bytes_def unat_of_nat64)

lemma bytesE:
  assumes "x \<in> bytes a n"
  obtains i where "i < n" "x = a + of_nat i"
proof
  show "unat (x - a) < n" using assms by (simp add: bytes_def)
  show "x = a + of_nat (unat (x - a))" by simp
qed

text \<open>A field lies inside its structure.\<close>

lemma subrange:
  assumes "i + k \<le> n" and "n \<le> 2 ^ 64"
  shows "bytes (a + of_nat i) k \<subseteq> bytes a n"
proof
  fix x assume "x \<in> bytes (a + of_nat i) k"
  then obtain j where j: "j < k" "x = a + of_nat i + of_nat j" by (rule bytesE)
  then have "x = a + of_nat (i + j)" by simp
  with j assms show "x \<in> bytes a n" by (metis add_strict_left_mono offset_in_bytes order_less_le_trans)
qed

lemma disjoint_mono: "A \<inter> B = {} \<Longrightarrow> A' \<subseteq> A \<Longrightarrow> B' \<subseteq> B \<Longrightarrow> A' \<inter> B' = {}"
  by blast

text \<open>The numeric criterion for two regions that do not wrap around.\<close>

lemma bytes_unat:
  assumes "unat a + n \<le> 2 ^ 64"
  shows "x \<in> bytes a n \<longleftrightarrow> unat a \<le> unat x \<and> unat x < unat a + n"
proof (cases "a \<le> x")
  case True
  then have "unat (x - a) = unat x - unat a" by (simp add: unat_sub)
  moreover have "unat a \<le> unat x" using True by (simp add: word_le_nat_alt)
  ultimately show ?thesis by (auto simp: bytes_def)
next
  case False
  then have lt: "unat x < unat a" by (simp add: word_le_nat_alt)
  have "unat (x - a) = 2 ^ 64 + unat x - unat a"
    using lt by (simp add: unat_sub_if_size word_size)
  with assms lt show ?thesis by (auto simp: bytes_def)
qed

lemma bytes_disjoint:
  assumes "unat a + n \<le> unat b" and "unat b + k \<le> 2 ^ 64"
  shows "bytes a n \<inter> bytes b k = {}"
  using assms by (auto simp: bytes_unat)

lemma bytes_subset:
  assumes "unat b \<le> unat a" and "unat a + n \<le> unat b + k" and "unat b + k \<le> 2 ^ 64"
  shows "bytes a n \<subseteq> bytes b k"
  using assms by (auto simp: bytes_unat)

text \<open>Two fields of one structure, at offsets that do not overlap.\<close>

lemma fields_disjoint:
  assumes "i + n \<le> j" and "j + k \<le> 2 ^ 64"
  shows "bytes (a + of_nat i) n \<inter> bytes (a + of_nat j) k = {}"
proof (rule ccontr)
  assume "bytes (a + of_nat i) n \<inter> bytes (a + of_nat j) k \<noteq> {}"
  then obtain x where "x \<in> bytes (a + of_nat i) n" "x \<in> bytes (a + of_nat j) k" by blast
  then obtain p q where pq: "p < n" "q < k"
    and "a + of_nat i + of_nat p = a + of_nat j + of_nat q"
    by (metis bytesE)
  then have "(of_nat (i + p) :: u64) = of_nat (j + q)" by (simp add: algebra_simps)
  then have "unat (of_nat (i + p) :: u64) = unat (of_nat (j + q) :: u64)" by (rule arg_cong)
  moreover have "unat (of_nat (i + p) :: u64) = i + p" "unat (of_nat (j + q) :: u64) = j + q"
    using pq assms by (intro unat_of_nat64; simp)+
  ultimately have "i + p = j + q" by simp
  with pq assms show False by simp
qed

subsection \<open>Loads and stores\<close>

lemma bit_load_le:
  "bit (load_le n m a :: 'a::len word) i \<longleftrightarrow>
     i < 8 * n \<and> i < LENGTH('a) \<and> bit (m (a + of_nat (i div 8))) (i mod 8)"
proof (induction n arbitrary: a i)
  case 0
  then show ?case by simp
next
  case (Suc n)
  show ?case
  proof (cases "i < 8")
    case True
    then show ?thesis
      by (auto simp: bit_simps)
  next
    case False
    then have eqs: "i div 8 = Suc ((i - 8) div 8)" "i mod 8 = (i - 8) mod 8"
      by (simp_all add: le_div_geq le_mod_geq)
    from False have "\<not> bit (m a) i"
      by (metis (mono_tags, lifting) bit_imp_le_length len_bit0 len_num1 mult_2 not_less numeral_Bit0 mult.right_neutral)
    with False show ?thesis
      by (auto simp: bit_simps Suc.IH eqs algebra_simps dest: bit_imp_le_length)
  qed
qed

lemma load_le_cong:
  assumes "\<And>x. x \<in> bytes a n \<Longrightarrow> m x = m' x" and "n \<le> 2 ^ 64"
  shows "(load_le n m a :: 'a::len word) = load_le n m' a"
proof (rule bit_word_eqI)
  fix i assume "i < LENGTH('a)"
  have "m (a + of_nat (i div 8)) = m' (a + of_nat (i div 8))" if "i < 8 * n"
    using that assms(2) by (intro assms(1) offset_in_bytes) auto
  then show "bit (load_le n m a :: 'a word) i = bit (load_le n m' a :: 'a word) i"
    by (auto simp: bit_load_le)
qed

lemma store_le_outside: "x \<notin> bytes a n \<Longrightarrow> store_le n m a v x = m x"
  by (simp add: store_le_def bytes_def)

lemma store_le_inside:
  "i < n \<Longrightarrow> n \<le> 2 ^ 64 \<Longrightarrow> store_le n m a v (a + of_nat i) = ucast (drop_bit (8 * i) v)"
  by (simp add: store_le_def unat_of_nat64)

lemma load_store_same:
  fixes v :: "'a::len word"
  assumes "LENGTH('a) \<le> 8 * n" and "n \<le> 2 ^ 64"
  shows "load_le n (store_le n m a v) a = v"
proof (rule bit_word_eqI)
  fix i assume i: "i < LENGTH('a)"
  then have "i div 8 < n" using assms(1) by simp
  then have "store_le n m a v (a + of_nat (i div 8)) = ucast (drop_bit (8 * (i div 8)) v)"
    using assms(2) by (rule store_le_inside)
  moreover have "8 * (i div 8) + i mod 8 = i" by simp
  moreover have "i mod 8 < LENGTH(8)" using mod_less_divisor [of 8 i] by simp
  ultimately show "bit (load_le n (store_le n m a v) a :: 'a word) i = bit v i"
    using i assms(1) by (simp add: bit_load_le bit_simps add.commute)
qed

lemma load_store_other:
  assumes "bytes a n \<inter> bytes b k = {}" and "k \<le> 2 ^ 64"
  shows "(load_le k (store_le n m a v) b :: 'a::len word) = load_le k m b"
  by (rule load_le_cong [OF _ assms(2)]) (use assms(1) in \<open>auto intro!: store_le_outside\<close>)

lemma load_store64 [simp]: "load64 (store64 m a v) a = v"
  by (simp add: load_store_same)

lemma load_store32 [simp]: "load32 (store32 m a v) a = v"
  by (simp add: load_store_same)

lemma load_store16 [simp]: "load16 (store16 m a v) a = v"
  by (simp add: load_store_same)

text \<open>Storing a value and then another at the same place keeps the second.\<close>

lemma store_store_same [simp]: "store_le n (store_le n m a v) a w = store_le n m a w"
  by (auto simp: store_le_def)

lemma store_load_same:
  assumes "8 * n \<le> LENGTH('a::len)" and "n \<le> 2 ^ 64"
  shows "store_le n m a (load_le n m a :: 'a word) = m"
proof
  fix x
  show "store_le n m a (load_le n m a :: 'a word) x = m x"
  proof (cases "x \<in> bytes a n")
    case True
    then obtain i where i: "i < n" "x = a + of_nat i" by (rule bytesE)
    have "ucast (drop_bit (8 * i) (load_le n m a :: 'a word)) = m (a + of_nat i)"
      by (rule bit_word_eqI) (use i(1) assms(1) in \<open>auto simp: bit_simps bit_load_le\<close>)
    with i assms(2) show ?thesis by (simp add: store_le_inside)
  qed (simp add: store_le_outside)
qed

text \<open>Criteria for loads and stores apart from each other, on the distances of the addresses.\<close>

lemma bytes_away:
  assumes "n \<le> unat (b - a)" and "k \<le> unat (a - b)"
  shows "bytes a n \<inter> bytes b k = {}"
proof (rule ccontr)
  assume "bytes a n \<inter> bytes b k \<noteq> {}"
  then obtain x where x: "unat (x - a) < n" "unat (x - b) < k" by (auto simp: in_bytes_iff)
  have lt: "x - a < b - a" using x(1) assms(1) by (simp add: word_less_nat_alt)
  have "unat (a - b) + unat (x - a) = unat (x - b)"
  proof -
    have wrap: "unat (u - v) = 2 ^ 64 + unat u - unat v" if "u < v" for u v :: u64
      using that by (simp add: unat_sub_if_size word_size word_less_nat_alt)
    have "a - b = 0 - (b - a)" "x - b = (x - a) - (b - a)" by simp_all
    moreover have "0 < b - a" using lt by (metis word_gt_0 word_not_simps(1))
    then have "unat (0 - (b - a)) = 2 ^ 64 - unat (b - a)" using wrap by fastforce
    moreover have "unat ((x - a) - (b - a)) = 2 ^ 64 + unat (x - a) - unat (b - a)" using wrap [OF lt] .
    moreover have "unat (b - a) < 2 ^ 64" using unsigned_less [of "b - a"] by simp
    ultimately show ?thesis by simp
  qed
  with x(2) assms(2) show False by simp
qed

lemma load_upd_away: "k \<le> unat (x - a) \<Longrightarrow> k \<le> 2 ^ 64 \<Longrightarrow> (load_le k (m(x := v)) a :: 'a::len word) = load_le k m a"
  by (rule load_le_cong) (auto simp: in_bytes_iff)

lemma load_store_away:
  "n \<le> unat (b - a) \<Longrightarrow> k \<le> unat (a - b) \<Longrightarrow> k \<le> 2 ^ 64 \<Longrightarrow>
     (load_le k (store_le n m a v) b :: 'a::len word) = load_le k m b"
  by (rule load_store_other) (simp_all add: bytes_away)

subsection \<open>The result of an operation\<close>

text \<open>
  Why an operation never returns to its caller: \<open>panic\<close> halted the machine with a message,
  a null pointer was dereferenced, a loop does not end, or the C standard gives the
  execution no meaning (a signed overflow, a read past the end of an array).
\<close>

datatype stop = Panicked string | NullDeref | Endless | Undefined

text \<open>\<open>Inl\<close> carries the reason and the state at that point, \<open>Inr\<close> the value returned and the new state.\<close>

type_synonym ('a, 's) res = "(stop \<times> 's) + ('a \<times> 's)"

definition bindR :: "('a, 's) res \<Rightarrow> ('a \<Rightarrow> 's \<Rightarrow> ('b, 's) res) \<Rightarrow> ('b, 's) res" where
  "bindR r f = (case r of Inl e \<Rightarrow> Inl e | Inr (x, s) \<Rightarrow> f x s)"

lemma bindR_Inl [simp, res_simps]: "bindR (Inl e) f = Inl e"
  by (simp add: bindR_def)

lemma bindR_Inr [simp, res_simps]: "bindR (Inr (x, s)) f = f x s"
  by (simp add: bindR_def)

lemma bindR_Inr_iff [res_simps]:
  "bindR r f = Inr y \<longleftrightarrow> (\<exists>x s. r = Inr (x, s) \<and> f x s = Inr y)"
  by (auto simp: bindR_def split: sum.splits)

lemma bindR_cong [fundef_cong]:
  "r = r' \<Longrightarrow> (\<And>x s. r' = Inr (x, s) \<Longrightarrow> f x s = g x s) \<Longrightarrow> bindR r f = bindR r' g"
  by (auto simp: bindR_def split: sum.splits)

lemma bindR_assoc: "bindR (bindR r f) g = bindR r (\<lambda>x s. bindR (f x s) g)"
  by (auto simp: bindR_def split: sum.splits)

section \<open>Linked lists in memory\<close>

text \<open>
  \<open>chain off m p xs\<close>: from the pointer \<open>p\<close>, following the pointer stored \<open>off\<close> bytes into
  each node, the nodes are exactly those at the addresses \<open>xs\<close>, ending in a null pointer.
\<close>

primrec chain :: "nat \<Rightarrow> memory \<Rightarrow> addr \<Rightarrow> addr list \<Rightarrow> bool" where
  "chain off m p [] \<longleftrightarrow> p = 0"
| "chain off m p (x # xs) \<longleftrightarrow> p = x \<and> x \<noteq> 0 \<and> chain off m (load64 m (x + of_nat off)) xs"

lemma chain_null [simp]: "chain off m 0 xs \<longleftrightarrow> xs = []"
  by (cases xs) auto

lemma chain_nonnull: "p \<noteq> 0 \<Longrightarrow>
  chain off m p xs \<longleftrightarrow> (\<exists>ys. xs = p # ys \<and> chain off m (load64 m (p + of_nat off)) ys)"
  by (cases xs) auto

lemma chain_unique: "chain off m p xs \<Longrightarrow> chain off m p ys \<Longrightarrow> xs = ys"
  by (induction xs arbitrary: p ys) (auto simp: chain_nonnull)

lemma chain_cong:
  "(\<And>x. x \<in> set xs \<Longrightarrow> load64 m' (x + of_nat off) = load64 m (x + of_nat off)) \<Longrightarrow>
     chain off m' p xs = chain off m p xs"
  by (induction xs arbitrary: p) auto

lemma chain_append:
  "chain off m p (xs @ y # ys) \<longleftrightarrow>
     y \<noteq> 0 \<and> chain off m (load64 m (y + of_nat off)) ys \<and>
     (case xs of [] \<Rightarrow> p = y | x # _ \<Rightarrow> p = x) \<and> 0 \<notin> set xs \<and>
     (\<forall>i < length xs. load64 m (xs ! i + of_nat off) = (xs @ [y]) ! Suc i)"
proof (induction xs arbitrary: p)
  case Nil
  then show ?case by auto
next
  case (Cons x xs)
  have "(\<forall>i < length (x # xs). load64 m ((x # xs) ! i + of_nat off) = ((x # xs) @ [y]) ! Suc i) \<longleftrightarrow>
     load64 m (x + of_nat off) = (xs @ [y]) ! 0 \<and>
     (\<forall>i < length xs. load64 m (xs ! i + of_nat off) = (xs @ [y]) ! Suc i)"
    by (auto simp: nth_Cons less_Suc_eq_0_disj split: nat.splits)
  then show ?case by (auto simp: Cons.IH split: list.splits)
qed

lemma chain_nth:
  "chain off m p xs \<Longrightarrow> i < length xs \<Longrightarrow>
     load64 m (xs ! i + of_nat off) = (if Suc i < length xs then xs ! Suc i else 0)"
proof (induction xs arbitrary: p i)
  case (Cons x xs)
  show ?case
  proof (cases i)
    case 0
    with Cons.prems show ?thesis by (cases xs) auto
  next
    case (Suc k)
    with Cons.prems Cons.IH [of "load64 m (x + of_nat off)" k] show ?thesis by simp
  qed
qed simp

lemma chain_head: "chain off m p xs \<Longrightarrow> p = (if xs = [] then 0 else hd xs)"
  by (cases xs) auto

lemma chain_nonzero: "chain off m p xs \<Longrightarrow> x \<in> set xs \<Longrightarrow> x \<noteq> 0"
  by (induction xs arbitrary: p) auto

text \<open>
  The interface of a list of structures linked through a pointer field: structures of \<open>sz\<close>
  bytes with the pointer at offset \<open>off\<close>.
\<close>

locale intrusive_list =
  fixes off sz :: nat
  assumes field_fits: "off + 8 \<le> sz" and node_size: "sz \<le> 2 ^ 64"
begin

lemma link_in_node: "bytes (x + of_nat off) 8 \<subseteq> bytes x sz"
  by (rule subrange [OF field_fits node_size])

lemma link_unchanged:
  assumes "\<And>y. y \<in> bytes x sz \<Longrightarrow> m' y = m y"
  shows "load64 m' (x + of_nat off) = load64 m (x + of_nat off)"
  by (rule load_le_cong) (use assms link_in_node in auto)

text \<open>Writes outside the nodes keep the list.\<close>

lemma chain_frame:
  assumes "\<And>x y. x \<in> set xs \<Longrightarrow> y \<in> bytes x sz \<Longrightarrow> m' y = m y"
  shows "chain off m' p xs = chain off m p xs"
  by (rule chain_cong) (use assms link_unchanged in blast)

text \<open>Linking a new node in front.\<close>

lemma chain_push:
  assumes "chain off m p xs" and "x \<noteq> 0" and "load64 m' (x + of_nat off) = p"
    and "\<And>y z. y \<in> set xs \<Longrightarrow> z \<in> bytes y sz \<Longrightarrow> m' z = m z"
  shows "chain off m' x (x # xs)"
  using assms chain_frame [of xs m' m p] by auto

text \<open>Unlinking a node: the link of its predecessor takes the value of its own link.\<close>

lemma chain_unlink:
  assumes "chain off m p (ys @ y # x # zs)"
    and "sorted_wrt (\<lambda>a b. bytes a sz \<inter> bytes b sz = {}) (ys @ y # x # zs)"
  shows "chain off (store64 m (y + of_nat off) (load64 m (x + of_nat off))) p (ys @ y # zs)"
proof -
  let ?m = "store64 m (y + of_nat off) (load64 m (x + of_nat off))"
  have away: "load64 ?m (z + of_nat off) = load64 m (z + of_nat off)" if "bytes y sz \<inter> bytes z sz = {}" for z
    using that link_in_node [of y] link_in_node [of z] by (intro load_store_other) auto
  have ys: "bytes y sz \<inter> bytes z sz = {}" if "z \<in> set ys" for z
    using assms(2) that by (auto simp: sorted_wrt_append Int_commute)
  have zs: "bytes y sz \<inter> bytes z sz = {}" if "z \<in> set zs" for z
    using assms(2) that by (auto simp: sorted_wrt_append)
  have 1: "chain off m (load64 m (x + of_nat off)) zs"
    and 2: "y \<noteq> 0" "case ys of [] \<Rightarrow> p = y | x # _ \<Rightarrow> p = x" "0 \<notin> set ys"
      "\<forall>i < length ys. load64 m (ys ! i + of_nat off) = (ys @ [y]) ! Suc i"
    using assms(1) unfolding chain_append [of off m p ys y "x # zs"] by auto
  have "chain off ?m (load64 ?m (y + of_nat off)) zs"
    using 1 chain_cong [of zs ?m off m "load64 m (x + of_nat off)"] away zs by simp
  moreover have "\<forall>i < length ys. load64 ?m (ys ! i + of_nat off) = (ys @ [y]) ! Suc i"
    using 2(4) away ys by simp
  ultimately show ?thesis using 2 unfolding chain_append [of off ?m p ys y zs] by simp
qed

end

end
