(* ===== verification/Machine.thy ===== *)
theory Machine
  imports Prelude
begin

text \<open>
  The machine the kernel runs on (port I/O of \<open>util/ioports.h\<close>, the privileged instructions
  of the inline assembly) and the memory utilities of \<open>util/memutil.c\<close> and
  \<open>util/memutil.h\<close>. Every effect outside memory is an \<open>event\<close> of a trace; what a device
  answers to a port read is a function of the trace so far.
\<close>

section \<open>State\<close>

text \<open>
  \<open>FtInit\<close> and \<open>FtWrite\<close> are calls of the flanterm terminal library; \<open>Cr3Load\<close>, \<open>Lgdt\<close> and
  \<open>Lidt\<close> load the register of that name (a table register gets a limit and a base); \<open>LoadDS\<close> sets
  the five data segment registers and \<open>LoadCS\<close> the code segment register to a selector; \<open>MmioW\<close> and \<open>MmioR\<close> are accesses to memory-mapped device
  registers through volatile pointers; the rest are the instructions of that name.
\<close>

datatype event =
    OutB u16 u8 | OutW u16 u16 | OutL u16 u32
  | InB u16 u8 | InW u16 u16 | InL u16 u32
  | Cli | Sti | Hlt
  | Cr3Load u64 | Lgdt u16 addr | Lidt u16 addr | LoadDS u16 | LoadCS u16
  | FtInit addr i32 i32 i32 | FtWrite u8
  | MmioW addr u32 | MmioR addr u32

record machine =
  mem :: memory
  trace :: "event list"
  device :: "event list \<Rightarrow> u16 \<Rightarrow> u32"

definition emit :: "event \<Rightarrow> 'z machine_scheme \<Rightarrow> 'z machine_scheme" where
  "emit e s = s\<lparr>trace := trace s @ [e]\<rparr>"

section \<open>Port I/O\<close>

definition outb :: "u16 \<Rightarrow> u8 \<Rightarrow> 'z machine_scheme \<Rightarrow> 'z machine_scheme" where
  "outb port val s = emit (OutB port val) s"

definition outw :: "u16 \<Rightarrow> u16 \<Rightarrow> 'z machine_scheme \<Rightarrow> 'z machine_scheme" where
  "outw port val s = emit (OutW port val) s"

definition outl :: "u16 \<Rightarrow> u32 \<Rightarrow> 'z machine_scheme \<Rightarrow> 'z machine_scheme" where
  "outl port val s = emit (OutL port val) s"

definition inb :: "u16 \<Rightarrow> 'z machine_scheme \<Rightarrow> u8 \<times> 'z machine_scheme" where
  "inb port s = (let ret = ucast (device s (trace s) port) in (ret, emit (InB port ret) s))"

definition inw :: "u16 \<Rightarrow> 'z machine_scheme \<Rightarrow> u16 \<times> 'z machine_scheme" where
  "inw port s = (let ret = ucast (device s (trace s) port) in (ret, emit (InW port ret) s))"

definition inl :: "u16 \<Rightarrow> 'z machine_scheme \<Rightarrow> u32 \<times> 'z machine_scheme" where
  "inl port s = (let ret = device s (trace s) port in (ret, emit (InL port ret) s))"

definition io_wait :: "'z machine_scheme \<Rightarrow> 'z machine_scheme" where
  "io_wait s = outb 0x80 0 s"

section \<open>Memory utilities\<close>

definition ALIGN_UP :: "'a::len word \<Rightarrow> 'a word \<Rightarrow> 'a word" where
  "ALIGN_UP v boundary = (v + (boundary - 1)) div boundary * boundary"

definition ALIGN_DOWN :: "'a::len word \<Rightarrow> 'a word \<Rightarrow> 'a word" where
  "ALIGN_DOWN v boundary = v AND NOT (boundary - 1)"

text \<open>The loops count a \<open>size_t\<close> index up to the bound; each ends because the distance shrinks.\<close>

function memset_loop :: "addr \<Rightarrow> u8 \<Rightarrow> u64 \<Rightarrow> u64 \<Rightarrow> memory \<Rightarrow> memory" where
  "memset_loop k v n i m =
     (if i < n then memset_loop k v n (i + 1) (m(k + i := v)) else m)"
  by pat_completeness auto
termination
  by (relation "measure (\<lambda>(k, v, n, i, m). unat n - unat i)") (auto intro: count_up_decreases)

definition memset :: "memory \<Rightarrow> addr \<Rightarrow> i32 \<Rightarrow> u64 \<Rightarrow> memory" where
  "memset m memtoset v buffsize = memset_loop memtoset (ucast v) buffsize 0 m"

function memcpy_loop :: "addr \<Rightarrow> addr \<Rightarrow> u64 \<Rightarrow> u64 \<Rightarrow> memory \<Rightarrow> memory" where
  "memcpy_loop dest src n i m =
     (if i < n then memcpy_loop dest src n (i + 1) (m(dest + i := m (src + i))) else m)"
  by pat_completeness auto
termination
  by (relation "measure (\<lambda>(d, c, n, i, m). unat n - unat i)") (auto intro: count_up_decreases)

definition memcpy :: "memory \<Rightarrow> addr \<Rightarrow> addr \<Rightarrow> u64 \<Rightarrow> memory" where
  "memcpy m dest src n = memcpy_loop dest src n 0 m"

definition KVaddrToPaddr :: "addr \<Rightarrow> addr \<Rightarrow> addr \<Rightarrow> addr" where
  "KVaddrToPaddr vaddr kernelVirtStart kernelPhysStart =
     (let off = vaddr - kernelVirtStart in kernelPhysStart + off)"

definition mmio_write64 :: "memory \<Rightarrow> addr \<Rightarrow> u64 \<Rightarrow> memory" where
  "mmio_write64 m target v = store64 m target v"

definition mmio_write32 :: "memory \<Rightarrow> addr \<Rightarrow> u32 \<Rightarrow> memory" where
  "mmio_write32 m target v = store32 m target v"

definition mmio_write16 :: "memory \<Rightarrow> addr \<Rightarrow> u16 \<Rightarrow> memory" where
  "mmio_write16 m target v = store16 m target v"

definition mmio_write8 :: "memory \<Rightarrow> addr \<Rightarrow> u8 \<Rightarrow> memory" where
  "mmio_write8 m target v = m(target := v)"

definition mmio_read64 :: "memory \<Rightarrow> addr \<Rightarrow> u64" where
  "mmio_read64 m target = load64 m target"

definition mmio_read32 :: "memory \<Rightarrow> addr \<Rightarrow> u32" where
  "mmio_read32 m target = load32 m target"

definition mmio_read16 :: "memory \<Rightarrow> addr \<Rightarrow> u16" where
  "mmio_read16 m target = load16 m target"

definition mmio_read8 :: "memory \<Rightarrow> addr \<Rightarrow> u8" where
  "mmio_read8 m target = m target"

declare memset_loop.simps [simp del] memcpy_loop.simps [simp del]

section \<open>What they compute\<close>

lemmas port_defs = outb_def outw_def outl_def inb_def inw_def inl_def io_wait_def emit_def

lemma emit_simps [simp]:
  "mem (emit e s) = mem s" "trace (emit e s) = trace s @ [e]" "device (emit e s) = device s"
  by (simp_all add: emit_def)

text \<open>An address is the \<open>i\<close>-th of a region.\<close>

lemma offset_eq_iff: "x = k + i \<longleftrightarrow> unat (x - k) = unat (i :: u64)"
proof -
  have "x = k + i \<longleftrightarrow> x - k = i" by (auto simp: algebra_simps)
  then show ?thesis by (simp add: word_unat_eq_iff)
qed

lemma memset_loop_eq:
  "memset_loop k v n i m x =
     (if unat i \<le> unat (x - k) \<and> unat (x - k) < unat n then v else m x)"
proof (induction k v n i m rule: memset_loop.induct)
  case (1 k v n i m)
  show ?case
  proof (cases "i < n")
    case True
    have "memset_loop k v n i m x = memset_loop k v n (i + 1) (m(k + i := v)) x"
      using True by (simp add: memset_loop.simps [of k v n i])
    also have "\<dots> = (if unat (i + 1) \<le> unat (x - k) \<and> unat (x - k) < unat n then v
        else (m(k + i := v)) x)"
      using "1.IH" [OF True] .
    also have "\<dots> = (if unat i \<le> unat (x - k) \<and> unat (x - k) < unat n then v else m x)"
      using True offset_eq_iff [of x k i] by (auto simp: unat_Suc_below word_less_nat_alt)
    finally show ?thesis .
  next
    case False
    then show ?thesis by (auto simp: memset_loop.simps [of k v n i] word_less_nat_alt)
  qed
qed

lemma memset_apply: "memset m a v n x = (if x \<in> bytes a (unat n) then ucast v else m x)"
  by (simp add: memset_def memset_loop_eq bytes_def)

lemma memset_eq [code]:
  "memset m a v n = (\<lambda>x. if unat (x - a) < unat n then ucast v else m x)"
  by (rule ext) (simp add: memset_apply bytes_def)

lemma memset_outside: "x \<notin> bytes a (unat n) \<Longrightarrow> memset m a v n x = m x"
  by (simp add: memset_apply)

lemma load_memset_outside:
  assumes "bytes a (unat n) \<inter> bytes b k = {}" and "k \<le> 2 ^ 64"
  shows "(load_le k (memset m a v n) b :: 'a::len word) = load_le k m b"
  by (rule load_le_cong [OF _ assms(2)]) (use assms(1) in \<open>auto intro!: memset_outside\<close>)

lemma load_zero: "(\<And>x. x \<in> bytes b k \<Longrightarrow> m x = 0) \<Longrightarrow> k \<le> 2 ^ 64 \<Longrightarrow> (load_le k m b :: 'a::len word) = 0"
proof (rule bit_word_eqI)
  fix i assume m: "\<And>x. x \<in> bytes b k \<Longrightarrow> m x = 0" and k: "k \<le> 2 ^ 64"
  have "m (b + of_nat (i div 8)) = 0" if "i < 8 * k"
    using that k by (intro m offset_in_bytes) auto
  then show "bit (load_le k m b :: 'a word) i = bit 0 i" by (auto simp: bit_load_le)
qed

text \<open>
  A copy whose destination does not overlap its source: the destination holds the source's
  bytes and nothing else changes.
\<close>

lemma memcpy_loop_eq:
  assumes "bytes dest (unat n) \<inter> bytes src (unat n) = {}"
  shows "memcpy_loop dest src n i m x =
    (if unat i \<le> unat (x - dest) \<and> unat (x - dest) < unat n then m (src + (x - dest)) else m x)"
  using assms
proof (induction dest src n i m rule: memcpy_loop.induct)
  case (1 dest src n i m)
  show ?case
  proof (cases "i < n")
    case True
    let ?m = "m(dest + i := m (src + i))"
    have keep: "?m (src + (x - dest)) = m (src + (x - dest))" if "unat (x - dest) < unat n"
    proof -
      have "dest + i \<in> bytes dest (unat n)" "src + (x - dest) \<in> bytes src (unat n)"
        using that True by (simp_all add: bytes_def word_less_nat_alt)
      with "1.prems" have "src + (x - dest) \<noteq> dest + i" by (metis disjoint_iff)
      then show ?thesis by simp
    qed
    have "memcpy_loop dest src n i m x = memcpy_loop dest src n (i + 1) ?m x"
      using True by (simp add: memcpy_loop.simps [of dest src n i])
    also have "\<dots> = (if unat (i + 1) \<le> unat (x - dest) \<and> unat (x - dest) < unat n
        then ?m (src + (x - dest)) else ?m x)"
      using "1.IH" [OF True "1.prems"] .
    also have "\<dots> = (if unat i \<le> unat (x - dest) \<and> unat (x - dest) < unat n
        then m (src + (x - dest)) else m x)"
    proof (cases "x = dest + i")
      case True
      with \<open>i < n\<close> show ?thesis by (simp add: unat_Suc_below word_less_nat_alt)
    next
      case False
      then have "unat (x - dest) \<noteq> unat i" by (simp add: offset_eq_iff)
      then have "unat (i + 1) \<le> unat (x - dest) \<longleftrightarrow> unat i \<le> unat (x - dest)"
        using \<open>i < n\<close> by (auto simp: unat_Suc_below)
      with False keep show ?thesis by (simp cong: if_cong)
    qed
    finally show ?thesis .
  next
    case False
    then show ?thesis by (auto simp: memcpy_loop.simps [of dest src n i] word_less_nat_alt)
  qed
qed

lemma memcpy_apply:
  assumes "bytes dest (unat n) \<inter> bytes src (unat n) = {}"
  shows "memcpy m dest src n x =
    (if x \<in> bytes dest (unat n) then m (src + (x - dest)) else m x)"
  using memcpy_loop_eq [OF assms, of 0 m x] by (simp add: memcpy_def bytes_def)

text \<open>Rounding up, as long as the sum does not wrap around.\<close>

lemma unat_ALIGN_UP:
  fixes v b :: "'a::len word"
  assumes "0 < b" and "unat v + (unat b - 1) < 2 ^ LENGTH('a)"
  shows "unat (ALIGN_UP v b) = (unat v + (unat b - 1)) div unat b * unat b"
proof -
  have pred: "unat (b - 1) = unat b - 1"
    using assms(1) by (simp add: unat_minus_one word_greater_zero_iff)
  have sum: "unat (v + (b - 1)) = unat v + (unat b - 1)"
    using assms(2) by (simp add: unat_word_ariths pred)
  have "(unat v + (unat b - 1)) div unat b * unat b \<le> unat v + (unat b - 1)"
    by (rule div_times_less_eq_dividend)
  then have "(unat v + (unat b - 1)) div unat b * unat b < 2 ^ LENGTH('a)"
    using assms(2) by (rule le_less_trans)
  then show ?thesis
    by (simp only: ALIGN_UP_def unat_word_ariths(2) [of "(v + (b - 1)) div b" b] unat_div sum mod_less)
qed

lemma round_up_bounds:
  assumes "0 < (b :: nat)"
  shows "v \<le> (v + (b - 1)) div b * b" and "(v + (b - 1)) div b * b < v + b"
proof -
  have "(v + (b - 1)) div b * b + (v + (b - 1)) mod b = v + (b - 1)" by (rule div_mult_mod_eq)
  moreover have "(v + (b - 1)) mod b < b" using assms by simp
  ultimately show "v \<le> (v + (b - 1)) div b * b" "(v + (b - 1)) div b * b < v + b"
    using assms by linarith+
qed

end
