(* ===== verification/CString.thy ===== *)
theory CString
  imports Machine "HOL-Library.Signed_Division"
begin

text \<open>
  The string functions of \<open>util/string.c\<close>, on strings that live in memory as bytes up to a
  terminating zero, and the two number printers with their static buffers.
\<close>

section \<open>Strings in memory\<close>

text \<open>
  The index of each loop is an \<open>int\<close>: a loop that would count past \<open>2 ^ 31 - 1\<close> has no
  meaning in C and yields \<open>None\<close>.
\<close>

function strlen_loop :: "memory \<Rightarrow> addr \<Rightarrow> nat \<Rightarrow> nat option" where
  "strlen_loop m str i =
     (if i < 2 ^ 31
      then if m (str + of_nat i) \<noteq> 0 then strlen_loop m str (Suc i) else Some i
      else None)"
  by pat_completeness auto
termination
  by (relation "measure (\<lambda>(m, str, i). 2 ^ 31 - i)") auto

definition strlen :: "memory \<Rightarrow> addr \<Rightarrow> nat option" where
  "strlen m str = strlen_loop m str 0"

function strnlen_loop :: "memory \<Rightarrow> addr \<Rightarrow> int \<Rightarrow> nat \<Rightarrow> nat option" where
  "strnlen_loop m str n i =
     (if i < 2 ^ 31
      then if int i \<noteq> n \<and> m (str + of_nat i) \<noteq> 0 then strnlen_loop m str n (Suc i) else Some i
      else None)"
  by pat_completeness auto
termination
  by (relation "measure (\<lambda>(m, str, n, i). 2 ^ 31 - i)") auto

definition strnlen :: "memory \<Rightarrow> addr \<Rightarrow> int \<Rightarrow> nat option" where
  "strnlen m str n = (if n = 0 then Some 0 else strnlen_loop m str n 0)"

text \<open>
  \<open>strcmp\<close> moves two pointers and no index; \<open>None\<close> is a comparison that walks around the
  whole address space and never ends. A \<open>char\<close> is signed.
\<close>

function strcmp_loop :: "memory \<Rightarrow> addr \<Rightarrow> addr \<Rightarrow> nat \<Rightarrow> int option" where
  "strcmp_loop m str1 str2 i =
     (if i < 2 ^ 64
      then if m (str1 + of_nat i) \<noteq> 0 \<and> m (str1 + of_nat i) = m (str2 + of_nat i)
           then strcmp_loop m str1 str2 (Suc i)
           else Some (sint (m (str1 + of_nat i)) - sint (m (str2 + of_nat i)))
      else None)"
  by pat_completeness auto
termination
  by (relation "measure (\<lambda>(m, p, q, i). 2 ^ 64 - i)") auto

definition strcmp :: "memory \<Rightarrow> addr \<Rightarrow> addr \<Rightarrow> int option" where
  "strcmp m str1 str2 = strcmp_loop m str1 str2 0"

function strncmp_loop :: "memory \<Rightarrow> addr \<Rightarrow> addr \<Rightarrow> int \<Rightarrow> nat \<Rightarrow> int option" where
  "strncmp_loop m str1 str2 n i =
     (if i < 2 ^ 31
      then if int i \<noteq> n \<and> m (str1 + of_nat i) \<noteq> 0 \<and> m (str1 + of_nat i) = m (str2 + of_nat i)
           then strncmp_loop m str1 str2 n (Suc i)
           else if int i = n then Some 0
           else Some (sint (m (str1 + of_nat i)) - sint (m (str2 + of_nat i)))
      else None)"
  by pat_completeness auto
termination
  by (relation "measure (\<lambda>(m, p, q, n, i). 2 ^ 31 - i)") auto

definition strncmp :: "memory \<Rightarrow> addr \<Rightarrow> addr \<Rightarrow> int \<Rightarrow> int option" where
  "strncmp m str1 str2 n = strncmp_loop m str1 str2 n 0"

function strcpy_loop :: "memory \<Rightarrow> addr \<Rightarrow> addr \<Rightarrow> nat \<Rightarrow> memory option" where
  "strcpy_loop m dest src i =
     (if i < 2 ^ 31
      then if m (src + of_nat i) \<noteq> 0
           then strcpy_loop (m(dest + of_nat i := m (src + of_nat i))) dest src (Suc i)
           else Some (m(dest + of_nat i := 0))
      else None)"
  by pat_completeness auto
termination
  by (relation "measure (\<lambda>(m, d, c, i). 2 ^ 31 - i)") auto

definition strcpy :: "memory \<Rightarrow> addr \<Rightarrow> addr \<Rightarrow> memory option" where
  "strcpy m dest src = strcpy_loop m dest src 0"

section \<open>Number printers\<close>

text \<open>
  \<open>itoa\<close> fills its static buffer \<open>ret[64]\<close>; C's \<open>/\<close> and \<open>%\<close> truncate (\<open>sdiv\<close>, \<open>smod\<close>).
\<close>

function itoa_size :: "int \<Rightarrow> nat \<Rightarrow> nat" where
  "itoa_size t sz = (if t sdiv 10 \<noteq> 0 then itoa_size (t sdiv 10) (Suc sz) else sz)"
  by pat_completeness auto
termination
proof (relation "measure (\<lambda>(t, sz). nat \<bar>t\<bar>)")
  fix t :: int and sz :: nat
  assume "t sdiv 10 \<noteq> 0"
  moreover have "\<bar>t sdiv 10\<bar> = \<bar>t\<bar> div 10"
    by (simp add: signed_divide_int_def abs_mult sgn_if)
  ultimately show "((t sdiv 10, Suc sz), t, sz) \<in> measure (\<lambda>(t, sz). nat \<bar>t\<bar>)" by auto
qed auto

fun itoa_fill :: "u8 list \<Rightarrow> int \<Rightarrow> nat \<Rightarrow> u8 list" where
  "itoa_fill ret t 0 = ret"
| "itoa_fill ret t (Suc i) = itoa_fill (ret[i := of_int (t smod 10 + 48)]) (t sdiv 10) i"

definition itoa :: "u8 list \<Rightarrow> int \<Rightarrow> u8 list" where
  "itoa ret res = (let sz = itoa_size res 0 + 1 in itoa_fill (ret[sz := 0]) res sz)"

definition hexChars :: "u8 list" where
  "hexChars = map of_char ''0123456789ABCDEF''"

text \<open>\<open>hexToString\<close> fills \<open>hexString[128]\<close> from its end; the result is the buffer and the index \<open>ptr\<close>.\<close>

function hex_loop :: "u8 list \<Rightarrow> nat \<Rightarrow> u64 \<Rightarrow> u8 list \<times> nat" where
  "hex_loop buf ptr v =
     (if 0 < v then hex_loop (buf[ptr - 1 := hexChars ! unat (v AND 0xF)]) (ptr - 1) (drop_bit 4 v)
      else (buf, ptr))"
  by pat_completeness auto
termination
proof (relation "measure (\<lambda>(buf, ptr, v). unat v)")
  fix buf :: "u8 list" and ptr and v :: u64
  assume "0 < v"
  then have "unat v \<noteq> 0" by (simp add: word_greater_zero_iff unat_eq_0)
  then have "unat v div 16 < unat v" by simp
  then show "((buf[ptr - 1 := hexChars ! unat (v AND 0xF)], ptr - 1, drop_bit 4 v), buf, ptr, v)
      \<in> measure (\<lambda>(buf, ptr, v). unat v)"
    by (simp add: drop_bit_eq_div unat_div)
qed auto

definition hexToString :: "u8 list \<Rightarrow> u64 \<Rightarrow> u8 list \<times> nat" where
  "hexToString hexString v =
     (let buf = hexString[127 := 0] in
      if v = 0 then (buf[126 := hd hexChars], 126) else hex_loop buf 127 v)"

text \<open>The C string that starts at an index of a buffer.\<close>

definition c_string :: "u8 list \<Rightarrow> nat \<Rightarrow> u8 list" where
  "c_string buf i = takeWhile (\<lambda>c. c \<noteq> 0) (drop i buf)"

declare strlen_loop.simps [simp del] strnlen_loop.simps [simp del] strcmp_loop.simps [simp del]
  strncmp_loop.simps [simp del] strcpy_loop.simps [simp del] itoa_size.simps [simp del]
  hex_loop.simps [simp del]

section \<open>Correctness of the string functions\<close>

text \<open>\<open>cstr_at m p xs\<close>: the bytes at \<open>p\<close> are the nonzero bytes \<open>xs\<close>, then a zero.\<close>

definition cstr_at :: "memory \<Rightarrow> addr \<Rightarrow> u8 list \<Rightarrow> bool" where
  "cstr_at m p xs \<longleftrightarrow>
     (\<forall>i < length xs. m (p + of_nat i) = xs ! i) \<and> m (p + of_nat (length xs)) = 0 \<and> 0 \<notin> set xs"

lemma cstr_at_nth:
  assumes "cstr_at m p xs" and "i \<le> length xs"
  shows "m (p + of_nat i) = (xs @ [0]) ! i"
  using assms by (cases "i = length xs") (auto simp: cstr_at_def nth_append)

lemma cstr_at_zero_iff:
  assumes "cstr_at m p xs" and "i \<le> length xs"
  shows "m (p + of_nat i) = 0 \<longleftrightarrow> i = length xs"
  using assms by (auto simp: cstr_at_def le_less) (metis nth_mem)

lemma cstr_at_cong:
  assumes "\<And>x. x \<in> bytes p (Suc (length xs)) \<Longrightarrow> m' x = m x" and "length xs < 2 ^ 64"
  shows "cstr_at m' p xs \<longleftrightarrow> cstr_at m p xs"
proof -
  have "m' (p + of_nat i) = m (p + of_nat i)" if "i \<le> length xs" for i
    using that assms(2) by (intro assms(1) offset_in_bytes) auto
  then show ?thesis by (auto simp: cstr_at_def)
qed

lemma sint_eq_diff: "sint a - sint b = 0 \<longleftrightarrow> a = (b :: u8)" "sint a = sint b \<longleftrightarrow> a = b" "sint a = 0 \<longleftrightarrow> a = 0"
  using word_eq_iff_signed [of a b] word_eq_iff_signed [of a 0] by auto

lemma strlen_loop_cstr:
  assumes "cstr_at m p xs" and "i \<le> length xs" and "length xs < 2 ^ 31"
  shows "strlen_loop m p i = Some (length xs)"
  using assms
proof (induction m p i rule: strlen_loop.induct)
  case (1 m p i)
  then show ?case
    by (subst strlen_loop.simps, cases "i = length xs") (auto simp: cstr_at_zero_iff)
qed

lemma strlen_cstr: "cstr_at m p xs \<Longrightarrow> length xs < 2 ^ 31 \<Longrightarrow> strlen m p = Some (length xs)"
  by (simp add: strlen_def strlen_loop_cstr)

lemma strnlen_loop_cstr:
  assumes "cstr_at m p xs" and "i \<le> length xs" and "int i \<le> n" and "n < 2 ^ 31"
  shows "strnlen_loop m p n i = Some (min (length xs) (nat n))"
  using assms
proof (induction m p n i rule: strnlen_loop.induct)
  case (1 m p n i)
  have lt: "i < 2 ^ 31" using "1.prems"(3,4) by simp
  show ?case
  proof (cases "int i \<noteq> n \<and> m (p + of_nat i) \<noteq> 0")
    case True
    with "1.prems" have "Suc i \<le> length xs" "int (Suc i) \<le> n"
      by (auto simp: cstr_at_zero_iff)
    with 1 True lt show ?thesis by (simp add: strnlen_loop.simps [of m p n i])
  next
    case False
    with "1.prems" lt show ?thesis
      by (auto simp: strnlen_loop.simps [of m p n i] cstr_at_zero_iff min_def)
  qed
qed

lemma strcmp_loop_cstr:
  assumes "cstr_at m p xs" and "cstr_at m q ys" and "i \<le> length xs" and "i \<le> length ys"
    and "take i xs = take i ys" and "length xs < 2 ^ 64"
  shows "\<exists>r. strcmp_loop m p q i = Some r \<and> (r = 0 \<longleftrightarrow> xs = ys)"
  using assms
proof (induction m p q i rule: strcmp_loop.induct)
  case (1 m p q i)
  have lt: "i < 2 ^ 64" using "1.prems" by linarith
  let ?a = "m (p + of_nat i)" and ?b = "m (q + of_nat i)"
  have zeros: "?a = 0 \<longleftrightarrow> i = length xs" "?b = 0 \<longleftrightarrow> i = length ys"
    using "1.prems" by (auto simp: cstr_at_zero_iff)
  show ?case
  proof (cases "?a \<noteq> 0 \<and> ?a = ?b")
    case True
    with zeros "1.prems"(3,4) have "i < length xs" "i < length ys" by auto
    moreover from this True "1.prems"(1,2) have "xs ! i = ys ! i" by (simp add: cstr_at_def)
    ultimately have "take (Suc i) xs = take (Suc i) ys"
      using "1.prems"(5) by (simp add: take_Suc_conv_app_nth)
    with 1 True lt \<open>i < length xs\<close> \<open>i < length ys\<close> show ?thesis
      by (auto simp: strcmp_loop.simps [of m p q i])
  next
    case False
    have "?a = ?b \<longleftrightarrow> xs = ys"
    proof
      assume "?a = ?b"
      with False zeros have "i = length xs" "i = length ys" by auto
      with "1.prems"(5) show "xs = ys" by simp
    next
      assume "xs = ys"
      with "1.prems" show "?a = ?b" by (simp add: cstr_at_nth)
    qed
    with False lt show ?thesis
      by (auto simp: strcmp_loop.simps [of m p q i] sint_eq_diff)
  qed
qed

lemma strncmp_loop_cstr:
  assumes "cstr_at m p xs" and "cstr_at m q ys" and "i \<le> length xs" and "i \<le> length ys"
    and "take i xs = take i ys" and "int i \<le> n" and "n < 2 ^ 31"
  shows "\<exists>r. strncmp_loop m p q n i = Some r \<and> (r = 0 \<longleftrightarrow> take (nat n) xs = take (nat n) ys)"
  using assms
proof (induction m p q n i rule: strncmp_loop.induct)
  case (1 m p q n i)
  have lt: "i < 2 ^ 31" using "1.prems"(6,7) by simp
  let ?a = "m (p + of_nat i)" and ?b = "m (q + of_nat i)"
  have zeros: "?a = 0 \<longleftrightarrow> i = length xs" "?b = 0 \<longleftrightarrow> i = length ys"
    using "1.prems" by (auto simp: cstr_at_zero_iff)
  consider (go) "int i \<noteq> n" "?a \<noteq> 0" "?a = ?b" | (lim) "int i = n" | (stop) "int i \<noteq> n" "?a = 0 \<or> ?a \<noteq> ?b"
    by blast
  then show ?case
  proof cases
    case go
    with zeros "1.prems"(3,4) have "i < length xs" "i < length ys" by auto
    moreover from this go "1.prems"(1,2) have "xs ! i = ys ! i" by (simp add: cstr_at_def)
    ultimately have "take (Suc i) xs = take (Suc i) ys"
      using "1.prems"(5) by (simp add: take_Suc_conv_app_nth)
    with 1 go lt \<open>i < length xs\<close> \<open>i < length ys\<close> show ?thesis
      by (simp add: strncmp_loop.simps [of m p q n i])
  next
    case lim
    with lt "1.prems"(5) show ?thesis by (auto simp: strncmp_loop.simps [of m p q n i])
  next
    case stop
    have "?a = ?b \<longleftrightarrow> take (nat n) xs = take (nat n) ys"
    proof
      assume "?a = ?b"
      with stop zeros have "i = length xs" "i = length ys" by auto
      with "1.prems"(5) show "take (nat n) xs = take (nat n) ys" by simp
    next
      assume eq: "take (nat n) xs = take (nat n) ys"
      have "i < nat n" using stop(1) "1.prems"(6) by linarith
      then have "(take (nat n) xs @ [0]) ! i = (xs @ [0]) ! i" "(take (nat n) ys @ [0]) ! i = (ys @ [0]) ! i"
        using "1.prems"(3,4) by (auto simp: nth_append)
      with eq "1.prems" show "?a = ?b" by (simp add: cstr_at_nth)
    qed
    with stop lt show ?thesis
      by (auto simp: strncmp_loop.simps [of m p q n i] sint_eq_diff)
  qed
qed

text \<open>A copy leaves the string and its terminator at the destination and touches nothing else.\<close>

lemma strcpy_loop_cstr:
  assumes "cstr_at m src xs" and "i \<le> length xs" and "length xs < 2 ^ 31"
    and "bytes dest (Suc (length xs)) \<inter> bytes src (Suc (length xs)) = {}"
  shows "strcpy_loop m dest src i = Some (\<lambda>x.
    if i \<le> unat (x - dest) \<and> unat (x - dest) \<le> length xs then (xs @ [0]) ! unat (x - dest) else m x)"
  using assms
proof (induction m dest src i rule: strcpy_loop.induct)
  case (1 m dest src i)
  have lt: "i < 2 ^ 31" using "1.prems" by simp
  have at: "x = dest + of_nat i \<longleftrightarrow> unat (x - dest) = i" for x
    using lt by (simp add: offset_eq_iff unat_of_nat64)
  show ?case
  proof (cases "i = length xs")
    case True
    with "1.prems"(1) lt have "strcpy_loop m dest src i = Some (m(dest + of_nat i := 0))"
      by (subst strcpy_loop.simps) (simp add: cstr_at_def)
    also have "m(dest + of_nat i := 0) = (\<lambda>x.
      if i \<le> unat (x - dest) \<and> unat (x - dest) \<le> length xs then (xs @ [0]) ! unat (x - dest) else m x)"
    proof
      fix x
      show "(m(dest + of_nat i := 0)) x = (if i \<le> unat (x - dest) \<and> unat (x - dest) \<le> length xs
          then (xs @ [0]) ! unat (x - dest) else m x)"
        using at [of x] True by (cases "x = dest + of_nat i") auto
    qed
    finally show ?thesis .
  next
    case False
    with "1.prems" have i: "i < length xs" by simp
    with "1.prems"(1) have c: "m (src + of_nat i) = xs ! i" "xs ! i \<noteq> 0"
      by (simp_all add: cstr_at_def) (metis nth_mem)
    let ?m = "m(dest + of_nat i := m (src + of_nat i))"
    have "dest + of_nat i \<in> bytes dest (Suc (length xs))"
      using i "1.prems"(3) by (intro offset_in_bytes) auto
    with "1.prems"(4) have "?m x = m x" if "x \<in> bytes src (Suc (length xs))" for x
      using that by (metis disjoint_iff fun_upd_other)
    then have keep: "cstr_at ?m src xs"
      using "1.prems"(1,3) by (subst cstr_at_cong) auto
    have nz: "m (src + of_nat i) \<noteq> 0" and le: "Suc i \<le> length xs" using i c by simp_all
    have "strcpy_loop ?m dest src (Suc i) = Some (\<lambda>x.
      if Suc i \<le> unat (x - dest) \<and> unat (x - dest) \<le> length xs then (xs @ [0]) ! unat (x - dest) else ?m x)"
      by (rule "1.IH" [OF lt nz keep le "1.prems"(3,4)])
    moreover have "strcpy_loop m dest src i = strcpy_loop ?m dest src (Suc i)"
      using lt c by (subst strcpy_loop.simps) simp
    moreover have "(if Suc i \<le> unat (x - dest) \<and> unat (x - dest) \<le> length xs
        then (xs @ [0]) ! unat (x - dest) else ?m x) =
      (if i \<le> unat (x - dest) \<and> unat (x - dest) \<le> length xs
        then (xs @ [0]) ! unat (x - dest) else m x)" for x
      using i c at [of x] by (cases "x = dest + of_nat i") (auto simp: nth_append)
    ultimately show ?thesis by simp
  qed
qed

lemma strcpy_cstr:
  assumes "cstr_at m src xs" and "length xs < 2 ^ 31"
    and "bytes dest (Suc (length xs)) \<inter> bytes src (Suc (length xs)) = {}"
  shows "strcpy m dest src = Some (\<lambda>x.
    if x \<in> bytes dest (Suc (length xs)) then (xs @ [0]) ! unat (x - dest) else m x)"
  using strcpy_loop_cstr [OF assms(1) _ assms(2,3), of 0]
  by (simp add: strcpy_def bytes_def less_Suc_eq_le)

section \<open>Correctness of the number printers\<close>

text \<open>
  The digits of a magnitude, most significant first, each offset from the character \<open>0\<close> in
  the direction of the sign.
\<close>

fun signed_digits :: "int \<Rightarrow> nat \<Rightarrow> u8 list" where
  "signed_digits sg n =
     (if n < 10 then [of_int (48 + sg * int n)]
      else signed_digits sg (n div 10) @ [of_int (48 + sg * int (n mod 10))])"

declare signed_digits.simps [simp del]

lemma sdiv_smod_sign:
  assumes "sg \<in> {1, -1}"
  shows "(sg * int n) sdiv 10 = sg * int (n div 10)" and "(sg * int n) smod 10 = sg * int (n mod 10)"
  using assms by (auto simp: signed_divide_int_def signed_modulo_int_def sgn_if zdiv_int zmod_int abs_mult)

lemma signed_digits_nonempty: "0 < length (signed_digits sg n)"
  by (subst signed_digits.simps) simp

lemma itoa_size_digits:
  assumes "sg \<in> {1, -1}"
  shows "itoa_size (sg * int n) k + 1 = k + length (signed_digits sg n)"
proof (induction n arbitrary: k rule: less_induct)
  case (less n)
  have sg: "sg * int (n div 10) = 0 \<longleftrightarrow> n < 10" using assms by auto
  show ?case
  proof (cases "n < 10")
    case True
    with sg show ?thesis
      by (subst itoa_size.simps, subst signed_digits.simps) (simp add: sdiv_smod_sign [OF assms])
  next
    case False
    then have "n div 10 < n" by simp
    from less.IH [OF this, of "Suc k"] False sg show ?thesis
      by (subst itoa_size.simps, subst signed_digits.simps) (simp add: sdiv_smod_sign [OF assms])
  qed
qed

lemma itoa_fill_digits:
  assumes "sg \<in> {1, -1}" and "length (signed_digits sg n) \<le> length ret"
  shows "itoa_fill ret (sg * int n) (length (signed_digits sg n)) =
    signed_digits sg n @ drop (length (signed_digits sg n)) ret"
  using assms(2)
proof (induction n arbitrary: ret rule: less_induct)
  case (less n)
  show ?case
  proof (cases "n < 10")
    case True
    with less.prems show ?thesis
      by (cases ret) (simp_all add: signed_digits.simps [of sg n] sdiv_smod_sign [OF assms(1)] add.commute)
  next
    case False
    let ?d = "signed_digits sg (n div 10)" and ?c = "of_int (48 + sg * int (n mod 10)) :: u8"
    from False less.prems have len: "length ?d < length ret"
      by (simp add: signed_digits.simps [of sg n])
    from False have "n div 10 < n" by simp
    from less.IH [OF this, of "ret[length ?d := ?c]"] len
    have "itoa_fill (ret[length ?d := ?c]) (sg * int (n div 10)) (length ?d) =
      ?d @ ?c # drop (Suc (length ?d)) ret"
      by (simp add: Cons_nth_drop_Suc [symmetric] drop_update_cancel)
    with False show ?thesis
      by (simp add: signed_digits.simps [of sg n] sdiv_smod_sign [OF assms(1)] add.commute)
  qed
qed

lemma signed_digits_nonzero: "sg \<in> {1, -1} \<Longrightarrow> 0 \<notin> set (signed_digits sg n)"
proof (induction n rule: less_induct)
  case (less n)
  have char: "(of_int (48 + sg * int d) :: u8) \<noteq> 0" if "d < 10" for d
  proof -
    from that have "d \<in> {0,1,2,3,4,5,6,7,8,9}" by auto
    with less.prems show ?thesis by auto
  qed
  show ?case
    using less char [of n] char [of "n mod 10"]
    by (cases "n < 10") (simp_all add: signed_digits.simps [of sg n])
qed

lemma length_signed_digits: "n < 10 ^ k \<Longrightarrow> 0 < k \<Longrightarrow> length (signed_digits sg n) \<le> k"
proof (induction k arbitrary: n)
  case 0
  then show ?case by simp
next
  case (Suc k)
  show ?case
  proof (cases "n < 10")
    case True
    then show ?thesis by (simp add: signed_digits.simps [of sg n])
  next
    case False
    with Suc.prems have "n div 10 < 10 ^ k" "0 < k" by (auto intro: gr0I)
    from Suc.IH [OF this] False show ?thesis by (simp add: signed_digits.simps [of sg n])
  qed
qed

lemma itoa_c_string:
  assumes "sg \<in> {1, -1}" and "n \<le> 2 ^ 31" and "length ret = 64"
  shows "c_string (itoa ret (sg * int n)) 0 = signed_digits sg n"
proof -
  let ?d = "signed_digits sg n"
  have "length ?d \<le> 10" using assms(2) by (intro length_signed_digits) auto
  moreover have "itoa_size (sg * int n) 0 + 1 = length ?d"
    using itoa_size_digits [OF assms(1), of n 0] by simp
  ultimately have "itoa ret (sg * int n) = ?d @ drop (length ?d) (ret[length ?d := 0])"
    using itoa_fill_digits [OF assms(1), of n "ret[length ?d := 0]"] assms(3) by (simp add: itoa_def Let_def)
  also have "drop (length ?d) (ret[length ?d := 0]) = 0 # drop (Suc (length ?d)) ret"
    using \<open>length ?d \<le> 10\<close> assms(3) by (simp add: Cons_nth_drop_Suc [symmetric] drop_update_cancel)
  finally show ?thesis
    using signed_digits_nonzero [OF assms(1), of n]
    by (simp add: c_string_def, subst takeWhile_append2) auto
qed

text \<open>The value a string of decimal digits denotes.\<close>

definition dec_value :: "u8 list \<Rightarrow> nat" where
  "dec_value cs = foldl (\<lambda>v c. 10 * v + (unat c - 48)) 0 cs"

lemma of_nat_digit: "d < 10 \<Longrightarrow> (of_int (48 + 1 * int d) :: u8) = of_nat (48 + d)"
  by simp

lemma signed_digits_value:
  "dec_value (signed_digits 1 n) = n \<and> (\<forall>c \<in> set (signed_digits 1 n). 48 \<le> unat c \<and> unat c \<le> 57)"
proof (induction n rule: less_induct)
  case (less n)
  have digit: "unat (of_int (48 + 1 * int d) :: u8) = 48 + d" if "d < 10" for d
  proof -
    from that have "d \<in> {0,1,2,3,4,5,6,7,8,9}" by auto
    then show ?thesis by auto
  qed
  show ?case
  proof (cases "n < 10")
    case True
    with digit [of n] show ?thesis by (simp add: signed_digits.simps [of 1 n] dec_value_def)
  next
    case False
    then have "n div 10 < n" by simp
    from less [OF this] digit [of "n mod 10"] False mod_less_divisor [of 10 n] show ?thesis
      by (simp add: signed_digits.simps [of 1 n] dec_value_def less_Suc_eq_le [symmetric])
  qed
qed

fun hex_digits :: "nat \<Rightarrow> u8 list" where
  "hex_digits n = (if n = 0 then [] else hex_digits (n div 16) @ [hexChars ! (n mod 16)])"

declare hex_digits.simps [simp del]

text \<open>The hexadecimal text of a number.\<close>

definition hex_text :: "u64 \<Rightarrow> u8 list" where
  "hex_text v = (if v = 0 then map of_char ''0'' else hex_digits (unat v))"

lemma length_hex_digits: "n < 16 ^ k \<Longrightarrow> length (hex_digits n) \<le> k"
proof (induction k arbitrary: n)
  case 0
  then show ?case by (simp add: hex_digits.simps)
next
  case (Suc k)
  then have "n div 16 < 16 ^ k" by auto
  from Suc.IH [OF this] show ?case by (simp add: hex_digits.simps [of n])
qed

lemma hexChars_nonzero: "d < 16 \<Longrightarrow> hexChars ! d \<noteq> 0"
proof -
  assume "d < 16"
  then have "hexChars ! d \<in> set hexChars" by (intro nth_mem) (simp add: hexChars_def)
  moreover have "0 \<notin> set hexChars" by (simp add: hexChars_def)
  ultimately show ?thesis by metis
qed

lemma hex_digits_nonzero: "0 \<notin> set (hex_digits n)"
proof (induction n rule: hex_digits.induct)
  case (1 n)
  have "0 \<noteq> hexChars ! (n mod 16)" by (metis hexChars_nonzero mod_less_divisor zero_less_numeral)
  with 1 show ?case by (subst hex_digits.simps) auto
qed

lemma hex_loop_digits:
  assumes "length (hex_digits (unat v)) \<le> ptr" and "ptr < length buf"
  shows "\<exists>buf'. hex_loop buf ptr v = (buf', ptr - length (hex_digits (unat v))) \<and>
    drop (ptr - length (hex_digits (unat v))) buf' = hex_digits (unat v) @ drop ptr buf"
  using assms
proof (induction buf ptr v rule: hex_loop.induct)
  case (1 buf ptr v)
  show ?case
  proof (cases "0 < v")
    case True
    let ?h = "hex_digits (unat v div 16)" and ?c = "hexChars ! unat (v AND 0xF)"
    have nz: "unat v \<noteq> 0" using True by (simp add: word_greater_zero_iff unat_eq_0)
    have low: "unat (v AND 0xF) = unat v mod 16"
    proof -
      have "v AND 0xF = take_bit 4 v" by (simp add: take_bit_eq_mask mask_eq_decr_exp)
      then show ?thesis by (simp add: take_bit_eq_mod unat_mod)
    qed
    have shift: "unat (drop_bit 4 v) = unat v div 16"
      by (simp add: drop_bit_eq_div unat_div)
    have dig: "hex_digits (unat v) = ?h @ [?c]"
      using nz by (simp add: hex_digits.simps [of "unat v"] low)
    from "1.prems" dig have p: "length ?h \<le> ptr - 1" "0 < ptr" "ptr - 1 < length buf" by auto
    from "1.IH" [OF True] p shift obtain buf' where
      "hex_loop (buf[ptr - 1 := ?c]) (ptr - 1) (drop_bit 4 v) = (buf', ptr - 1 - length ?h)"
      "drop (ptr - 1 - length ?h) buf' = ?h @ drop (ptr - 1) (buf[ptr - 1 := ?c])"
      by auto
    moreover have "drop (ptr - 1) (buf[ptr - 1 := ?c]) = ?c # drop ptr buf"
      using p(2) "1.prems"(2) Cons_nth_drop_Suc [of "ptr - 1" "buf[ptr - 1 := ?c]"]
      by (simp add: drop_update_cancel)
    ultimately show ?thesis
      using True dig by (simp add: hex_loop.simps [of buf ptr v])
  next
    case False
    then have "unat v = 0" by (simp add: word_greater_zero_iff)
    with False show ?thesis by (simp add: hex_loop.simps [of buf ptr v] hex_digits.simps)
  qed
qed

lemma hexToString_c_string:
  assumes "length hexString = 128"
  shows "(\<lambda>(buf, ptr). c_string buf ptr) (hexToString hexString v) = hex_text v"
proof (cases "v = 0")
  case True
  let ?buf = "hexString[127 := 0, 126 := hd hexChars]"
  have "drop 126 ?buf = [hd hexChars, 0]"
    using assms by (auto simp: list_eq_iff_nth_eq less_2_cases_iff nth_list_update)
  with True show ?thesis by (simp add: hexToString_def c_string_def hexChars_def hex_text_def)
next
  case False
  have "length (hex_digits (unat v)) \<le> 16"
    using unsigned_less [of v] by (intro length_hex_digits) simp
  with assms hex_loop_digits [of v 127 "hexString[127 := 0]"] obtain buf where
    "hex_loop (hexString[127 := 0]) 127 v = (buf, 127 - length (hex_digits (unat v)))"
    "drop (127 - length (hex_digits (unat v))) buf = hex_digits (unat v) @ drop 127 (hexString[127 := 0])"
    by auto
  moreover have "drop 127 (hexString[127 := 0]) = [0]"
    using assms by (auto simp: list_eq_iff_nth_eq)
  ultimately show ?thesis
    using False hex_digits_nonzero [of "unat v"]
    by (simp add: hexToString_def c_string_def hex_text_def, subst takeWhile_append2) auto
qed

section \<open>Properties\<close>

text \<open>
  \<open>itoa\<close> prints a non-negative \<open>int\<close> in decimal: every character is a digit and the
  digits read back as the number.
\<close>

theorem itoa_decimal:
  assumes "0 \<le> res" and "res < 2 ^ 31" and "length ret = 64"
  shows "dec_value (c_string (itoa ret res) 0) = nat res
    \<and> (\<forall>c \<in> set (c_string (itoa ret res) 0). 48 \<le> unat c \<and> unat c \<le> 57)"
  using itoa_c_string [of 1 "nat res" ret] signed_digits_value [of "nat res"] assms by simp

theorem itoa_decimal_witness:
  "dec_value (c_string (itoa (replicate 64 0) 2147483647) 0) = 2147483647"
  using itoa_decimal [of 2147483647 "replicate 64 0"] by simp

end
