(* ===== verification/Console.thy ===== *)
theory Console
  imports CString
begin

text \<open>
  The console: \<open>util/serial.c\<close>, \<open>util/print.c\<close>, \<open>system/panic.c\<close> and \<open>system/error.c\<close>.
  Characters go to the serial port COM1, one port write each after polling the line status,
  and to the flanterm terminal once it is set up.
\<close>

section \<open>Serial port\<close>

record console = machine +
  fbSetup :: bool

definition COM1 :: u16 where "COM1 = 0x3F8"

definition is_transmit_empty :: "'z machine_scheme \<Rightarrow> u8 \<times> 'z machine_scheme" where
  "is_transmit_empty s = (let (status, s') = inb (COM1 + 5) s in (status AND 0x20, s'))"

text \<open>The polling loop ends only if the device becomes ready; \<open>None\<close> is a loop that never ends.\<close>

partial_function (option) serial_wait :: "'z machine_scheme \<Rightarrow> 'z machine_scheme option" where
  "serial_wait s = (let (empty, s') = is_transmit_empty s in
     if empty = 0 then serial_wait s' else Some s')"

definition write_serial :: "u8 \<Rightarrow> 'z machine_scheme \<Rightarrow> (unit, 'z machine_scheme) res" where
  "write_serial c s = (case serial_wait s of
      None \<Rightarrow> Inl (Endless, s)
    | Some s' \<Rightarrow> Inr ((), outb COM1 c s'))"

section \<open>Printing\<close>

definition InitializeTerminal ::
    "addr \<Rightarrow> i32 \<Rightarrow> i32 \<Rightarrow> i32 \<Rightarrow> 'z console_scheme \<Rightarrow> 'z console_scheme" where
  "InitializeTerminal framebuffer_ptr width height pitch s =
     (emit (FtInit framebuffer_ptr width height pitch) s)\<lparr>fbSetup := True\<rparr>"

definition putchar :: "u8 \<Rightarrow> 'z console_scheme \<Rightarrow> (unit, 'z console_scheme) res" where
  "putchar c s =
     bindR (if c = 10 then write_serial 13 s else Inr ((), s)) (\<lambda>_ s.
     bindR (write_serial c s) (\<lambda>_ s.
     Inr ((), if fbSetup s then emit (FtWrite c) s else s)))"

text \<open>\<open>print\<close> gets the bytes of its string, up to the terminating zero.\<close>

fun print :: "u8 list \<Rightarrow> 'z console_scheme \<Rightarrow> (unit, 'z console_scheme) res" where
  "print [] s = Inr ((), s)"
| "print (c # cs) s = bindR (putchar c s) (\<lambda>_ s. print cs s)"

text \<open>\<open>lprint\<close> reads the string from memory, at most \<open>n\<close> bytes of it.\<close>

function lprint_loop :: "addr \<Rightarrow> int \<Rightarrow> nat \<Rightarrow> 'z console_scheme \<Rightarrow> (unit, 'z console_scheme) res" where
  "lprint_loop str n i s =
     (if int i < n
      then if mem s (str + of_nat i) = 0 then Inr ((), s)
           else bindR (putchar (mem s (str + of_nat i)) s) (\<lambda>_ s. lprint_loop str n (Suc i) s)
      else Inr ((), s))"
  by pat_completeness auto
termination
  by (relation "measure (\<lambda>(str, n, i, s). nat (n - int i))") auto

definition lprint :: "addr \<Rightarrow> int \<Rightarrow> 'z console_scheme \<Rightarrow> (unit, 'z console_scheme) res" where
  "lprint str n s = lprint_loop str n 0 s"

text \<open>
  A variadic argument is a 64-bit slot or points to a string. \<open>%d\<close> and \<open>%c\<close> read the low
  32 bits, \<open>%x\<close> all of them. A missing argument, and a \<open>%\<close> right before the end of the
  format (after which the loop steps over the terminator), have no meaning in C.
\<close>

datatype vararg = Num u64 | Str "u8 list"

fun printf :: "u8 list \<Rightarrow> vararg list \<Rightarrow> 'z console_scheme \<Rightarrow> (unit, 'z console_scheme) res" where
  "printf [] args s = Inr ((), s)"
| "printf (f # format) args s =
     (if f = of_char (CHR ''%'')
      then (case format of
          [] \<Rightarrow> Inl (Undefined, s)
        | g # format' \<Rightarrow>
            if g = of_char (CHR ''d'') then
              (case args of Num v # args' \<Rightarrow>
                 bindR (print (c_string (itoa (replicate 64 0) (sint (ucast v :: i32))) 0) s)
                   (\<lambda>_ s. printf format' args' s)
               | _ \<Rightarrow> Inl (Undefined, s))
            else if g = of_char (CHR ''s'') then
              (case args of Str v # args' \<Rightarrow> bindR (print v s) (\<lambda>_ s. printf format' args' s)
               | _ \<Rightarrow> Inl (Undefined, s))
            else if g = of_char (CHR ''x'') then
              (case args of Num v # args' \<Rightarrow>
                 bindR (print ((\<lambda>(buf, ptr). c_string buf ptr) (hexToString (replicate 128 0) v)) s)
                   (\<lambda>_ s. printf format' args' s)
               | _ \<Rightarrow> Inl (Undefined, s))
            else if g = of_char (CHR ''c'') then
              (case args of Num v # args' \<Rightarrow> bindR (putchar (ucast v) s) (\<lambda>_ s. printf format' args' s)
               | _ \<Rightarrow> Inl (Undefined, s))
            else printf format' args s)
      else bindR (putchar f s) (\<lambda>_ s. printf format args s))"

text \<open>A string literal of the source, as bytes, and a call of \<open>printf\<close> on one.\<close>

abbreviation lit :: "string \<Rightarrow> u8 list" where
  "lit \<equiv> map of_char"

abbreviation newline :: string where
  "newline \<equiv> [CHR 0x0A]"

section \<open>Panic and soft errors\<close>

definition panic_text :: "u8 list \<Rightarrow> (u8 list \<times> vararg list) list" where
  "panic_text customStr =
    [(lit (newline @ newline @ replicate 70 (CHR ''-'') @ newline), []),
     (lit (''KERNEL PANIC'' @ newline), []),
     (lit (''A serious error has been encountered in the kernel (kernel panic).'' @ newline @
           ''Debug string: %s''), [Str customStr]),
     (lit (newline @ newline @ newline @ newline), []),
     (lit (''System halt.'' @ newline), []),
     (lit (replicate 70 (CHR ''-'')), [])]"

fun printfs :: "(u8 list \<times> vararg list) list \<Rightarrow> 'z console_scheme \<Rightarrow> (unit, 'z console_scheme) res" where
  "printfs [] s = Inr ((), s)"
| "printfs ((f, args) # fs) s = bindR (printf f args s) (\<lambda>_ s. printfs fs s)"

text \<open>\<open>panic\<close> prints, disables interrupts and halts for ever: it never returns.\<close>

definition panic :: "string \<Rightarrow> 'z console_scheme \<Rightarrow> ('a, 'z console_scheme) res" where
  "panic customStr s =
     bindR (printfs (panic_text (lit customStr)) s) (\<lambda>_ s. Inl (Panicked customStr, emit Hlt (emit Cli s)))"

definition KernelSoftError :: "string \<Rightarrow> 'z console_scheme \<Rightarrow> (unit, 'z console_scheme) res" where
  "KernelSoftError error s =
     printfs
      [(lit (replicate 46 (CHR ''!'') @ newline), []),
       (lit (''Soft error occured in kernel: %s'' @ newline), [Str (lit error)]),
       (lit (replicate 46 (CHR ''!'') @ newline @ newline @ newline), [])] s"

declare lprint_loop.simps [simp del]

section \<open>What reaches the outside\<close>

text \<open>The bytes a trace sends to the serial port, and those it shows on the terminal.\<close>

definition sent :: "event list \<Rightarrow> u8 list" where
  "sent es = concat (map (\<lambda>e. case e of OutB p b \<Rightarrow> if p = COM1 then [b] else [] | _ \<Rightarrow> []) es)"

definition shown :: "event list \<Rightarrow> u8 list" where
  "shown es = concat (map (\<lambda>e. case e of FtWrite c \<Rightarrow> [c] | _ \<Rightarrow> []) es)"

text \<open>A line feed is preceded by a carriage return on the serial line.\<close>

definition crlf :: "u8 list \<Rightarrow> u8 list" where
  "crlf cs = concat (map (\<lambda>c. if c = 10 then [13, 10] else [c]) cs)"

text \<open>The transmitter is always ready: bit 5 of the line status reads as one.\<close>

definition serial_ready :: "'z machine_scheme \<Rightarrow> bool" where
  "serial_ready s \<longleftrightarrow> (\<forall>t. (ucast (device s t 0x3FD) :: u8) AND 0x20 \<noteq> 0)"

text \<open>
  \<open>outputs s r cs\<close>: the operation returns, changes nothing but the trace, and what it adds to
  the trace sends \<open>cs\<close> over the serial line and shows \<open>cs\<close> on a terminal that is set up.
\<close>

definition outputs :: "'z console_scheme \<Rightarrow> (unit, 'z console_scheme) res \<Rightarrow> u8 list \<Rightarrow> bool" where
  "outputs s r cs \<longleftrightarrow> (\<exists>es. r = Inr ((), s\<lparr>trace := trace s @ es\<rparr>) \<and>
     sent es = crlf cs \<and> shown es = (if fbSetup s then cs else []))"

lemma sent_simps [simp]:
  "sent [] = []" "sent (es @ fs) = sent es @ sent fs" "sent (OutB p b # es) = (if p = COM1 then b # sent es else sent es)"
  "sent (InB p b # es) = sent es" "sent (FtWrite b # es) = sent es"
  "shown [] = []" "shown (es @ fs) = shown es @ shown fs" "shown (OutB p b # es) = shown es"
  "shown (InB p b # es) = shown es" "shown (FtWrite b # es) = b # shown es"
  "crlf [] = []" "crlf (cs @ ds) = crlf cs @ crlf ds" "crlf (c # cs) = (if c = 10 then 13 # 10 # crlf cs else c # crlf cs)"
  by (simp_all add: sent_def shown_def crlf_def)

lemma serial_ready_trace [simp]: "serial_ready (s\<lparr>trace := t\<rparr>) = serial_ready s"
  by (simp add: serial_ready_def)

lemma outputsE:
  assumes "outputs s r cs"
  obtains es where "r = Inr ((), s\<lparr>trace := trace s @ es\<rparr>)" "sent es = crlf cs"
    "shown es = (if fbSetup s then cs else [])"
  using assms by (auto simp: outputs_def)

lemma outputs_nothing [simp]: "outputs s (Inr ((), s)) []"
  unfolding outputs_def by (rule exI [of _ "[]"]) simp

lemma outputs_bind:
  assumes "outputs s r cs"
    and "\<And>t. outputs (s\<lparr>trace := t\<rparr>) (f () (s\<lparr>trace := t\<rparr>)) ds"
  shows "outputs s (bindR r f) (cs @ ds)"
proof -
  from assms(1) obtain es where r: "r = Inr ((), s\<lparr>trace := trace s @ es\<rparr>)"
    and es: "sent es = crlf cs" "shown es = (if fbSetup s then cs else [])"
    by (rule outputsE)
  from assms(2) [of "trace s @ es"] obtain fs where
    "f () (s\<lparr>trace := trace s @ es\<rparr>) = Inr ((), s\<lparr>trace := (trace s @ es) @ fs\<rparr>)"
    "sent fs = crlf ds" "shown fs = (if fbSetup s then ds else [])"
    by (auto elim: outputsE)
  with r es show ?thesis
    unfolding outputs_def by (intro exI [of _ "es @ fs"]) simp
qed

lemma write_serial_ready:
  assumes "serial_ready s"
  shows "\<exists>v. write_serial c s = Inr ((), s\<lparr>trace := trace s @ [InB (COM1 + 5) v, OutB COM1 c]\<rparr>)"
proof -
  let ?v = "ucast (device s (trace s) (COM1 + 5)) :: u8"
  have "?v AND 0x20 \<noteq> 0" using assms by (simp add: serial_ready_def COM1_def)
  then have "serial_wait s = Some (emit (InB (COM1 + 5) ?v) s)"
    by (subst serial_wait.simps) (simp add: is_transmit_empty_def inb_def Let_def)
  then show ?thesis by (auto simp: write_serial_def outb_def emit_def)
qed

lemma outputs_putchar:
  assumes "serial_ready s"
  shows "outputs s (putchar c s) [c]"
proof -
  obtain v where v: "write_serial 13 s = Inr ((), s\<lparr>trace := trace s @ [InB (COM1 + 5) v, OutB COM1 13]\<rparr>)"
    using write_serial_ready [OF assms] by blast
  have ready: "\<exists>w. write_serial c (s\<lparr>trace := t\<rparr>) = Inr ((), s\<lparr>trace := t @ [InB (COM1 + 5) w, OutB COM1 c]\<rparr>)" for t
    using write_serial_ready [of "s\<lparr>trace := t\<rparr>" c] assms by simp
  show ?thesis
  proof (cases "c = 10")
    case True
    with ready [of "trace s @ [InB (COM1 + 5) v, OutB COM1 13]"] v show ?thesis
      by (auto simp: putchar_def outputs_def emit_def)
  next
    case False
    with ready [of "trace s"] show ?thesis
      by (auto simp: putchar_def outputs_def emit_def)
  qed
qed

lemma outputs_Cons:
  assumes "serial_ready s" and "\<And>t. outputs (s\<lparr>trace := t\<rparr>) (f () (s\<lparr>trace := t\<rparr>)) cs"
  shows "outputs s (bindR (putchar c s) f) (c # cs)"
  using outputs_bind [of s "putchar c s" "[c]" f cs] outputs_putchar [OF assms(1)] assms(2) by simp

lemma outputs_print: "serial_ready s \<Longrightarrow> outputs s (print cs s) cs"
  by (induction cs arbitrary: s) (auto intro: outputs_Cons)

text \<open>The reference for \<open>printf\<close>: the text a format and its arguments denote.\<close>

fun render :: "u8 list \<Rightarrow> vararg list \<Rightarrow> u8 list option" where
  "render [] args = Some []"
| "render (f # format) args =
     (if f \<noteq> of_char (CHR ''%'') then map_option (Cons f) (render format args)
      else case format of [] \<Rightarrow> None | g # rest \<Rightarrow>
        if g = of_char (CHR ''d'') then
          (case args of Num v # args' \<Rightarrow>
             map_option (append (let n = sint (ucast v :: i32) in signed_digits (if n < 0 then -1 else 1) (nat \<bar>n\<bar>)))
               (render rest args') | _ \<Rightarrow> None)
        else if g = of_char (CHR ''s'') then
          (case args of Str v # args' \<Rightarrow> map_option (append v) (render rest args') | _ \<Rightarrow> None)
        else if g = of_char (CHR ''x'') then
          (case args of Num v # args' \<Rightarrow>
             map_option (append (hex_text v)) (render rest args') | _ \<Rightarrow> None)
        else if g = of_char (CHR ''c'') then
          (case args of Num v # args' \<Rightarrow> map_option (Cons (ucast v)) (render rest args') | _ \<Rightarrow> None)
        else render rest args)"

lemma printed_int:
  "c_string (itoa (replicate 64 0) (sint (w :: i32))) 0 =
     signed_digits (if sint w < 0 then -1 else 1) (nat \<bar>sint w\<bar>)"
proof -
  have "sint w < 2 ^ 31" "- (2 ^ 31) \<le> sint w"
    using sint_lt [of w] sint_ge [of w] by simp_all
  then have "nat \<bar>sint w\<bar> \<le> 2 ^ 31" by auto
  with itoa_c_string [of "if sint w < 0 then -1 else 1" "nat \<bar>sint w\<bar>" "replicate 64 0"] show ?thesis
    by (auto split: if_splits)
qed

lemma printf_outputs:
  "serial_ready s \<Longrightarrow> render format args = Some out \<Longrightarrow> outputs s (printf format args s) out"
proof (induction "length format" arbitrary: format args s out rule: less_induct)
  case less
  show ?case
  proof (cases format)
    case Nil
    with less.prems show ?thesis by simp
  next
    case (Cons f fs)
    have IH: "outputs (s\<lparr>trace := t\<rparr>) (printf rest as (s\<lparr>trace := t\<rparr>)) o'"
      if "length rest < length format" "render rest as = Some o'" for rest as o' t
      by (rule less.hyps) (use that less.prems(1) in simp_all)
    show ?thesis
    proof (cases "f = of_char (CHR ''%'')")
      case False
      with Cons less.prems IH [of fs] show ?thesis by (auto intro!: outputs_Cons)
    next
      case True
      with Cons less.prems obtain g rest where fs: "fs = g # rest" by (auto split: list.splits)
      note now = Cons True fs less.prems
      note IH' = IH [of rest, simplified Cons fs, simplified]
      note out = outputs_bind [OF outputs_print [OF less.prems(1)]]
      consider (d) "g = of_char (CHR ''d'')" | (s) "g = of_char (CHR ''s'')"
        | (x) "g = of_char (CHR ''x'')" | (c) "g = of_char (CHR ''c'')"
        | (other) "g \<noteq> of_char (CHR ''d'')" "g \<noteq> of_char (CHR ''s'')"
            "g \<noteq> of_char (CHR ''x'')" "g \<noteq> of_char (CHR ''c'')" by blast
      then show ?thesis
      proof cases
        case d
        with now show ?thesis
          by (auto simp: printed_int Let_def split: list.splits vararg.splits intro!: out IH')
      next
        case s
        with now show ?thesis by (auto split: list.splits vararg.splits intro!: out IH')
      next
        case x
        with now show ?thesis
          by (auto simp: hexToString_c_string split: list.splits vararg.splits intro!: out IH')
      next
        case c
        with now show ?thesis by (auto split: list.splits vararg.splits intro!: outputs_Cons IH')
      next
        case other
        with now IH' [of args out "trace s"] show ?thesis by (simp add: fs)
      qed
    qed
  qed
qed

text \<open>On a ready serial line a message that can be rendered is printed and changes the trace only.\<close>

lemma printf_returns:
  assumes "serial_ready s" and "render f args = Some out"
  shows "\<exists>es. printf f args s = Inr ((), s\<lparr>trace := trace s @ es\<rparr>)"
  using printf_outputs [OF assms] unfolding outputs_def by blast

text \<open>A sequence of calls prints the concatenation of their texts.\<close>

fun renders :: "(u8 list \<times> vararg list) list \<Rightarrow> u8 list option" where
  "renders [] = Some []"
| "renders ((f, args) # fs) =
     (case render f args of None \<Rightarrow> None | Some out \<Rightarrow> map_option (append out) (renders fs))"

lemma printfs_outputs:
  "serial_ready s \<Longrightarrow> renders fs = Some out \<Longrightarrow> outputs s (printfs fs s) out"
proof (induction fs arbitrary: s out)
  case Nil
  then show ?case by simp
next
  case (Cons f fs)
  obtain format args where f: "f = (format, args)" by (cases f)
  from Cons.prems(2) f obtain o1 o2 where "render format args = Some o1" "renders fs = Some o2" "out = o1 @ o2"
    by (auto split: option.splits)
  with Cons f show ?case
    by (auto intro!: outputs_bind printf_outputs)
qed

lemma render_plain: "of_char (CHR ''%'') \<notin> set f \<Longrightarrow> render f args = Some f"
  by (induction f) auto

lemma panic_not_Inr [simp]: "panic msg s \<noteq> Inr x"
  by (auto simp: panic_def bindR_def split: sum.splits)

lemma panic_halts:
  assumes "serial_ready s"
  shows "\<exists>es. panic msg s = Inl (Panicked msg, s\<lparr>trace := trace s @ es @ [Cli, Hlt]\<rparr>) \<and>
    Some (sent es) = map_option crlf (renders (panic_text (lit msg)))"
proof -
  obtain out where out: "renders (panic_text (lit msg)) = Some out"
    by (simp add: panic_text_def render_plain)
  from printfs_outputs [OF assms out] obtain es where
    "printfs (panic_text (lit msg)) s = Inr ((), s\<lparr>trace := trace s @ es\<rparr>)" "sent es = crlf out"
    by (auto elim: outputsE)
  with out show ?thesis by (auto simp: panic_def emit_def)
qed

section \<open>Properties\<close>



end
