(* ===== verification/Allocator.thy ===== *)
theory Allocator
  imports Console
begin

text \<open>
  The page frame allocator, \<open>mm/allocator/allocator.c\<close>. Its table \<open>FrameList\<close> lives at the
  start of the largest usable memory region and is part of memory: entry \<open>i\<close> is the 16-byte
  \<open>struct Page\<close> at \<open>FrameList + 16 * i\<close>, the pointer in its first eight bytes and the flag
  \<open>free\<close> in the lowest bit of the ninth.
\<close>

section \<open>State\<close>

record limine_memmap_entry =
  me_base :: u64
  me_length :: u64
  me_type :: u64

text \<open>A memory map response: its \<open>entry_count\<close> entries in order.\<close>

type_synonym limine_memmap_response = "limine_memmap_entry list"

definition LIMINE_MEMMAP_USABLE :: u64 where "LIMINE_MEMMAP_USABLE = 0"

record allocator = console +
  FrameList :: addr
  LargestMemSegSize :: u64

definition page_at :: "addr \<Rightarrow> u64 \<Rightarrow> addr" where
  "page_at fl i = fl + 16 * i"

definition page_ptr :: "memory \<Rightarrow> addr \<Rightarrow> u64 \<Rightarrow> addr" where
  "page_ptr m fl i = load64 m (page_at fl i)"

definition page_free :: "memory \<Rightarrow> addr \<Rightarrow> u64 \<Rightarrow> bool" where
  "page_free m fl i \<longleftrightarrow> bit (m (page_at fl i + 8)) 0"

text \<open>Writing the one-bit field keeps the other bits of its byte.\<close>

definition set_free :: "memory \<Rightarrow> addr \<Rightarrow> u64 \<Rightarrow> bool \<Rightarrow> memory" where
  "set_free m fl i b =
     m(page_at fl i + 8 :=
         (if b then m (page_at fl i + 8) OR 1 else m (page_at fl i + 8) AND NOT 1))"

section \<open>Operations\<close>

fun largest_usable :: "limine_memmap_entry list \<Rightarrow> u64 \<Rightarrow> limine_memmap_entry \<Rightarrow> limine_memmap_entry" where
  "largest_usable [] largestEntryLength largestEntry = largestEntry"
| "largest_usable (e # es) largestEntryLength largestEntry =
     (if me_type e = LIMINE_MEMMAP_USABLE \<and> largestEntryLength < me_length e
      then largest_usable es (me_length e) e
      else largest_usable es largestEntryLength largestEntry)"

function init_frames :: "addr \<Rightarrow> u64 \<Rightarrow> u64 \<Rightarrow> addr \<Rightarrow> memory \<Rightarrow> memory" where
  "init_frames fl n i nextAddr m =
     (if i < n
      then init_frames fl n (i + 1) (nextAddr + 0x1000)
             ((store64 m (page_at fl i) nextAddr)(page_at fl i + 8 := 1))
      else m)"
  by pat_completeness auto
termination
  by (relation "measure (\<lambda>(fl, n, i, a, m). unat n - unat i)") (auto intro: count_up_decreases)

definition InitializeAllocator ::
    "limine_memmap_response \<Rightarrow> 'z allocator_scheme \<Rightarrow> (unit, 'z allocator_scheme) res" where
  "InitializeAllocator mmap s =
     (let largestEntry = largest_usable mmap 0 \<lparr>me_base = 0, me_length = 0, me_type = 0\<rparr> in
      if me_length largestEntry = 0 then panic ''Detected no free memory!'' s
      else
        let fl = me_base largestEntry;
            nextAddr = ALIGN_UP (me_base largestEntry + 16 * (me_length largestEntry div 0x1000)) 0x1000;
            m = init_frames fl (me_length largestEntry div 0x1000) 0 nextAddr (mem s)
        in Inr ((), s\<lparr>FrameList := fl, mem := m, LargestMemSegSize := me_length largestEntry\<rparr>))"

function PageAlloc_loop :: "addr \<Rightarrow> u64 \<Rightarrow> u64 \<Rightarrow> memory \<Rightarrow> (addr \<times> memory) option" where
  "PageAlloc_loop fl n i m =
     (if i < n
      then if page_free m fl i
           then let m1 = set_free m fl i False;
                    m2 = memset m1 (page_ptr m1 fl i) 0 0x1000
                in Some (page_ptr m2 fl i, m2)
           else PageAlloc_loop fl n (i + 1) m
      else None)"
  by pat_completeness auto
termination
  by (relation "measure (\<lambda>(fl, n, i, m). unat n - unat i)") (auto intro: count_up_decreases)

text \<open>\<open>panic\<close> does not return, so neither does the \<open>return NULL\<close> after it.\<close>

definition PageAlloc :: "'z allocator_scheme \<Rightarrow> (addr, 'z allocator_scheme) res" where
  "PageAlloc s =
     (case PageAlloc_loop (FrameList s) (LargestMemSegSize s div 0x1000) 0 (mem s) of
        Some (p, m) \<Rightarrow> Inr (p, s\<lparr>mem := m\<rparr>)
      | None \<Rightarrow> panic ''No free mem left!'' s)"

function PageFree_loop :: "addr \<Rightarrow> u64 \<Rightarrow> addr \<Rightarrow> u64 \<Rightarrow> memory \<Rightarrow> memory" where
  "PageFree_loop fl n a i m =
     (if i < n
      then PageFree_loop fl n a (i + 1) (if page_ptr m fl i = a then set_free m fl i True else m)
      else m)"
  by pat_completeness auto
termination
  by (relation "measure (\<lambda>(fl, n, a, i, m). unat n - unat i)") (auto intro: count_up_decreases)

definition PageFree :: "addr \<Rightarrow> 'z allocator_scheme \<Rightarrow> 'z allocator_scheme" where
  "PageFree a s = s\<lparr>mem := PageFree_loop (FrameList s) (LargestMemSegSize s div 0x1000) a 0 (mem s)\<rparr>"

declare init_frames.simps [simp del] PageAlloc_loop.simps [simp del] PageFree_loop.simps [simp del]

section \<open>The table as a list\<close>

text \<open>
  The abstract state: for each entry of the table, its page and whether the page is free.
\<close>

definition frames :: "memory \<Rightarrow> addr \<Rightarrow> nat \<Rightarrow> (addr \<times> bool) list" where
  "frames m fl n = map (\<lambda>k. (page_ptr m fl (of_nat k), page_free m fl (of_nat k))) [0..<n]"

text \<open>
  A well-formed table of \<open>n\<close> entries: it does not wrap around the address space, its pages
  are distinct, aligned and not null, and none of them overlaps the table.
\<close>

definition page_ok :: "addr \<Rightarrow> bool" where
  "page_ok p \<longleftrightarrow> p \<noteq> 0 \<and> unat p mod 4096 = 0"

definition table_ok :: "addr \<Rightarrow> (addr \<times> bool) list \<Rightarrow> bool" where
  "table_ok fl xs \<longleftrightarrow> unat fl + 16 * length xs \<le> 2 ^ 64 \<and> distinct (map fst xs) \<and>
     (\<forall>p \<in> fst ` set xs. page_ok p \<and> bytes p 4096 \<inter> bytes fl (16 * length xs) = {})"

text \<open>The abstract allocation: the first free entry, if there is one.\<close>

fun first_free :: "(addr \<times> bool) list \<Rightarrow> nat option" where
  "first_free [] = None"
| "first_free ((p, f) # xs) = (if f then Some 0 else map_option Suc (first_free xs))"

definition free_page :: "addr \<Rightarrow> (addr \<times> bool) list \<Rightarrow> (addr \<times> bool) list" where
  "free_page a xs = map (\<lambda>(p, f). (p, f \<or> p = a)) xs"

lemma length_frames [simp]: "length (frames m fl n) = n"
  by (simp add: frames_def)

lemma frames_nth:
  "k < n \<Longrightarrow> frames m fl n ! k = (page_ptr m fl (of_nat k), page_free m fl (of_nat k))"
  by (simp add: frames_def)

lemma page_bound: "page_ok p \<Longrightarrow> unat p + 4096 \<le> 2 ^ 64"
proof -
  assume "page_ok p"
  then have "4096 dvd unat p" by (simp add: page_ok_def mod_eq_0_iff_dvd)
  then obtain q where q: "unat p = 4096 * q" by (auto elim: dvdE)
  have "unat p < 2 ^ 64" using unsigned_less [of p] by simp
  with q show ?thesis by simp
qed

lemma pages_disjoint:
  assumes "page_ok p" and "page_ok q" and "p \<noteq> q"
  shows "bytes p 4096 \<inter> bytes q 4096 = {}"
proof -
  from assms(1,2) obtain a b where ab: "unat p = 4096 * a" "unat q = 4096 * b"
    unfolding page_ok_def by (metis dvdE mod_eq_0_iff_dvd)
  with assms(3) have "a \<noteq> b" by (metis word_unat_eq_iff)
  then have "unat p + 4096 \<le> unat q \<or> unat q + 4096 \<le> unat p" unfolding ab by linarith
  with bytes_disjoint [of p 4096 q 4096] bytes_disjoint [of q 4096 p 4096]
    page_bound [OF assms(1)] page_bound [OF assms(2)]
  show ?thesis by (auto simp: Int_commute)
qed

section \<open>Reading and writing the table\<close>

lemma page_at_of_nat: "page_at fl (of_nat k) = fl + of_nat (16 * k)"
  by (simp add: page_at_def)

lemma entry_in_table:
  assumes "k < n" and "16 * n \<le> 2 ^ 64"
  shows "bytes (page_at fl (of_nat k)) 16 \<subseteq> bytes fl (16 * n)"
  unfolding page_at_of_nat by (rule subrange) (use assms in auto)

lemma flag_in_table:
  assumes "k < n" and "16 * n \<le> 2 ^ 64"
  shows "page_at fl (of_nat k) + 8 \<in> bytes fl (16 * n)"
proof -
  have "fl + of_nat (16 * k + 8) \<in> bytes fl (16 * n)"
    by (rule offset_in_bytes) (use assms in auto)
  then show ?thesis by (simp add: page_at_of_nat add.assoc)
qed

lemma flag_eq_iff:
  assumes "k < n" and "j < n" and "16 * n \<le> 2 ^ 64"
  shows "page_at fl (of_nat k) + 8 = page_at fl (of_nat j) + 8 \<longleftrightarrow> k = j"
proof
  assume "page_at fl (of_nat k) + 8 = page_at fl (of_nat j) + 8"
  then have "(of_nat (16 * k) :: u64) = of_nat (16 * j)" by (simp add: page_at_def)
  then have "unat (of_nat (16 * k) :: u64) = unat (of_nat (16 * j) :: u64)" by (rule arg_cong)
  moreover have "unat (of_nat (16 * k) :: u64) = 16 * k" "unat (of_nat (16 * j) :: u64) = 16 * j"
    using assms by (intro unat_of_nat64; simp)+
  ultimately show "k = j" by simp
qed simp

lemma flag_not_in_ptr:
  assumes "k < n" and "j < n" and "16 * n \<le> 2 ^ 64"
  shows "page_at fl (of_nat k) + 8 \<notin> bytes (page_at fl (of_nat j)) 8"
proof
  assume "page_at fl (of_nat k) + 8 \<in> bytes (page_at fl (of_nat j)) 8"
  then obtain i where i: "i < 8" "fl + of_nat (16 * k) + 8 = fl + of_nat (16 * j) + of_nat i"
    unfolding page_at_of_nat by (rule bytesE)
  then have "(of_nat (16 * k + 8) :: u64) = of_nat (16 * j + i)" by (simp add: algebra_simps)
  then have "unat (of_nat (16 * k + 8) :: u64) = unat (of_nat (16 * j + i) :: u64)" by (rule arg_cong)
  moreover have "unat (of_nat (16 * k + 8) :: u64) = 16 * k + 8" "unat (of_nat (16 * j + i) :: u64) = 16 * j + i"
    using assms i(1) by (intro unat_of_nat64; simp)+
  ultimately have "16 * k + 8 = 16 * j + i" by simp
  with i(1) show False by presburger
qed

text \<open>The table depends on its own bytes only.\<close>

lemma frames_cong:
  assumes "\<And>x. x \<in> bytes fl (16 * n) \<Longrightarrow> m' x = m x" and "16 * n \<le> 2 ^ 64"
  shows "frames m' fl n = frames m fl n"
proof -
  have "page_ptr m' fl (of_nat k) = page_ptr m fl (of_nat k)" if "k < n" for k
    unfolding page_ptr_def
    by (rule load_le_cong) (use assms that entry_in_table [of k n fl] bytes_mono [of 8 16] in auto)
  moreover have "page_free m' fl (of_nat k) = page_free m fl (of_nat k)" if "k < n" for k
    unfolding page_free_def using assms that by (simp add: flag_in_table)
  ultimately show ?thesis by (simp add: frames_def)
qed

lemma bit_free_byte [simp]: "bit ((b :: u8) OR 1) 0" "\<not> bit ((b :: u8) AND - 2) 0"
  by (simp_all add: bit_simps)

lemma page_ptr_set_free:
  assumes "k < n" and "j < n" and "16 * n \<le> 2 ^ 64"
  shows "page_ptr (set_free m fl (of_nat k) b) fl (of_nat j) = page_ptr m fl (of_nat j)"
  unfolding page_ptr_def set_free_def
  by (rule load_le_cong) (use flag_not_in_ptr [OF assms] in auto)

lemma frames_set_free:
  assumes "k < n" and "16 * n \<le> 2 ^ 64"
  shows "frames (set_free m fl (of_nat k) b) fl n =
    (frames m fl n)[k := (page_ptr m fl (of_nat k), b)]"
proof (rule nth_equalityI)
  fix j assume "j < length (frames (set_free m fl (of_nat k) b) fl n)"
  then have j: "j < n" by simp
  have "page_free (set_free m fl (of_nat k) b) fl (of_nat j) =
      (if j = k then b else page_free m fl (of_nat j))"
    using flag_eq_iff [OF assms(1) j assms(2), of fl]
    by (auto simp: page_free_def set_free_def)
  with assms j show "frames (set_free m fl (of_nat k) b) fl n ! j =
      (frames m fl n)[k := (page_ptr m fl (of_nat k), b)] ! j"
    by (simp add: frames_nth nth_list_update page_ptr_set_free)
qed simp

lemma set_free_outside:
  assumes "k < n" and "16 * n \<le> 2 ^ 64" and "x \<notin> bytes fl (16 * n)"
  shows "set_free m fl (of_nat k) b x = m x"
proof -
  have "x \<noteq> page_at fl (of_nat k) + 8" using flag_in_table [OF assms(1,2)] assms(3) by metis
  then show ?thesis by (simp add: set_free_def)
qed

lemma table_okD:
  assumes "table_ok fl xs" and "p \<in> fst ` set xs"
  shows "page_ok p" and "bytes p 4096 \<inter> bytes fl (16 * length xs) = {}"
  using assms unfolding table_ok_def by (blast dest: bspec)+

lemma table_ok_update:
  "table_ok fl xs \<Longrightarrow> k < length xs \<Longrightarrow> fst (xs ! k) = p \<Longrightarrow> table_ok fl (xs[k := (p, b)])"
proof -
  assume a: "table_ok fl xs" "k < length xs" "fst (xs ! k) = p"
  then have "map fst (xs[k := (p, b)]) = map fst xs"
    by (simp add: map_update list_update_same_conv)
  moreover from this have "fst ` set (xs[k := (p, b)]) = fst ` set xs" by (metis set_map)
  ultimately show ?thesis using a by (simp add: table_ok_def)
qed

section \<open>Allocation and release refine the list\<close>

lemma first_free_Some:
  "first_free xs = Some k \<Longrightarrow> k < length xs \<and> snd (xs ! k) \<and> (\<forall>j < k. \<not> snd (xs ! j))"
proof (induction xs arbitrary: k)
  case (Cons x xs)
  then show ?case by (cases x) (auto split: if_splits simp: less_Suc_eq_0_disj)
qed simp

lemma first_free_None: "first_free xs = None \<longleftrightarrow> (\<forall>x \<in> set xs. \<not> snd x)"
  by (induction xs rule: first_free.induct) auto

lemma PageAlloc_loop_frames:
  assumes "table_ok fl (frames m fl (unat n))" and "unat i \<le> unat n"
  shows "PageAlloc_loop fl n i m =
    (case first_free (drop (unat i) (frames m fl (unat n))) of None \<Rightarrow> None
     | Some k \<Rightarrow> let j = unat i + k; p = fst (frames m fl (unat n) ! j)
        in Some (p, memset (set_free m fl (of_nat j) False) p 0 0x1000))"
  using assms
proof (induction fl n i m rule: PageAlloc_loop.induct)
  case (1 fl n i m)
  let ?xs = "frames m fl (unat n)"
  show ?case
  proof (cases "i < n")
    case False
    with "1.prems"(2) have "unat i = unat n" by (simp add: word_less_nat_alt)
    with False show ?thesis by (simp add: PageAlloc_loop.simps [of fl n i])
  next
    case True
    then have i: "unat i < unat n" by (simp add: word_less_nat_alt)
    have drop_i: "drop (unat i) ?xs = ?xs ! unat i # drop (Suc (unat i)) ?xs"
      using i by (simp add: Cons_nth_drop_Suc)
    have nth_i: "?xs ! unat i = (page_ptr m fl i, page_free m fl i)"
      using i by (simp add: frames_nth)
    show ?thesis
    proof (cases "page_free m fl i")
      case False
      have "PageAlloc_loop fl n i m = PageAlloc_loop fl n (i + 1) m"
        using True False by (simp add: PageAlloc_loop.simps [of fl n i])
      also have "\<dots> = (case first_free (drop (unat (i + 1)) ?xs) of None \<Rightarrow> None
         | Some k \<Rightarrow> let j = unat (i + 1) + k; p = fst (?xs ! j)
            in Some (p, memset (set_free m fl (of_nat j) False) p 0 0x1000))"
        by (rule "1.IH" [OF True False "1.prems"(1)])
          (use i True in \<open>simp add: unat_Suc_below\<close>)
      finally show ?thesis
        using False True drop_i nth_i by (auto simp: unat_Suc_below add.left_commute split: option.splits)
    next
      case free: True
      have sz: "16 * unat n \<le> 2 ^ 64" using "1.prems"(1) by (simp add: table_ok_def)
      let ?m1 = "set_free m fl i False" and ?p = "page_ptr m fl i"
      have p1: "page_ptr ?m1 fl i = ?p"
        using page_ptr_set_free [OF i i sz, of m fl False] by simp
      have "?p \<in> fst ` set ?xs" using nth_i i by (metis fst_conv image_eqI length_frames nth_mem)
      with table_okD [OF "1.prems"(1)] have "bytes ?p 4096 \<inter> bytes fl (16 * unat n) = {}"
        by simp
      with entry_in_table [OF i sz, of fl] bytes_mono [of 8 16 "page_at fl i"]
      have "bytes ?p (unat (0x1000 :: u64)) \<inter> bytes (page_at fl i) 8 = {}" by auto
      then have "page_ptr (memset ?m1 ?p 0 0x1000) fl i = ?p"
        using p1 unfolding page_ptr_def by (simp add: load_memset_outside)
      with free True p1 drop_i nth_i show ?thesis
        by (simp add: PageAlloc_loop.simps [of fl n i] Let_def)
    qed
  qed
qed

text \<open>The effect of one allocation on memory and table.\<close>

lemma alloc_effect:
  assumes ok: "table_ok fl (frames m fl n)" and k: "first_free (frames m fl n) = Some k"
  defines "p \<equiv> fst (frames m fl n ! k)"
  defines "m' \<equiv> memset (set_free m fl (of_nat k) False) p 0 0x1000"
  shows "frames m' fl n = (frames m fl n)[k := (p, False)]"
    and "x \<in> bytes p 4096 \<Longrightarrow> m' x = 0"
    and "x \<notin> bytes p 4096 \<Longrightarrow> x \<notin> bytes fl (16 * n) \<Longrightarrow> m' x = m x"
proof -
  have kn: "k < n" using first_free_Some [OF k] by simp
  have sz: "16 * n \<le> 2 ^ 64" using ok by (simp add: table_ok_def)
  have "p \<in> fst ` set (frames m fl n)" using kn by (simp add: p_def)
  then have disj: "bytes p 4096 \<inter> bytes fl (16 * n) = {}" using table_okD(2) [OF ok] by simp
  have p: "p = page_ptr m fl (of_nat k)" using kn by (simp add: p_def frames_nth)
  have "frames m' fl n = frames (set_free m fl (of_nat k) False) fl n"
  proof (rule frames_cong [OF _ sz])
    fix y assume "y \<in> bytes fl (16 * n)"
    with disj have "y \<notin> bytes p 4096" by (metis disjoint_iff)
    then show "m' y = set_free m fl (of_nat k) False y" by (simp add: m'_def memset_apply)
  qed
  with frames_set_free [OF kn sz] p show "frames m' fl n = (frames m fl n)[k := (p, False)]" by simp
  show "x \<in> bytes p 4096 \<Longrightarrow> m' x = 0" by (simp add: m'_def memset_apply)
  show "x \<notin> bytes p 4096 \<Longrightarrow> x \<notin> bytes fl (16 * n) \<Longrightarrow> m' x = m x"
    using set_free_outside [OF kn sz] by (simp add: m'_def memset_apply)
qed

text \<open>\<open>PageFree\<close> sets the flag of every entry that holds the page.\<close>

lemma PageFree_loop_frames:
  assumes "16 * unat n \<le> 2 ^ 64" and "unat i \<le> unat n"
  shows "frames (PageFree_loop fl n a i m) fl (unat n) =
      take (unat i) (frames m fl (unat n)) @ free_page a (drop (unat i) (frames m fl (unat n)))
    \<and> (\<forall>x. x \<notin> bytes fl (16 * unat n) \<longrightarrow> PageFree_loop fl n a i m x = m x)"
  using assms
proof (induction fl n a i m rule: PageFree_loop.induct)
  case (1 fl n a i m)
  let ?xs = "frames m fl (unat n)"
  show ?case
  proof (cases "i < n")
    case False
    with "1.prems"(2) have "unat i = unat n" by (simp add: word_less_nat_alt)
    with False show ?thesis by (simp add: PageFree_loop.simps [of fl n a i] free_page_def)
  next
    case True
    then have i: "unat i < unat n" by (simp add: word_less_nat_alt)
    let ?m = "if page_ptr m fl i = a then set_free m fl i True else m"
    have nth_i: "?xs ! unat i = (page_ptr m fl i, page_free m fl i)"
      using i by (simp add: frames_nth)
    have upd: "frames ?m fl (unat n) =
        ?xs[unat i := (page_ptr m fl i, page_free m fl i \<or> page_ptr m fl i = a)]"
      using frames_set_free [OF i "1.prems"(1), of m fl True] i nth_i
      by (cases "page_ptr m fl i = a") (simp_all, metis list_update_id)
    have out: "?m x = m x" if "x \<notin> bytes fl (16 * unat n)" for x
      using set_free_outside [OF i "1.prems"(1) that, of m True] by simp
    have "drop (unat i) ?xs = ?xs ! unat i # drop (Suc (unat i)) ?xs"
      using i by (simp add: Cons_nth_drop_Suc)
    moreover have "take (Suc (unat i)) (frames ?m fl (unat n)) =
        take (unat i) ?xs @ [(page_ptr m fl i, page_free m fl i \<or> page_ptr m fl i = a)]"
      using i by (simp add: upd take_Suc_conv_app_nth)
    moreover have "drop (Suc (unat i)) (frames ?m fl (unat n)) = drop (Suc (unat i)) ?xs"
      by (simp add: upd)
    ultimately show ?thesis
      using "1.IH" [OF True "1.prems"(1)] True i nth_i out
      by (simp add: PageFree_loop.simps [of fl n a i] unat_Suc_below free_page_def)
  qed
qed

section \<open>The interface of a page allocator\<close>

text \<open>
  What the clients of the allocator rely on. \<open>contents\<close> and \<open>with_mem\<close> read and replace the
  memory of a state, \<open>avail\<close> is the set of free pages, \<open>priv\<close> the bytes only the allocator
  may touch. An allocation takes a free page, clears it and changes nothing else outside
  \<open>priv\<close>; without a free page it does not return; a client may write anywhere but in \<open>priv\<close>.
\<close>

locale page_provider =
  fixes palloc :: "'s \<Rightarrow> (addr, 's) res"
    and pfree :: "addr \<Rightarrow> 's \<Rightarrow> 's"
    and contents :: "'s \<Rightarrow> memory"
    and with_mem :: "memory \<Rightarrow> 's \<Rightarrow> 's"
    and minv :: "'s \<Rightarrow> bool"
    and avail :: "'s \<Rightarrow> addr set"
    and priv :: "'s \<Rightarrow> addr set"
  assumes with_contents [simp]: "contents (with_mem m s) = m"
    and with_with [simp]: "with_mem m (with_mem m' s) = with_mem m s"
    and with_same [simp]: "with_mem (contents s) s = s"
    and avail_finite: "minv s \<Longrightarrow> finite (avail s)"
    and avail_page: "minv s \<Longrightarrow> p \<in> avail s \<Longrightarrow> page_ok p \<and> bytes p 4096 \<inter> priv s = {}"
    and alloc_returns: "minv s \<Longrightarrow> avail s \<noteq> {} \<Longrightarrow> \<exists>p s'. palloc s = Inr (p, s')"
    and alloc_effect: "minv s \<Longrightarrow> palloc s = Inr (p, s') \<Longrightarrow>
      p \<in> avail s \<and> s' = with_mem (contents s') s \<and> minv s' \<and> avail s' = avail s - {p} \<and> priv s' = priv s \<and>
      (\<forall>x \<in> bytes p 4096. contents s' x = 0) \<and>
      (\<forall>x. x \<notin> bytes p 4096 \<longrightarrow> x \<notin> priv s \<longrightarrow> contents s' x = contents s x)"
    and free_effect: "minv s \<Longrightarrow> p \<in> avail (pfree p s) \<or> avail (pfree p s) = avail s"
    and free_inv: "minv s \<Longrightarrow> minv (pfree p s) \<and> avail s \<subseteq> avail (pfree p s) \<and> priv (pfree p s) = priv s \<and>
      (\<forall>x. x \<notin> priv s \<longrightarrow> contents (pfree p s) x = contents s x)"
    and client_write: "minv s \<Longrightarrow> (\<And>x. x \<in> priv s \<Longrightarrow> m x = contents s x) \<Longrightarrow>
      minv (with_mem m s) \<and> avail (with_mem m s) = avail s \<and> priv (with_mem m s) = priv s"
begin

lemma alloc_takes: "minv s \<Longrightarrow> palloc s = Inr (p, s') \<Longrightarrow> p \<in> avail s"
  using alloc_effect by blast

lemma alloc_inv: "minv s \<Longrightarrow> palloc s = Inr (p, s') \<Longrightarrow> minv s' \<and> avail s' = avail s - {p} \<and> priv s' = priv s"
  using alloc_effect by blast

lemma alloc_only_if: "minv s \<Longrightarrow> avail s = {} \<Longrightarrow> \<not> (\<exists>p s'. palloc s = Inr (p, s'))"
  using alloc_takes by blast

text \<open>Allocating again and again, without a release in between.\<close>

primrec alloc_many :: "nat \<Rightarrow> 's \<Rightarrow> (addr list, 's) res" where
  "alloc_many 0 s = Inr ([], s)"
| "alloc_many (Suc n) s = bindR (palloc s) (\<lambda>p s. bindR (alloc_many n s) (\<lambda>ps s. Inr (p # ps, s)))"

lemma alloc_many_distinct:
  "minv s \<Longrightarrow> alloc_many n s = Inr (ps, s') \<Longrightarrow>
     length ps = n \<and> distinct ps \<and> set ps \<subseteq> avail s \<and> avail s' = avail s - set ps \<and> minv s' \<and> priv s' = priv s"
proof (induction n arbitrary: s ps)
  case 0
  then show ?case by simp
next
  case (Suc n)
  then obtain p s1 ps' where 1: "palloc s = Inr (p, s1)" "alloc_many n s1 = Inr (ps', s')" "ps = p # ps'"
    by (auto simp: bindR_Inr_iff)
  from alloc_inv [OF Suc.prems(1) 1(1)] have s1: "minv s1" "avail s1 = avail s - {p}" "priv s1 = priv s" by auto
  from Suc.IH [OF s1(1) 1(2)] s1 1(3) alloc_takes [OF Suc.prems(1) 1(1)] show ?case by auto
qed

lemma alloc_many_returns:
  "minv s \<Longrightarrow> n \<le> card (avail s) \<Longrightarrow> \<exists>ps s'. alloc_many n s = Inr (ps, s')"
proof (induction n arbitrary: s)
  case 0
  then show ?case by simp
next
  case (Suc n)
  then have "avail s \<noteq> {}" by auto
  with alloc_returns Suc.prems(1) obtain p s1 where p: "palloc s = Inr (p, s1)" by blast
  from alloc_inv [OF Suc.prems(1) p] have "minv s1" "avail s1 = avail s - {p}" by auto
  moreover have "n \<le> card (avail s - {p})"
    using Suc.prems alloc_takes [OF Suc.prems(1) p] avail_finite by (simp add: card_Diff_singleton)
  ultimately show ?case using Suc.IH [of s1] p by auto
qed

end

section \<open>The allocator provides it\<close>

definition nframes :: "'z allocator_scheme \<Rightarrow> nat" where
  "nframes s = unat (LargestMemSegSize s div 0x1000)"

definition frame_table :: "'z allocator_scheme \<Rightarrow> (addr \<times> bool) list" where
  "frame_table s = frames (mem s) (FrameList s) (nframes s)"

definition alloc_ok :: "'z allocator_scheme \<Rightarrow> bool" where
  "alloc_ok s \<longleftrightarrow> table_ok (FrameList s) (frame_table s)"

definition free_pages :: "'z allocator_scheme \<Rightarrow> addr set" where
  "free_pages s = {p. (p, True) \<in> set (frame_table s)}"

definition table_bytes :: "'z allocator_scheme \<Rightarrow> addr set" where
  "table_bytes s = bytes (FrameList s) (16 * nframes s)"

lemmas alloc_defs = alloc_ok_def free_pages_def table_bytes_def frame_table_def nframes_def

lemma nframes_mem [simp]: "nframes (s\<lparr>mem := m\<rparr>) = nframes s"
  by (simp add: nframes_def)

text \<open>The whole of \<open>PageAlloc\<close>, over the table.\<close>

lemma PageAlloc_table:
  assumes "alloc_ok s"
  shows "PageAlloc s = (case first_free (frame_table s) of
      None \<Rightarrow> panic ''No free mem left!'' s
    | Some k \<Rightarrow> (let p = fst (frame_table s ! k) in
        Inr (p, s\<lparr>mem := memset (set_free (mem s) (FrameList s) (of_nat k) False) p 0 0x1000\<rparr>)))"
  using PageAlloc_loop_frames [of "FrameList s" "mem s" "LargestMemSegSize s div 0x1000" 0] assms
  by (auto simp: PageAlloc_def alloc_ok_def frame_table_def nframes_def Let_def split: option.splits)

lemma free_pages_iff:
  "p \<in> free_pages s \<longleftrightarrow> (\<exists>k < nframes s. frame_table s ! k = (p, True))"
  by (auto simp: free_pages_def in_set_conv_nth frame_table_def)

lemma free_pages_first:
  assumes "free_pages s \<noteq> {}"
  obtains k where "first_free (frame_table s) = Some k"
proof -
  from assms obtain p where "(p, True) \<in> set (frame_table s)" by (auto simp: free_pages_def)
  then have "first_free (frame_table s) \<noteq> None" by (metis first_free_None snd_conv)
  with that show thesis by auto
qed

lemma PageAlloc_empty:
  assumes "alloc_ok s" and "serial_ready s" and "free_pages s = {}"
  shows "\<exists>es. PageAlloc s = Inl (Panicked ''No free mem left!'', s\<lparr>trace := trace s @ es @ [Cli, Hlt]\<rparr>)"
proof -
  have "first_free (frame_table s) = None"
    using assms(3) by (force simp: first_free_None free_pages_def)
  then have "PageAlloc s = panic ''No free mem left!'' s" by (simp add: PageAlloc_table [OF assms(1)])
  with panic_halts [OF assms(2)] show ?thesis by metis
qed

lemma PageAlloc_effect:
  assumes ok: "alloc_ok s" and ret: "PageAlloc s = Inr (p, s')"
  shows "\<exists>k. first_free (frame_table s) = Some k \<and> k < nframes s \<and> frame_table s ! k = (p, True) \<and>
     s' = s\<lparr>mem := mem s'\<rparr> \<and> frame_table s' = (frame_table s)[k := (p, False)] \<and>
     (\<forall>x \<in> bytes p 4096. mem s' x = 0) \<and>
     (\<forall>x. x \<notin> bytes p 4096 \<longrightarrow> x \<notin> table_bytes s \<longrightarrow> mem s' x = mem s x)"
proof -
  from ret obtain k where k: "first_free (frame_table s) = Some k"
    unfolding PageAlloc_table [OF ok] by (auto split: option.splits)
  from first_free_Some [OF k] have kn: "k < nframes s" "snd (frame_table s ! k)"
    by (simp_all add: frame_table_def)
  from ret k have p: "p = fst (frame_table s ! k)"
    and s': "s' = s\<lparr>mem := memset (set_free (mem s) (FrameList s) (of_nat k) False) p 0 0x1000\<rparr>"
    unfolding PageAlloc_table [OF ok] by (auto simp: Let_def)
  note eff = alloc_effect [of "FrameList s" "mem s" "nframes s" k, folded frame_table_def alloc_ok_def, OF ok k]
  show ?thesis
  proof (intro exI conjI)
    show "frame_table s ! k = (p, True)" using p kn(2) by (simp add: prod_eq_iff)
    show "s' = s\<lparr>mem := mem s'\<rparr>" by (simp add: s')
    show "frame_table s' = (frame_table s)[k := (p, False)]"
      using eff(1) by (simp add: s' p frame_table_def)
    show "\<forall>x \<in> bytes p 4096. mem s' x = 0" using eff(2) by (simp add: s' p)
    show "\<forall>x. x \<notin> bytes p 4096 \<longrightarrow> x \<notin> table_bytes s \<longrightarrow> mem s' x = mem s x"
      using eff(3) by (simp add: s' p table_bytes_def)
  qed (use k kn in auto)
qed

lemma table_update_free:
  assumes "table_ok fl xs" and "k < length xs" and "xs ! k = (p, True)"
  shows "{q. (q, True) \<in> set (xs[k := (p, False)])} = {q. (q, True) \<in> set xs} - {p}"
proof -
  from assms(1) have "distinct xs" by (simp add: table_ok_def distinct_map)
  then have "set (xs[k := (p, False)]) = insert (p, False) (set xs - {(p, True)})"
    using assms(2,3) by (simp add: set_update_distinct)
  then show ?thesis by auto
qed

lemma table_ok_free_page: "table_ok fl xs \<Longrightarrow> table_ok fl (free_page a xs)"
proof -
  have "map fst (free_page a xs) = map fst xs" by (simp add: free_page_def case_prod_beta)
  then have "map fst (free_page a xs) = map fst xs" "fst ` set (free_page a xs) = fst ` set xs"
    "length (free_page a xs) = length xs" by (metis set_map length_map)+
  then show "table_ok fl xs \<Longrightarrow> table_ok fl (free_page a xs)" by (simp add: table_ok_def)
qed

lemma PageFree_table:
  assumes "alloc_ok s"
  shows "frame_table (PageFree a s) = free_page a (frame_table s)"
    and "x \<notin> table_bytes s \<Longrightarrow> mem (PageFree a s) x = mem s x"
proof -
  have "16 * unat (LargestMemSegSize s div 0x1000) \<le> 2 ^ 64"
    using assms by (simp add: alloc_defs table_ok_def)
  note loop = PageFree_loop_frames [OF this, of 0 "FrameList s" a "mem s"]
  from loop show "frame_table (PageFree a s) = free_page a (frame_table s)"
    by (simp add: PageFree_def frame_table_def nframes_def)
  from loop show "x \<notin> table_bytes s \<Longrightarrow> mem (PageFree a s) x = mem s x"
    by (simp add: PageFree_def table_bytes_def nframes_def)
qed

interpretation pages: page_provider PageAlloc PageFree mem "\<lambda>m s. s\<lparr>mem := m\<rparr>"
  alloc_ok free_pages table_bytes
proof unfold_locales
  fix s :: "'z allocator_scheme" and p
  assume ok: "alloc_ok s"
  show "finite (free_pages s)"
    by (rule finite_subset [of _ "fst ` set (frame_table s)"]) (force simp: free_pages_def, simp)
  show "page_ok p \<and> bytes p 4096 \<inter> table_bytes s = {}" if "p \<in> free_pages s"
    using table_okD [of "FrameList s" "frame_table s" p] ok that
    by (force simp: alloc_ok_def free_pages_def table_bytes_def frame_table_def)
  show "\<exists>p s'. PageAlloc s = Inr (p, s')" if "free_pages s \<noteq> {}"
    by (rule free_pages_first [OF that]) (simp add: PageAlloc_table [OF ok] Let_def)
  show "p \<in> free_pages s \<and> s' = s\<lparr>mem := mem s'\<rparr> \<and> alloc_ok s' \<and> free_pages s' = free_pages s - {p} \<and>
      table_bytes s' = table_bytes s \<and> (\<forall>x\<in>bytes p 4096. mem s' x = 0) \<and>
      (\<forall>x. x \<notin> bytes p 4096 \<longrightarrow> x \<notin> table_bytes s \<longrightarrow> mem s' x = mem s x)"
    if ret: "PageAlloc s = Inr (p, s')" for s'
  proof -
    from PageAlloc_effect [OF ok ret] obtain k where k: "k < nframes s" "frame_table s ! k = (p, True)"
      and s': "s' = s\<lparr>mem := mem s'\<rparr>" and tab: "frame_table s' = (frame_table s)[k := (p, False)]"
      and eff: "\<forall>x\<in>bytes p 4096. mem s' x = 0"
        "\<forall>x. x \<notin> bytes p 4096 \<longrightarrow> x \<notin> table_bytes s \<longrightarrow> mem s' x = mem s x" by blast
    have same: "FrameList s' = FrameList s" "nframes s' = nframes s"
      by (subst s', simp)+
    have len: "length (frame_table s) = nframes s" by (simp add: frame_table_def)
    show ?thesis
    proof (intro conjI)
      show "p \<in> free_pages s" using k by (auto simp: free_pages_iff)
      show "alloc_ok s'"
        using table_ok_update [of "FrameList s" "frame_table s" k p False] ok k len
        by (simp add: alloc_ok_def tab same)
      show "free_pages s' = free_pages s - {p}"
        using table_update_free [of "FrameList s" "frame_table s" k p] ok k len
        by (simp add: alloc_ok_def free_pages_def tab)
    qed (use s' eff same in \<open>simp_all add: table_bytes_def\<close>)
  qed
  note free = PageFree_table [OF ok]
  have same: "FrameList (PageFree p s) = FrameList s" "nframes (PageFree p s) = nframes s"
    by (simp_all add: PageFree_def)
  show "p \<in> free_pages (PageFree p s) \<or> free_pages (PageFree p s) = free_pages s"
  proof (cases "p \<in> fst ` set (frame_table s)")
    case True
    then show ?thesis unfolding free_pages_def free(1) by (force simp: free_page_def)
  next
    case False
    then have "free_page p (frame_table s) = frame_table s"
      unfolding free_page_def by (intro map_idI) (auto simp: image_iff)
    then show ?thesis by (simp add: free_pages_def free(1))
  qed
  show "alloc_ok (PageFree p s) \<and> free_pages s \<subseteq> free_pages (PageFree p s) \<and>
      table_bytes (PageFree p s) = table_bytes s \<and>
      (\<forall>x. x \<notin> table_bytes s \<longrightarrow> mem (PageFree p s) x = mem s x)"
  proof (intro conjI allI impI)
    show "alloc_ok (PageFree p s)"
      using ok free(1) same table_ok_free_page by (simp add: alloc_ok_def)
    show "free_pages s \<subseteq> free_pages (PageFree p s)"
      unfolding free_pages_def free(1) by (force simp: free_page_def)
    show "table_bytes (PageFree p s) = table_bytes s" by (simp add: table_bytes_def same)
    show "mem (PageFree p s) x = mem s x" if "x \<notin> table_bytes s" for x
      using free(2) [OF that] .
  qed
  show "alloc_ok (s\<lparr>mem := m\<rparr>) \<and> free_pages (s\<lparr>mem := m\<rparr>) = free_pages s \<and>
      table_bytes (s\<lparr>mem := m\<rparr>) = table_bytes s"
    if "\<And>x. x \<in> table_bytes s \<Longrightarrow> m x = mem s x" for m
  proof -
    have "frame_table (s\<lparr>mem := m\<rparr>) = frame_table s"
      using frames_cong [of "FrameList s" "nframes s" m "mem s"] that ok
      by (simp add: frame_table_def table_bytes_def alloc_ok_def table_ok_def)
    then show ?thesis using ok by (simp add: alloc_ok_def free_pages_def table_bytes_def)
  qed
qed auto

section \<open>Initialisation\<close>

lemma frames_store_entry:
  assumes "k < n" and "16 * n \<le> 2 ^ 64"
  shows "frames ((store64 m (page_at fl (of_nat k)) a)(page_at fl (of_nat k) + 8 := 1)) fl n =
    (frames m fl n)[k := (a, True)]"
proof (rule nth_equalityI)
  let ?e = "page_at fl (of_nat k)"
  let ?m = "(store64 m ?e a)(?e + 8 := 1)"
  fix j assume "j < length (frames ?m fl n)"
  then have j: "j < n" by simp
  have "page_ptr ?m fl (of_nat j) = page_ptr (store64 m ?e a) fl (of_nat j)"
    unfolding page_ptr_def by (rule load_le_cong) (use flag_not_in_ptr [OF assms(1) j assms(2)] in auto)
  also have "\<dots> = (if j = k then a else page_ptr m fl (of_nat j))"
  proof (cases "j = k")
    case False
    have "bytes ?e 8 \<inter> bytes (page_at fl (of_nat j)) 8 = {}"
      using fields_disjoint [of "16 * k" 8 "16 * j" 8 fl] fields_disjoint [of "16 * j" 8 "16 * k" 8 fl]
        False assms j by (cases "j < k") (auto simp: page_at_of_nat)
    with False show ?thesis by (simp add: page_ptr_def load_store_other)
  qed (simp add: page_ptr_def)
  finally have ptr: "page_ptr ?m fl (of_nat j) = (if j = k then a else page_ptr m fl (of_nat j))" .
  have "page_at fl (of_nat j) + 8 \<notin> bytes ?e 8" by (rule flag_not_in_ptr [OF j assms])
  then have "page_free ?m fl (of_nat j) = (if j = k then True else page_free m fl (of_nat j))"
    using flag_eq_iff [OF assms(1) j assms(2), of fl]
    by (auto simp: page_free_def store_le_outside)
  with assms j ptr show "frames ?m fl n ! j = (frames m fl n)[k := (a, True)] ! j"
    by (simp add: frames_nth nth_list_update)
qed simp

lemma init_frames_table:
  assumes "16 * unat n \<le> 2 ^ 64" and "unat i \<le> unat n"
  shows "frames (init_frames fl n i a m) fl (unat n) = take (unat i) (frames m fl (unat n)) @
    map (\<lambda>k. (a + of_nat (4096 * k), True)) [0..<unat n - unat i]"
  using assms
proof (induction fl n i a m rule: init_frames.induct)
  case (1 fl n i a m)
  show ?case
  proof (cases "i < n")
    case False
    with "1.prems"(2) have "unat i = unat n" by (simp add: word_less_nat_alt)
    with False show ?thesis by (simp add: init_frames.simps [of fl n i])
  next
    case True
    then have i: "unat i < unat n" by (simp add: word_less_nat_alt)
    let ?m = "(store64 m (page_at fl i) a)(page_at fl i + 8 := 1)"
    have upd: "frames ?m fl (unat n) = (frames m fl (unat n))[unat i := (a, True)]"
      using frames_store_entry [OF i "1.prems"(1), of m fl a] by simp
    have "[0..<unat n - unat i] = 0 # map Suc [0..<unat n - Suc (unat i)]"
      using i by (simp add: map_Suc_upt Suc_diff_Suc upt_conv_Cons del: upt_Suc)
    then have "map (\<lambda>k. (a + of_nat (4096 * k), True)) [0..<unat n - unat i] =
        (a, True) # map (\<lambda>k. (a + 0x1000 + of_nat (4096 * k), True)) [0..<unat n - Suc (unat i)]"
      by (simp add: comp_def add.assoc)
    moreover have "take (Suc (unat i)) (frames ?m fl (unat n)) =
        take (unat i) (frames m fl (unat n)) @ [(a, True)]"
      using i by (simp add: upd take_Suc_conv_app_nth)
    moreover have "frames (init_frames fl n (i + 1) (a + 0x1000) ?m) fl (unat n) =
        take (unat (i + 1)) (frames ?m fl (unat n)) @
        map (\<lambda>k. (a + 0x1000 + of_nat (4096 * k), True)) [0..<unat n - unat (i + 1)]"
      by (rule "1.IH" [OF True "1.prems"(1)]) (use True i in \<open>simp add: unat_Suc_below\<close>)
    moreover have "init_frames fl n i a m = init_frames fl n (i + 1) (a + 0x1000) ?m"
      using True by (subst init_frames.simps) simp
    ultimately show ?thesis using True by (simp add: unat_Suc_below)
  qed
qed

text \<open>The loop over the memory map finds a usable region of the greatest length.\<close>

lemma largest_usable_spec:
  assumes "cur = me_length best" and "me_type best = LIMINE_MEMMAP_USABLE"
  shows "me_type (largest_usable es cur best) = LIMINE_MEMMAP_USABLE
    \<and> largest_usable es cur best \<in> insert best (set es)
    \<and> cur \<le> me_length (largest_usable es cur best)
    \<and> (\<forall>e \<in> set es. me_type e = LIMINE_MEMMAP_USABLE \<longrightarrow> me_length e \<le> me_length (largest_usable es cur best))"
  using assms
proof (induction es cur best rule: largest_usable.induct)
  case (2 e es cur best)
  then show ?case by (cases "me_type e = LIMINE_MEMMAP_USABLE \<and> cur < me_length e") force+
qed simp

text \<open>The region the allocator manages, and the address of its first frame.\<close>

definition managed :: "limine_memmap_response \<Rightarrow> limine_memmap_entry" where
  "managed mmap = largest_usable mmap 0 \<lparr>me_base = 0, me_length = 0, me_type = 0\<rparr>"

definition first_frame :: "limine_memmap_entry \<Rightarrow> addr" where
  "first_frame e = ALIGN_UP (me_base e + 16 * (me_length e div 0x1000)) 0x1000"

text \<open>A region that leaves room for its table and all its frames below the top of the address space.\<close>

definition region_fits :: "limine_memmap_entry \<Rightarrow> bool" where
  "region_fits e \<longleftrightarrow> me_length e \<noteq> 0 \<and>
     unat (me_base e) + 16 * (unat (me_length e) div 4096) + 4095 + 4096 * (unat (me_length e) div 4096) < 2 ^ 64"

lemma InitializeAllocator_returns:
  assumes "me_length (managed mmap) \<noteq> 0"
  shows "\<exists>s'. InitializeAllocator mmap s = Inr ((), s') \<and> FrameList s' = me_base (managed mmap) \<and>
    nframes s' = unat (me_length (managed mmap)) div 4096 \<and>
    frame_table s' = map (\<lambda>k. (first_frame (managed mmap) + of_nat (4096 * k), True))
      [0..<unat (me_length (managed mmap)) div 4096]"
proof -
  let ?e = "managed mmap"
  let ?N = "me_length ?e div 0x1000"
  have N: "unat ?N = unat (me_length ?e) div 4096" by (simp add: unat_div)
  have "unat (me_length ?e) < 2 ^ 64" using unsigned_less [of "me_length ?e"] by simp
  then have "16 * unat ?N \<le> 2 ^ 64" unfolding N by simp
  from init_frames_table [OF this, of 0 "me_base ?e" "first_frame ?e" "mem s"] N assms show ?thesis
    by (simp add: InitializeAllocator_def managed_def [symmetric] first_frame_def [symmetric]
        Let_def frame_table_def nframes_def)
qed

lemma unat_first_frame:
  assumes "region_fits e"
  shows "unat (me_base e) + 16 * (unat (me_length e) div 4096) \<le> unat (first_frame e)"
    and "unat (first_frame e) mod 4096 = 0"
    and "unat (first_frame e) + 4096 * (unat (me_length e) div 4096) < 2 ^ 64"
proof -
  let ?n = "unat (me_length e) div 4096" and ?b = "unat (me_base e)"
  have n: "unat (me_length e div 0x1000) = ?n" by (simp add: unat_div)
  have mul: "unat (16 * (me_length e div 0x1000)) = 16 * ?n"
    using assms n by (simp add: region_fits_def unat_word_ariths)
  have sum: "unat (me_base e + 16 * (me_length e div 0x1000)) = ?b + 16 * ?n"
    using assms mul by (simp add: region_fits_def unat_word_ariths)
  have "unat (first_frame e) = (?b + 16 * ?n + 4095) div 4096 * 4096"
    unfolding first_frame_def by (subst unat_ALIGN_UP) (use assms sum in \<open>auto simp: region_fits_def\<close>)
  with round_up_bounds [of 4096 "?b + 16 * ?n"] assms
  show "?b + 16 * ?n \<le> unat (first_frame e)" "unat (first_frame e) mod 4096 = 0"
    "unat (first_frame e) + 4096 * ?n < 2 ^ 64"
    by (auto simp: region_fits_def)
qed

lemma unat_frame:
  assumes "region_fits e" and "k < unat (me_length e) div 4096"
  shows "unat (first_frame e + of_nat (4096 * k)) = unat (first_frame e) + 4096 * k"
proof -
  have lt: "unat (first_frame e) + 4096 * k < 2 ^ 64"
    using unat_first_frame(3) [OF assms(1)] assms(2) by linarith
  then have "unat (of_nat (4096 * k) :: u64) = 4096 * k" by (intro unat_of_nat64) simp
  with lt show ?thesis by (simp add: unat_word_ariths)
qed

lemma frames_table_ok:
  assumes "region_fits e"
  defines "n \<equiv> unat (me_length e) div 4096"
  shows "table_ok (me_base e) (map (\<lambda>k. (first_frame e + of_nat (4096 * k), True)) [0..<n])"
  unfolding table_ok_def
proof (intro conjI ballI)
  note ff = unat_first_frame [OF assms(1), folded n_def]
  show "unat (me_base e) + 16 * length (map (\<lambda>k. (first_frame e + of_nat (4096 * k), True)) [0..<n]) \<le> 2 ^ 64"
    using ff by simp
  have "inj_on (\<lambda>k. first_frame e + of_nat (4096 * k)) {0..<n}"
  proof (rule inj_onI)
    fix j k assume "j \<in> {0..<n}" "k \<in> {0..<n}" and eq: "first_frame e + of_nat (4096 * j) = first_frame e + of_nat (4096 * k)"
    then have "unat (first_frame e) + 4096 * j = unat (first_frame e) + 4096 * k"
      using unat_frame [OF assms(1), of j] unat_frame [OF assms(1), of k] by (simp add: n_def)
    then show "j = k" by simp
  qed
  then show "distinct (map fst (map (\<lambda>k. (first_frame e + of_nat (4096 * k), True)) [0..<n]))"
    by (simp add: comp_def distinct_map)
  fix p assume "p \<in> fst ` set (map (\<lambda>k. (first_frame e + of_nat (4096 * k), True)) [0..<n])"
  then obtain k where k: "k < n" "p = first_frame e + of_nat (4096 * k)" by auto
  then have p: "unat p = unat (first_frame e) + 4096 * k" using unat_frame [OF assms(1)] by (simp add: n_def)
  with ff k(1) have lo: "unat (me_base e) + 16 * n \<le> unat p" and al: "unat p mod 4096 = 0" by auto
  from lo k(1) have "p \<noteq> 0" by (auto simp: unat_eq_0)
  with al show ok: "page_ok p" by (simp add: page_ok_def)
  from bytes_disjoint [of "me_base e" "16 * n" p 4096] lo page_bound [OF ok]
  show "bytes p 4096 \<inter> bytes (me_base e) (16 * length (map (\<lambda>k. (first_frame e + of_nat (4096 * k), True)) [0..<n])) = {}"
    by (simp add: Int_commute)
qed

section \<open>Properties\<close>

text \<open>
  C17: \<open>InitializeAllocator\<close> manages a usable region of the greatest length and leaves a
  well-formed table in which all of its \<open>length / 4096\<close> frames are free.
\<close>

theorem InitializeAllocator_correct:
  assumes "region_fits (managed mmap)"
  shows "\<exists>s'. InitializeAllocator mmap s = Inr ((), s') \<and> alloc_ok s' \<and>
      nframes s' = unat (me_length (managed mmap)) div 4096 \<and>
      free_pages s' = {first_frame (managed mmap) + of_nat (4096 * k) |k. k < nframes s'} \<and>
      managed mmap \<in> set mmap \<and> me_type (managed mmap) = LIMINE_MEMMAP_USABLE \<and>
      (\<forall>e \<in> set mmap. me_type e = LIMINE_MEMMAP_USABLE \<longrightarrow> me_length e \<le> me_length (managed mmap))"
proof -
  have nz: "me_length (managed mmap) \<noteq> 0" using assms by (simp add: region_fits_def)
  from InitializeAllocator_returns [OF nz, of s] obtain s' where s': "InitializeAllocator mmap s = Inr ((), s')"
    "FrameList s' = me_base (managed mmap)" "nframes s' = unat (me_length (managed mmap)) div 4096"
    "frame_table s' = map (\<lambda>k. (first_frame (managed mmap) + of_nat (4096 * k), True))
      [0..<unat (me_length (managed mmap)) div 4096]" by blast
  have "alloc_ok s'" using frames_table_ok [OF assms] s' by (simp add: alloc_ok_def)
  moreover have "free_pages s' = {first_frame (managed mmap) + of_nat (4096 * k) |k. k < nframes s'}"
    using s'(3,4) by (auto simp: free_pages_def)
  moreover have "managed mmap \<in> set mmap \<and> me_type (managed mmap) = LIMINE_MEMMAP_USABLE \<and>
      (\<forall>e \<in> set mmap. me_type e = LIMINE_MEMMAP_USABLE \<longrightarrow> me_length e \<le> me_length (managed mmap))"
    using largest_usable_spec [of 0 "\<lparr>me_base = 0, me_length = 0, me_type = 0\<rparr>" mmap] nz
    by (auto simp: managed_def LIMINE_MEMMAP_USABLE_def)
  ultimately show ?thesis using s'(1,3) by blast
qed

text \<open>A concrete machine: four pages of usable memory at one megabyte, all statics zero.\<close>

definition demo_map :: limine_memmap_response where
  "demo_map = [\<lparr>me_base = 0, me_length = 0x1000, me_type = 1\<rparr>,
               \<lparr>me_base = 0x100000, me_length = 0x4000, me_type = 0\<rparr>]"

definition boot_state :: allocator where
  "boot_state = \<lparr>mem = (\<lambda>_. 0), trace = [], device = (\<lambda>_ _. 0x20), fbSetup = False,
     FrameList = 0, LargestMemSegSize = 0\<rparr>"

definition demo_alloc :: allocator where
  "demo_alloc = (case InitializeAllocator demo_map boot_state of Inl (_, s) \<Rightarrow> s | Inr (_, s) \<Rightarrow> s)"

lemma managed_demo: "managed demo_map = \<lparr>me_base = 0x100000, me_length = 0x4000, me_type = 0\<rparr>"
  by (simp add: managed_def demo_map_def LIMINE_MEMMAP_USABLE_def)

lemma region_fits_demo: "region_fits (managed demo_map)"
  by (simp add: managed_demo region_fits_def)

lemma demo_table:
  "InitializeAllocator demo_map boot_state = Inr ((), demo_alloc)"
  "alloc_ok demo_alloc" "nframes demo_alloc = 4"
  "frame_table demo_alloc = [(0x101000, True), (0x102000, True), (0x103000, True), (0x104000, True)]"
proof -
  have "me_length (managed demo_map) \<noteq> 0" by (simp add: managed_demo)
  from InitializeAllocator_returns [OF this, of boot_state] obtain s' where
    s': "InitializeAllocator demo_map boot_state = Inr ((), s')" "FrameList s' = me_base (managed demo_map)"
    "nframes s' = unat (me_length (managed demo_map)) div 4096"
    "frame_table s' = map (\<lambda>k. (first_frame (managed demo_map) + of_nat (4096 * k), True))
      [0..<unat (me_length (managed demo_map)) div 4096]" by blast
  then show "InitializeAllocator demo_map boot_state = Inr ((), demo_alloc)" by (simp add: demo_alloc_def)
  with s'(1) have eq: "s' = demo_alloc" by simp
  from frames_table_ok [OF region_fits_demo] s'(2,4) show "alloc_ok demo_alloc"
    by (simp add: alloc_ok_def eq)
  from s'(3) show "nframes demo_alloc = 4" by (simp add: eq managed_demo)
  from s'(4) show "frame_table demo_alloc = [(0x101000, True), (0x102000, True), (0x103000, True), (0x104000, True)]"
    by (simp add: eq managed_demo first_frame_def ALIGN_UP_def upt_rec)
qed

lemma demo_device: "device demo_alloc = (\<lambda>_ _. 0x20)"
  by (simp add: demo_alloc_def InitializeAllocator_def managed_def demo_map_def boot_state_def Let_def LIMINE_MEMMAP_USABLE_def)

theorem InitializeAllocator_correct_witness:
  "region_fits (managed demo_map) \<and> alloc_ok demo_alloc \<and> nframes demo_alloc = 4"
  using InitializeAllocator_correct [OF region_fits_demo, of boot_state] demo_table(1) region_fits_demo
  by (simp add: managed_demo)

text \<open>
  C9: \<open>PageAlloc\<close> returns the free page with the lowest index, cleared; only that page and
  its entry of the table change, and the table stays well-formed.
\<close>

theorem PageAlloc_lowest_free:
  assumes "alloc_ok s" and "k < nframes s" and "frame_table s ! k = (p, True)"
    and "\<forall>j < k. \<not> snd (frame_table s ! j)"
  shows "\<exists>s'. PageAlloc s = Inr (p, s') \<and> alloc_ok s' \<and>
      frame_table s' = (frame_table s)[k := (p, False)] \<and>
      (\<forall>x \<in> bytes p 4096. mem s' x = 0) \<and>
      (\<forall>x. x \<notin> bytes p 4096 \<longrightarrow> x \<notin> table_bytes s \<longrightarrow> mem s' x = mem s x)"
proof -
  from assms(2,3) have "free_pages s \<noteq> {}" by (metis empty_iff free_pages_iff)
  with pages.alloc_returns [OF assms(1)] obtain q s' where ret: "PageAlloc s = Inr (q, s')" by blast
  from PageAlloc_effect [OF assms(1) ret] obtain i where i: "first_free (frame_table s) = Some i"
    "frame_table s ! i = (q, True)" "frame_table s' = (frame_table s)[i := (q, False)]"
    "\<forall>x \<in> bytes q 4096. mem s' x = 0"
    "\<forall>x. x \<notin> bytes q 4096 \<longrightarrow> x \<notin> table_bytes s \<longrightarrow> mem s' x = mem s x" by blast
  from first_free_Some [OF i(1)] assms(3,4) have "i = k"
    by (metis linorder_neqE_nat snd_conv)
  with i assms(3) ret pages.alloc_inv [OF assms(1) ret] show ?thesis by auto
qed

theorem PageAlloc_lowest_free_witness:
  "\<exists>s'. PageAlloc demo_alloc = Inr (0x101000, s') \<and> frame_table s' =
     [(0x101000, False), (0x102000, True), (0x103000, True), (0x104000, True)]"
  using PageAlloc_lowest_free [of demo_alloc 0 "0x101000"] by (auto simp: demo_table)

text \<open>
  C18: pages are never handed out twice: as long as enough pages are free, \<open>n\<close> allocations
  in a row return, and they return \<open>n\<close> distinct pages that were free.
\<close>

theorem PageAlloc_never_twice:
  assumes "alloc_ok s" and "n \<le> card (free_pages s)"
  shows "\<exists>ps s'. pages.alloc_many n s = Inr (ps, s') \<and> length ps = n \<and> distinct ps \<and>
    set ps \<subseteq> free_pages s \<and> free_pages s' = free_pages s - set ps"
  using pages.alloc_many_returns [OF assms] pages.alloc_many_distinct [OF assms(1)] by blast

lemma free_pages_demo: "free_pages demo_alloc = {0x101000, 0x102000, 0x103000, 0x104000}"
  by (auto simp: free_pages_def demo_table)

theorem PageAlloc_never_twice_witness:
  "\<exists>ps s'. pages.alloc_many 4 demo_alloc = Inr (ps, s') \<and> distinct ps \<and>
     set ps \<subseteq> {0x101000, 0x102000, 0x103000, 0x104000}"
  using PageAlloc_never_twice [of demo_alloc 4] by (auto simp: demo_table free_pages_demo)

text \<open>
  With no free page left, \<open>PageAlloc\<close> does not return a null pointer: it panics, with
  interrupts off and the machine halted, and memory as it was.
\<close>

theorem PageAlloc_exhausted:
  assumes "alloc_ok s" and "serial_ready s" and "free_pages s = {}"
  shows "\<exists>es. PageAlloc s = Inl (Panicked ''No free mem left!'', s\<lparr>trace := trace s @ es @ [Cli, Hlt]\<rparr>)"
  using assms by (rule PageAlloc_empty)

theorem PageAlloc_exhausted_witness:
  "\<exists>es. PageAlloc boot_state =
     Inl (Panicked ''No free mem left!'', boot_state\<lparr>trace := trace boot_state @ es @ [Cli, Hlt]\<rparr>)"
  by (rule PageAlloc_exhausted)
    (simp_all add: alloc_defs table_ok_def boot_state_def serial_ready_def frames_def)

text \<open>C35: releasing the page just allocated restores the table.\<close>

theorem PageFree_undoes_PageAlloc:
  assumes "alloc_ok s" and "PageAlloc s = Inr (p, s')"
  shows "frame_table (PageFree p s') = frame_table s"
proof -
  from PageAlloc_effect [OF assms] obtain k where k: "k < nframes s" "frame_table s ! k = (p, True)"
    "frame_table s' = (frame_table s)[k := (p, False)]" by blast
  have len: "length (frame_table s) = nframes s" by (simp add: frame_table_def)
  have "distinct (map fst (frame_table s))" using assms(1) by (simp add: alloc_ok_def table_ok_def)
  then have other: "fst (frame_table s ! j) \<noteq> p" if "j < nframes s" "j \<noteq> k" for j
    using that k(1,2) len by (metis distinct_conv_nth fst_conv length_map nth_map)
  have "free_page p (frame_table s') = frame_table s"
  proof (rule nth_equalityI)
    fix j assume "j < length (free_page p (frame_table s'))"
    with k(3) len have j: "j < nframes s" by (simp add: free_page_def)
    show "free_page p (frame_table s') ! j = frame_table s ! j"
      using j k len other [OF j] by (cases "j = k") (auto simp: free_page_def nth_list_update case_prod_beta)
  qed (simp add: free_page_def k(3))
  moreover from pages.alloc_inv [OF assms] have "alloc_ok s'" by blast
  ultimately show ?thesis by (simp add: PageFree_table)
qed

theorem PageFree_undoes_PageAlloc_witness:
  "\<exists>s'. PageAlloc demo_alloc = Inr (0x101000, s') \<and> frame_table (PageFree 0x101000 s') = frame_table demo_alloc"
proof -
  obtain s' where "PageAlloc demo_alloc = Inr (0x101000, s')"
    using PageAlloc_table [OF demo_table(2)] by (auto simp: demo_table Let_def)
  with PageFree_undoes_PageAlloc [OF demo_table(2) this] show ?thesis by blast
qed

text \<open>
  C39: the table has one entry per page of the region although the region also holds the
  table, so the last frame lies wholly behind the end of the region and will be handed out
  as if it were free memory.
\<close>

theorem last_frame_outside_region:
  assumes "region_fits (managed mmap)" and "InitializeAllocator mmap s = Inr ((), s')"
    and "unat (me_base (managed mmap)) mod 4096 = 0" and "unat (me_length (managed mmap)) mod 4096 = 0"
  shows "\<exists>p \<in> free_pages s'. unat (me_base (managed mmap)) + unat (me_length (managed mmap)) \<le> unat p"
proof -
  let ?e = "managed mmap"
  let ?n = "unat (me_length ?e) div 4096"
  have len: "unat (me_length ?e) = 4096 * ?n" using assms(4) by auto
  have nz: "me_length ?e \<noteq> 0" using assms(1) by (simp add: region_fits_def)
  with len have n: "0 < ?n" by (metis gr0I mult_0_right unat_eq_0)
  let ?p = "first_frame ?e + of_nat (4096 * (?n - 1))"
  from InitializeAllocator_returns [OF nz, of s] assms(2)
  have "frame_table s' = map (\<lambda>k. (first_frame ?e + of_nat (4096 * k), True)) [0..<?n]" by auto
  with n have "frame_table s' ! (?n - 1) = (?p, True)" "?n - 1 < length (frame_table s')" by simp_all
  then have "?p \<in> free_pages s'" unfolding free_pages_def mem_Collect_eq by (metis nth_mem)
  moreover have "unat (me_base ?e) + unat (me_length ?e) \<le> unat ?p"
  proof -
    have p: "unat ?p = unat (first_frame ?e) + 4096 * (?n - 1)" 
      by (rule unat_frame [OF assms(1)]) (use n in simp)
    have "unat (me_base ?e) + 4096 \<le> unat (first_frame ?e)"
      by (rule multiples_apart) (use unat_first_frame [OF assms(1)] n assms(3) in auto)
    with p len n show ?thesis by (simp add: diff_mult_distrib2)
  qed
  ultimately show ?thesis by blast
qed

theorem last_frame_outside_region_witness:
  "\<exists>p \<in> free_pages demo_alloc. unat (me_base (managed demo_map)) + unat (me_length (managed demo_map)) \<le> unat p"
  by (rule last_frame_outside_region [OF region_fits_demo demo_table(1)]) (simp_all add: managed_demo)

end
