(* ===== verification/Heap.thy ===== *)
theory Heap
  imports Allocator "HOL-Library.Multiset"
begin

text \<open>
  The kernel heap, \<open>mm/heapalloc/heap.c\<close>: a list of free blocks, each starting with a
  \<open>struct HeapNode\<close> of 16 bytes (\<open>size\<close> at offset 0, \<open>next\<close> at offset 8), anchored in the
  static node \<open>head\<close>, of which only the field \<open>next\<close> is ever used.
\<close>

section \<open>State\<close>

type_synonym KSTATUS = "16 word"

definition KSTATUS_SUCCESS :: KSTATUS where "KSTATUS_SUCCESS = 1"
definition KSTATUS_FAIL :: KSTATUS where "KSTATUS_FAIL = 0"

record heap = allocator +
  head_next :: addr

text \<open>The pointer \<open>current\<close> of the search: \<open>&head\<close> or a node in memory.\<close>

datatype cursor = Head | Node addr

definition hn_size :: "memory \<Rightarrow> addr \<Rightarrow> u64" where
  "hn_size m node = load64 m node"

definition hn_next :: "memory \<Rightarrow> addr \<Rightarrow> addr" where
  "hn_next m node = load64 m (node + 8)"

fun next_of :: "cursor \<Rightarrow> 'z heap_scheme \<Rightarrow> addr" where
  "next_of Head s = head_next s"
| "next_of (Node a) s = hn_next (mem s) a"

fun set_next :: "cursor \<Rightarrow> addr \<Rightarrow> 'z heap_scheme \<Rightarrow> 'z heap_scheme" where
  "set_next Head p s = s\<lparr>head_next := p\<rparr>"
| "set_next (Node a) p s = s\<lparr>mem := store64 (mem s) (a + 8) p\<rparr>"

section \<open>Operations\<close>

definition CreateNode :: "addr \<Rightarrow> u64 \<Rightarrow> 'z heap_scheme \<Rightarrow> 'z heap_scheme" where
  "CreateNode a sz s =
     (let s1 = s\<lparr>mem := store64 (mem s) (a + 8) (head_next s)\<rparr>;
          s2 = s1\<lparr>mem := store64 (mem s1) a sz\<rparr>
      in s2\<lparr>head_next := a\<rparr>)"

text \<open>The clean-up of a failed combination: \<open>PageFree(initial + 4096 * i)\<close> for \<open>i\<close> down to 1.\<close>

fun free_down :: "addr \<Rightarrow> nat \<Rightarrow> 'z heap_scheme \<Rightarrow> 'z heap_scheme" where
  "free_down initial 0 s = s"
| "free_down initial (Suc i) s = free_down initial i (PageFree (initial + of_nat (4096 * Suc i)) s)"

text \<open>
  The page loop of \<open>CombineBlocks\<close>: \<open>Some numPages\<close> when it ran through, \<open>None\<close> when a page
  was missing and the pages were released again. The outer \<open>None\<close> is a loop that never ends
  (\<open>i\<close> wraps around).
\<close>

partial_function (option) combine_loop ::
    "u64 \<Rightarrow> addr \<Rightarrow> u64 \<Rightarrow> nat \<Rightarrow> 'z heap_scheme \<Rightarrow> (nat option, 'z heap_scheme) res option" where
  "combine_loop sz initial i numPages s =
     (if i < sz
      then (case PageAlloc s of
          Inl e \<Rightarrow> Some (Inl e)
        | Inr (p, s) \<Rightarrow>
            if p = 0 then Some (Inr (None, free_down initial numPages s))
            else combine_loop sz initial (i + 4096) (Suc numPages) s)
      else Some (Inr (Some numPages, s)))"

text \<open>\<open>numPages * 4096\<close> is an \<open>int\<close> product: past \<open>2 ^ 31 - 1\<close> it has no meaning.\<close>

definition CombineBlocks :: "u64 \<Rightarrow> 'z heap_scheme \<Rightarrow> (KSTATUS, 'z heap_scheme) res" where
  "CombineBlocks sz s =
     bindR (PageAlloc s) (\<lambda>initial s.
     bindR (case combine_loop sz initial 0 0 s of None \<Rightarrow> Inl (Endless, s) | Some r \<Rightarrow> r) (\<lambda>r s.
     case r of
       None \<Rightarrow> Inr (KSTATUS_FAIL, s)
     | Some numPages \<Rightarrow>
         if numPages * 4096 < 2 ^ 31
         then Inr (KSTATUS_SUCCESS, CreateNode initial (of_nat (numPages * 4096)) s)
         else Inl (Undefined, s)))"

text \<open>
  What the head of the search loop does when \<open>current\<close> has no successor: give up and return
  a null pointer, start again at \<open>&head\<close>, or go on.
\<close>

datatype verdict = GiveUp | Restart | Proceed

definition refill :: "u64 \<Rightarrow> cursor \<Rightarrow> 'z heap_scheme \<Rightarrow> (verdict, 'z heap_scheme) res" where
  "refill sz current s =
     (if next_of current s = 0
      then if 4096 \<le> sz + 16
           then bindR (CombineBlocks sz s) (\<lambda>st s.
                  Inr (if st = KSTATUS_FAIL then GiveUp else Restart, s))
           else bindR (PageAlloc s) (\<lambda>newblock s.
                  if newblock \<noteq> 0 then Inr (Proceed, CreateNode newblock 4096 s)
                  else Inr (GiveUp, s))
      else Inr (Proceed, s))"

text \<open>
  The search loop. \<open>current->next\<close> is read again after the refill and may still be null:
  then its field \<open>size\<close> is read through a null pointer.
\<close>

partial_function (option) find_loop ::
    "u64 \<Rightarrow> cursor \<Rightarrow> 'z heap_scheme \<Rightarrow> (addr, 'z heap_scheme) res option" where
  "find_loop sz current s =
     (case refill sz current s of
        Inl e \<Rightarrow> Some (Inl e)
      | Inr (v, s) \<Rightarrow>
          if v = GiveUp then Some (Inr (0, s))
          else if v = Restart then find_loop sz Head s
          else let nx = next_of current s in
            if nx = 0 then Some (Inl (NullDeref, s))
            else if 16 + sz \<le> hn_size (mem s) nx
            then Some (Inr (nx, set_next current (hn_next (mem s) nx) s))
            else find_loop sz (Node nx) s)"

definition FindAndRemoveNode :: "u64 \<Rightarrow> 'z heap_scheme \<Rightarrow> (addr, 'z heap_scheme) res" where
  "FindAndRemoveNode sz s = (case find_loop sz Head s of None \<Rightarrow> Inl (Endless, s) | Some r \<Rightarrow> r)"

text \<open>\<open>_alloc\<close>; an alignment of zero is a division by zero.\<close>

definition int_alloc :: "u64 \<Rightarrow> u64 \<Rightarrow> 'z heap_scheme \<Rightarrow> (addr, 'z heap_scheme) res" where
  "int_alloc sz alignment s =
     bindR (FindAndRemoveNode (sz + (alignment - 1)) s) (\<lambda>node s.
     if node = 0 then Inr (0, s)
     else if alignment = 0 then Inl (Undefined, s)
     else
       let base = node + 16;
           base_align = ALIGN_UP base alignment;
           end = base_align + sz;
           innerSize = hn_size (mem s) node - 16;
           extraSize = innerSize - sz
       in Inr (base,
            if 0 < extraSize
            then let s1 = CreateNode end extraSize s
                 in s1\<lparr>mem := store64 (mem s1) node (hn_size (mem s1) node - extraSize)\<rparr>
            else s))"

definition malloc :: "u64 \<Rightarrow> 'z heap_scheme \<Rightarrow> (addr, 'z heap_scheme) res" where
  "malloc sz s = int_alloc sz 1 s"

definition aligned_alloc :: "u64 \<Rightarrow> u64 \<Rightarrow> 'z heap_scheme \<Rightarrow> (addr, 'z heap_scheme) res" where
  "aligned_alloc alignment sz s =
     bindR (int_alloc sz alignment s) (\<lambda>node s.
     Inr (if node = 0 then 0 else ALIGN_UP node alignment, s))"

definition calloc :: "u64 \<Rightarrow> 'z heap_scheme \<Rightarrow> (addr, 'z heap_scheme) res" where
  "calloc sz s =
     bindR (malloc sz s) (\<lambda>r s.
     Inr (r, if r \<noteq> 0 then s\<lparr>mem := memset (mem s) r 0 sz\<rparr> else s))"

definition free :: "addr \<Rightarrow> 'z heap_scheme \<Rightarrow> 'z heap_scheme" where
  "free a s = (let prevNode = a - 16 in CreateNode prevNode (hn_size (mem s) prevNode) s)"

section \<open>The heap as two lists of blocks\<close>

interpretation heap_nodes: intrusive_list 8 16
  by unfold_locales simp_all

text \<open>A block is its address and its length, header included.\<close>

type_synonym block = "addr \<times> nat"

abbreviation blk :: "block \<Rightarrow> addr set" where
  "blk b \<equiv> bytes (fst b) (snd b)"

definition blocks_apart :: "block list \<Rightarrow> bool" where
  "blocks_apart bs \<longleftrightarrow> distinct bs \<and>
     (\<forall>b \<in> set bs. \<forall>c \<in> set bs. b \<noteq> c \<longrightarrow> blk b \<inter> blk c = {})"

text \<open>A block of the heap: room for a header, no wrap-around, away from the allocator's table and free pages.\<close>

definition block_ok :: "'z heap_scheme \<Rightarrow> block \<Rightarrow> bool" where
  "block_ok s b \<longleftrightarrow> 16 \<le> snd b \<and> unat (fst b) + snd b \<le> 2 ^ 64 \<and> fst b \<noteq> 0 \<and>
     blk b \<inter> table_bytes s = {} \<and> (\<forall>p \<in> free_pages s. blk b \<inter> bytes p 4096 = {})"

text \<open>
  The invariant: \<open>fr\<close> are the blocks of the free list in list order, \<open>lv\<close> the blocks
  handed out; every header holds the length of its block; no two blocks overlap.
\<close>

definition heap_ok :: "'z heap_scheme \<Rightarrow> block list \<Rightarrow> block list \<Rightarrow> bool" where
  "heap_ok s fr lv \<longleftrightarrow> alloc_ok s \<and> chain 8 (mem s) (head_next s) (map fst fr) \<and>
     blocks_apart (fr @ lv) \<and>
     (\<forall>b \<in> set (fr @ lv). block_ok s b \<and> hn_size (mem s) (fst b) = of_nat (snd b))"

lemma block_okD:
  assumes "block_ok s b"
  shows "16 \<le> snd b" "unat (fst b) + snd b \<le> 2 ^ 64" "fst b \<noteq> 0" "blk b \<inter> table_bytes s = {}"
    "snd b < 2 ^ 64" "bytes (fst b) 16 \<subseteq> blk b"
proof -
  from assms show 1: "16 \<le> snd b" "unat (fst b) + snd b \<le> 2 ^ 64" "fst b \<noteq> 0" "blk b \<inter> table_bytes s = {}"
    by (auto simp: block_ok_def)
  from 1(3) have "0 < unat (fst b)" by (simp add: unat_gt_0)
  with 1(2) show "snd b < 2 ^ 64" by linarith
  from bytes_mono [OF 1(1)] show "bytes (fst b) 16 \<subseteq> blk b" .
qed

lemma header_unchanged:
  assumes "\<And>x. x \<in> bytes a 16 \<Longrightarrow> m' x = m x"
  shows "hn_size m' a = hn_size m a" and "hn_next m' a = hn_next m a"
proof -
  show "hn_size m' a = hn_size m a"
    unfolding hn_size_def by (rule load_le_cong) (use assms bytes_mono [of 8 16 a] in auto)
  show "hn_next m' a = hn_next m a"
    using heap_nodes.link_unchanged [OF assms] by (simp add: hn_next_def)
qed

lemma blocks_apart_subset:
  assumes "blocks_apart bs" and "distinct cs" and "set cs \<subseteq> set bs"
  shows "blocks_apart cs"
  using assms unfolding blocks_apart_def by (meson subsetD)

lemma heap_apartD:
  "heap_ok s fr lv \<Longrightarrow> b \<in> set (fr @ lv) \<Longrightarrow> c \<in> set (fr @ lv) \<Longrightarrow> b \<noteq> c \<Longrightarrow> blk b \<inter> blk c = {}"
  by (auto simp: heap_ok_def blocks_apart_def)

lemma heap_blockD:
  "heap_ok s fr lv \<Longrightarrow> b \<in> set (fr @ lv) \<Longrightarrow> block_ok s b \<and> hn_size (mem s) (fst b) = of_nat (snd b)"
  by (simp add: heap_ok_def)

text \<open>Writes away from the free list and the live blocks we keep track of.\<close>

lemma heap_ok_transfer:
  assumes ok: "heap_ok s fr lv" and sub: "set lv' \<subseteq> set lv" "distinct lv'"
    and s': "alloc_ok s'" "free_pages s' \<subseteq> free_pages s" "table_bytes s' = table_bytes s" "head_next s' = head_next s"
    and same: "\<And>b x. b \<in> set (fr @ lv') \<Longrightarrow> x \<in> blk b \<Longrightarrow> mem s' x = mem s x"
  shows "heap_ok s' fr lv'"
proof -
  have head: "x \<in> bytes (fst b) 16 \<Longrightarrow> mem s' x = mem s x" if "b \<in> set (fr @ lv')" for b x
    using same [OF that] block_okD(6) [of s b] heap_blockD [OF ok, of b] that sub(1) by auto
  have "chain 8 (mem s') (head_next s') (map fst fr)"
    by (subst heap_nodes.chain_frame [of "map fst fr" "mem s'" "mem s"]) (use ok head s'(4) in \<open>auto simp: heap_ok_def\<close>)
  moreover have "hn_size (mem s') (fst b) = of_nat (snd b)" if "b \<in> set (fr @ lv')" for b
    using header_unchanged(1) [OF head [OF that]] heap_blockD [OF ok, of b] that sub(1) by auto
  moreover have "block_ok s' b" if "b \<in> set (fr @ lv')" for b
    using heap_blockD [OF ok, of b] that sub(1) s'(2,3) by (auto simp: block_ok_def)
  moreover have "blocks_apart (fr @ lv')"
    by (rule blocks_apart_subset [of "fr @ lv"]) (use ok sub in \<open>auto simp: heap_ok_def blocks_apart_def\<close>)
  ultimately show ?thesis
    using s'(1) by (simp add: heap_ok_def)
qed

lemma heap_ok_frame:
  assumes ok: "heap_ok s fr lv" and sub: "set lv' \<subseteq> set lv" "distinct lv'"
    and same: "\<And>x. x \<in> table_bytes s \<Longrightarrow> m x = mem s x"
      "\<And>b x. b \<in> set (fr @ lv') \<Longrightarrow> x \<in> blk b \<Longrightarrow> m x = mem s x"
  shows "heap_ok (s\<lparr>mem := m\<rparr>) fr lv'"
  using pages.client_write [of s m] ok same
  by (intro heap_ok_transfer [OF ok sub]) (auto simp: heap_ok_def)

lemma heap_ok_add_live:
  assumes "heap_ok s fr lv" and "block_ok s b" and "hn_size (mem s) (fst b) = of_nat (snd b)"
    and "\<And>c. c \<in> set (fr @ lv) \<Longrightarrow> blk b \<inter> blk c = {}"
  shows "heap_ok s fr (b # lv)"
proof -
  have ne: "fst b \<in> blk b" using assms(2) by (simp add: block_ok_def)
  then have "b \<notin> set (fr @ lv)" using assms(4) [of b] by (metis Int_absorb empty_iff)
  then have "blocks_apart (fr @ b # lv)"
    using assms(1,4) by (auto simp: heap_ok_def blocks_apart_def Int_commute)
  with assms(1-3) show ?thesis by (simp add: heap_ok_def)
qed

lemma heap_ok_add_free:
  assumes "heap_ok s fr lv" and "block_ok s b" and "hn_size (mem s) (fst b) = of_nat (snd b)"
    and "hn_next (mem s) (fst b) = head_next s"
    and "\<And>c. c \<in> set (fr @ lv) \<Longrightarrow> blk b \<inter> blk c = {}"
  shows "heap_ok (s\<lparr>head_next := fst b\<rparr>) (b # fr) lv"
proof -
  have ne: "fst b \<in> blk b" using assms(2) by (simp add: block_ok_def)
  then have "b \<notin> set (fr @ lv)" using assms(5) [of b] by (metis Int_absorb empty_iff)
  then have "blocks_apart (b # fr @ lv)"
    using assms(1,5) by (auto simp: heap_ok_def blocks_apart_def Int_commute)
  moreover have "alloc_ok (s\<lparr>head_next := fst b\<rparr>) = alloc_ok s" "block_ok (s\<lparr>head_next := fst b\<rparr>) c = block_ok s c" for c
    by (simp_all add: block_ok_def alloc_defs)
  moreover have "fst b \<noteq> 0" using block_okD(3) [OF assms(2)] .
  ultimately show ?thesis
    using assms(1-4) by (simp add: heap_ok_def hn_next_def)
qed

text \<open>Taking a block off the free list: its predecessor is linked to its successor.\<close>

definition pred_cursor :: "block list \<Rightarrow> cursor" where
  "pred_cursor ys = (if ys = [] then Head else Node (fst (last ys)))"

lemma heap_headers_apart:
  assumes "heap_ok s fr lv"
  shows "sorted_wrt (\<lambda>a b. bytes a 16 \<inter> bytes b 16 = {}) (map fst fr)"
proof -
  have "bytes (fst (fr ! i)) 16 \<inter> bytes (fst (fr ! j)) 16 = {}" if ij: "i < j" "j < length fr" for i j
  proof -
    have "fr ! i \<noteq> fr ! j"
      using assms ij by (auto simp: heap_ok_def blocks_apart_def nth_eq_iff_index_eq)
    then have "blk (fr ! i) \<inter> blk (fr ! j) = {}"
      using ij by (intro heap_apartD [OF assms]) auto
    moreover have "bytes (fst c) 16 \<subseteq> blk c" if "c \<in> set fr" for c
      using block_okD(6) [of s c] heap_blockD [OF assms, of c] that by simp
    then have "bytes (fst (fr ! i)) 16 \<subseteq> blk (fr ! i)" "bytes (fst (fr ! j)) 16 \<subseteq> blk (fr ! j)"
      using ij by simp_all
    ultimately show ?thesis by (meson disjoint_iff subsetD)
  qed
  then show ?thesis by (simp add: sorted_wrt_iff_nth_less)
qed

lemma heap_ok_relink:
  assumes "heap_ok s fr lv" and "chain 8 (mem s') (head_next s') (map fst fr')"
    and "mset (fr' @ lv') = mset (fr @ lv)" and "alloc_ok s'"
    and "free_pages s' = free_pages s" and "table_bytes s' = table_bytes s"
    and "\<And>b. b \<in> set (fr @ lv) \<Longrightarrow> hn_size (mem s') (fst b) = hn_size (mem s) (fst b)"
  shows "heap_ok s' fr' lv'"
proof -
  have set: "set (fr' @ lv') = set (fr @ lv)" using assms(3) by (rule mset_eq_setD)
  have "distinct (fr' @ lv')"
    using assms(1,3) unfolding heap_ok_def blocks_apart_def by (metis mset_eq_imp_distinct_iff)
  then have "blocks_apart (fr' @ lv')"
    using blocks_apart_subset [of "fr @ lv" "fr' @ lv'"] assms(1) unfolding set heap_ok_def by blast
  moreover have "block_ok s' b = block_ok s b" for b using assms(5,6) by (simp add: block_ok_def)
  ultimately show ?thesis using assms(1,2,4,7) set unfolding heap_ok_def by (metis (no_types, lifting))
qed

lemma heap_unlink:
  assumes ok: "heap_ok s (ys @ b # zs) lv"
  defines "s' \<equiv> set_next (pred_cursor ys) (hn_next (mem s) (fst b)) s"
  shows "heap_ok s' (ys @ zs) (b # lv)"
    and "x \<notin> \<Union> (blk ` set ys) \<Longrightarrow> mem s' x = mem s x"
    and "free_pages s' = free_pages s"
proof -
  have "heap_ok s' (ys @ zs) (b # lv) \<and> (x \<notin> \<Union> (blk ` set ys) \<longrightarrow> mem s' x = mem s x) \<and>
    free_pages s' = free_pages s"
  proof (cases ys rule: rev_cases)
    case Nil
    then have s': "s' = s\<lparr>head_next := hn_next (mem s) (fst b)\<rparr>" by (simp add: s'_def pred_cursor_def)
    have "heap_ok s' zs (b # lv)"
      by (rule heap_ok_relink [OF ok]) (use ok in \<open>auto simp: heap_ok_def Nil s' alloc_defs hn_next_def\<close>)
    then show ?thesis by (simp add: Nil s' alloc_defs)
  next
    case (snoc ys0 y)
    have s': "s' = s\<lparr>mem := store64 (mem s) (fst y + 8) (load64 (mem s) (fst b + 8))\<rparr>"
      by (simp add: s'_def snoc pred_cursor_def hn_next_def)
    have y: "y \<in> set (ys @ b # zs @ lv)" by (simp add: snoc)
    then have yok: "block_ok s y" using heap_blockD [OF ok] by simp
    have link: "bytes (fst y + 8) 8 \<subseteq> bytes (fst y) 16"
      using heap_nodes.link_in_node [of "fst y"] by simp
    with block_okD(6) [OF yok] have sub: "bytes (fst y + 8) 8 \<subseteq> blk y" by blast
    have out: "mem s' x = mem s x" if "x \<notin> blk y" for x
      using that sub by (auto simp: s' intro: store_le_outside)
    have "chain 8 (mem s') (head_next s') (map fst (ys @ zs))"
      using heap_nodes.chain_unlink [of "mem s" "head_next s" "map fst ys0" "fst y" "fst b" "map fst zs"]
        heap_headers_apart [OF ok] ok by (simp add: s' snoc heap_ok_def)
    moreover have "hn_size (mem s') (fst c) = hn_size (mem s) (fst c)" if c: "c \<in> set ((ys @ b # zs) @ lv)" for c
    proof (cases "c = y")
      case True
      have "bytes (fst y + 8) 8 \<inter> bytes (fst y) 8 = {}"
        using fields_disjoint [of 0 8 8 8 "fst y"] by (simp add: Int_commute)
      then show ?thesis by (simp add: True s' hn_size_def load_store_other)
    next
      case False
      have "blk c \<inter> blk y = {}" using False c y by (intro heap_apartD [OF ok]) auto
      moreover have "bytes (fst c) 16 \<subseteq> blk c" using block_okD(6) heap_blockD [OF ok c] by blast
      ultimately show ?thesis using out by (intro header_unchanged) blast
    qed
    moreover have "alloc_ok s' \<and> free_pages s' = free_pages s \<and> table_bytes s' = table_bytes s"
      unfolding s' by (rule pages.client_write)
        (use ok block_okD(4) [OF yok] sub in \<open>auto simp: heap_ok_def intro!: store_le_outside\<close>)
    ultimately have "heap_ok s' (ys @ zs) (b # lv)"
      by (intro heap_ok_relink [OF ok, where s' = s']) auto
    then show ?thesis using out \<open>alloc_ok s' \<and> _\<close> by (auto simp: snoc)
  qed
  then show "heap_ok s' (ys @ zs) (b # lv)" "x \<notin> \<Union> (blk ` set ys) \<Longrightarrow> mem s' x = mem s x"
    "free_pages s' = free_pages s" by auto
qed

text \<open>The search returns the first block that is large enough.\<close>

lemma find_loop_fit:
  assumes "chain 8 (mem s) (next_of cur s) (map fst (ys @ b # zs))"
    and "\<And>c. c \<in> set ys \<Longrightarrow> \<not> 16 + sz \<le> hn_size (mem s) (fst c)"
    and "16 + sz \<le> hn_size (mem s) (fst b)"
  shows "find_loop sz cur s = Some (Inr (fst b,
    set_next (if ys = [] then cur else pred_cursor ys) (hn_next (mem s) (fst b)) s))"
  using assms
proof (induction ys arbitrary: cur)
  case Nil
  then have "next_of cur s = fst b" "fst b \<noteq> 0" by auto
  with Nil.prems(3) show ?case by (subst find_loop.simps) (simp add: refill_def Let_def)
next
  case (Cons y ys)
  from Cons.prems(1) have y: "next_of cur s = fst y" "fst y \<noteq> 0" by auto
  have "find_loop sz cur s = find_loop sz (Node (fst y)) s"
    using y Cons.prems(2) [of y] by (subst find_loop.simps) (simp add: refill_def Let_def)
  also have "\<dots> = Some (Inr (fst b, set_next (if ys = [] then Node (fst y) else pred_cursor ys) (hn_next (mem s) (fst b)) s))"
    using Cons.prems by (intro Cons.IH) (auto simp: hn_next_def)
  finally show ?case by (simp add: pred_cursor_def)
qed

text \<open>What \<open>CreateNode\<close> writes.\<close>

lemma CreateNode_state: "CreateNode a sz s = s\<lparr>mem := mem (CreateNode a sz s), head_next := a\<rparr>"
  by (simp add: CreateNode_def)

lemma CreateNode_header:
  "hn_size (mem (CreateNode a sz s)) a = sz"
  "hn_next (mem (CreateNode a sz s)) a = head_next s"
  "x \<notin> bytes a 16 \<Longrightarrow> mem (CreateNode a sz s) x = mem s x"
proof -
  have "bytes a 8 \<inter> bytes (a + 8) 8 = {}" using fields_disjoint [of 0 8 8 8 a] by simp
  then show "hn_size (mem (CreateNode a sz s)) a = sz" "hn_next (mem (CreateNode a sz s)) a = head_next s"
    by (simp_all add: CreateNode_def hn_size_def hn_next_def load_store_other)
  assume "x \<notin> bytes a 16"
  then have "x \<notin> bytes a 8" "x \<notin> bytes (a + 8) 8"
    using bytes_mono [of 8 16 a] heap_nodes.link_in_node [of a] by auto
  then show "mem (CreateNode a sz s) x = mem s x"
    by (simp add: CreateNode_def store_le_outside)
qed

text \<open>Putting a block in front of the free list.\<close>

lemma heap_ok_CreateNode:
  assumes "heap_ok s fr lv" and "block_ok s b"
    and "\<And>c. c \<in> set (fr @ lv) \<Longrightarrow> blk b \<inter> blk c = {}"
  shows "heap_ok (CreateNode (fst b) (of_nat (snd b)) s) (b # fr) lv"
    and "free_pages (CreateNode (fst b) (of_nat (snd b)) s) = free_pages s"
    and "x \<notin> blk b \<Longrightarrow> mem (CreateNode (fst b) (of_nat (snd b)) s) x = mem s x"
proof -
  let ?m = "mem (CreateNode (fst b) (of_nat (snd b)) s)"
  have out: "?m x = mem s x" if "x \<notin> blk b" for x
    using that block_okD(6) [OF assms(2)] by (intro CreateNode_header(3)) auto
  then show "x \<notin> blk b \<Longrightarrow> ?m x = mem s x" .
  have priv: "?m x = mem s x" if "x \<in> table_bytes s" for x
    using that block_okD(4) [OF assms(2)] by (intro out) auto
  have cw: "alloc_ok (s\<lparr>mem := ?m\<rparr>)" "free_pages (s\<lparr>mem := ?m\<rparr>) = free_pages s" "table_bytes (s\<lparr>mem := ?m\<rparr>) = table_bytes s"
    using pages.client_write [of s ?m] assms(1) priv by (simp_all add: heap_ok_def)
  have 1: "heap_ok (s\<lparr>mem := ?m\<rparr>) fr lv"
  proof (rule heap_ok_frame [OF assms(1)])
    show "distinct lv" using assms(1) by (simp add: heap_ok_def blocks_apart_def)
    show "?m x = mem s x" if "c \<in> set (fr @ lv)" "x \<in> blk c" for c x
      using assms(3) [OF that(1)] that(2) by (intro out) auto
  qed (use priv in simp_all)
  have 2: "block_ok (s\<lparr>mem := ?m\<rparr>) b" using assms(2) cw by (simp add: block_ok_def)
  have "heap_ok (s\<lparr>mem := ?m\<rparr>\<lparr>head_next := fst b\<rparr>) (b # fr) lv"
    by (rule heap_ok_add_free [OF 1 2]) (use assms(3) in \<open>simp_all add: CreateNode_header\<close>)
  then show "heap_ok (CreateNode (fst b) (of_nat (snd b)) s) (b # fr) lv"
    by (subst CreateNode_state) simp
  show "free_pages (CreateNode (fst b) (of_nat (snd b)) s) = free_pages s"
    using cw(2) by (subst CreateNode_state) (simp add: free_pages_def frame_table_def nframes_def)
qed

text \<open>Dropping a block from the books.\<close>

lemma heap_ok_drop_live: "heap_ok s fr (b # lv) \<Longrightarrow> heap_ok s fr lv"
  using blocks_apart_subset [of "fr @ b # lv" "fr @ lv"]
  by (simp add: heap_ok_def blocks_apart_def)

text \<open>Writing the size field of a block that becomes live.\<close>

lemma heap_ok_resize:
  assumes ok: "heap_ok s fr lv" and b: "block_ok s (a, k)"
    and apart: "\<And>c. c \<in> set (fr @ lv) \<Longrightarrow> bytes a k \<inter> blk c = {}"
  defines "s' \<equiv> s\<lparr>mem := store64 (mem s) a (of_nat k)\<rparr>"
  shows "heap_ok s' fr ((a, k) # lv)"
    and "free_pages s' = free_pages s"
    and "x \<notin> bytes a k \<Longrightarrow> mem s' x = mem s x"
proof -
  have 8: "bytes a 8 \<subseteq> bytes a k" using block_okD(1) [OF b] by (intro bytes_mono) simp
  have out: "mem s' x = mem s x" if "x \<notin> bytes a k" for x
    using that 8 by (auto simp: s'_def intro: store_le_outside)
  then show "x \<notin> bytes a k \<Longrightarrow> mem s' x = mem s x" .
  have tab: "mem s' x = mem s x" if "x \<in> table_bytes s" for x
    using that block_okD(4) [OF b] by (intro out) auto
  have s': "s' = s\<lparr>mem := mem s'\<rparr>" by (simp add: s'_def)
  have cw: "alloc_ok s'" "free_pages s' = free_pages s" "table_bytes s' = table_bytes s"
    using pages.client_write [of s "mem s'"] ok tab s' by (simp_all add: heap_ok_def)
  then show "free_pages s' = free_pages s" by simp
  have "heap_ok (s\<lparr>mem := mem s'\<rparr>) fr lv"
  proof (rule heap_ok_frame [OF ok])
    show "distinct lv" using ok by (simp add: heap_ok_def blocks_apart_def)
    show "mem s' x = mem s x" if "c \<in> set (fr @ lv)" "x \<in> blk c" for c x
      using apart [OF that(1)] that(2) by (intro out) auto
  qed (use tab in simp_all)
  then have "heap_ok s' fr lv" by (simp add: s'_def)
  moreover have "block_ok s' (a, k)" using b cw by (simp add: block_ok_def)
  moreover have "hn_size (mem s') a = of_nat k" by (simp add: s'_def hn_size_def)
  ultimately show "heap_ok s' fr ((a, k) # lv)" using apart by (intro heap_ok_add_live) auto
qed

text \<open>Cutting a block in two: the rear part goes to the free list.\<close>

definition cut_block :: "addr \<Rightarrow> addr \<Rightarrow> u64 \<Rightarrow> 'z heap_scheme \<Rightarrow> 'z heap_scheme" where
  "cut_block a e extra s = (let s1 = CreateNode e extra s
     in s1\<lparr>mem := store64 (mem s1) a (hn_size (mem s1) a - extra)\<rparr>)"

lemma table_bytes_CreateNode [simp]: "table_bytes (CreateNode a n s) = table_bytes s"
  by (simp add: CreateNode_def table_bytes_def nframes_def)

lemma heap_ok_cut:
  assumes ok: "heap_ok s fr ((a, n) # lv)" and k: "16 \<le> n - k" "16 \<le> k"
  defines "s' \<equiv> cut_block a (a + of_nat k) (of_nat (n - k)) s"
  shows "heap_ok s' ((a + of_nat k, n - k) # fr) ((a, k) # lv)"
    and "free_pages s' = free_pages s"
    and "x \<notin> bytes a n \<Longrightarrow> mem s' x = mem s x"
proof -
  let ?e = "a + of_nat k :: addr" and ?s1 = "CreateNode (a + of_nat k) (of_nat (n - k)) s"
  have aok: "block_ok s (a, n)" and asz: "hn_size (mem s) a = of_nat n" using heap_blockD [OF ok, of "(a, n)"] by simp_all
  note bd = block_okD [OF aok, simplified]
  have e: "unat ?e = unat a + k"
    using bd(2,5) k by (simp add: unat_word_ariths unat_of_nat64)
  have rear: "bytes ?e (n - k) \<subseteq> bytes a n"
    by (rule bytes_subset) (use bd(2) e k in auto)
  have front: "bytes a k \<subseteq> bytes a n" using k by (intro bytes_mono) simp
  have apart: "bytes a k \<inter> bytes ?e (n - k) = {}"
    by (rule bytes_disjoint) (use e bd(2) k in auto)
  have ok1: "heap_ok s fr lv" using ok by (rule heap_ok_drop_live)
  have others: "bytes a n \<inter> blk c = {}" if "c \<in> set (fr @ lv)" for c
  proof -
    have "(a, n) \<noteq> c" using that ok by (auto simp: heap_ok_def blocks_apart_def)
    then show ?thesis using heap_apartD [OF ok, of "(a, n)" c] that by auto
  qed
  have eok: "block_ok s (?e, n - k)"
    using aok rear k e bd unfolding block_ok_def by (auto simp: unat_eq_0)
  have rest: "bytes ?e (n - k) \<inter> blk c = {}" if "c \<in> set (fr @ lv)" for c
    using others [OF that] rear by auto
  have c: "heap_ok ?s1 ((?e, n - k) # fr) lv" "free_pages ?s1 = free_pages s"
    "x \<notin> bytes ?e (n - k) \<Longrightarrow> mem ?s1 x = mem s x" for x
    using heap_ok_CreateNode [OF ok1 eok] rest unfolding fst_conv snd_conv by blast+
  have "block_ok s (a, k)" using aok front k bd unfolding block_ok_def by auto
  then have fok: "block_ok ?s1 (a, k)" unfolding block_ok_def c(2) by simp
  have fapart: "bytes a k \<inter> blk c = {}" if "c \<in> set (((?e, n - k) # fr) @ lv)" for c
    using that apart others [of c] front by auto
  have "hn_size (mem ?s1) a = of_nat n"
    using bytes_mono [of 8 k a] apart k c(3)
    by (subst asz [symmetric]) (auto simp: hn_size_def intro!: load_le_cong)
  then have s': "s' = ?s1\<lparr>mem := store64 (mem ?s1) a (of_nat k)\<rparr>"
    using k by (simp add: s'_def cut_block_def Let_def of_nat_diff)
  note r = heap_ok_resize [OF c(1) fok fapart, folded s']
  from r(1) show "heap_ok s' ((?e, n - k) # fr) ((a, k) # lv)" .
  from r(2) c(2) show "free_pages s' = free_pages s" by simp
  show "mem s' x = mem s x" if "x \<notin> bytes a n"
    using that r(3) [of x] c(3) [of x] front rear by (metis subsetD)
qed

section \<open>The allocator of blocks, abstractly\<close>

text \<open>
  First fit on a list of blocks: the block found, and the list without it. A block that
  is longer than needed is cut, and its rear part goes to the front of the list.
\<close>

fun first_fit :: "nat \<Rightarrow> block list \<Rightarrow> (block \<times> block list) option" where
  "first_fit n [] = None"
| "first_fit n (b # bs) =
     (if n \<le> snd b then Some (b, bs) else map_option (\<lambda>(c, cs). (c, b # cs)) (first_fit n bs))"

definition leftover :: "nat \<Rightarrow> block \<Rightarrow> block list" where
  "leftover n b = (if snd b = n then [] else [(fst b + of_nat n, snd b - n)])"

lemma first_fit_Some:
  assumes "first_fit n bs = Some (b, cs)"
  obtains ys zs where "bs = ys @ b # zs" "cs = ys @ zs" "\<forall>c \<in> set ys. snd c < n" "n \<le> snd b"
proof -
  have "\<exists>ys zs. bs = ys @ b # zs \<and> cs = ys @ zs \<and> (\<forall>c \<in> set ys. snd c < n) \<and> n \<le> snd b"
    using assms
  proof (induction bs arbitrary: cs)
    case (Cons d bs)
    show ?case
    proof (cases "n \<le> snd d")
      case True
      with Cons.prems have "d # bs = [] @ b # bs \<and> cs = [] @ bs \<and> n \<le> snd b" by auto
      then show ?thesis by (metis empty_iff list.set(1))
    next
      case False
      with Cons.prems obtain cs' where c: "first_fit n bs = Some (b, cs')" "cs = d # cs'" by auto
      from Cons.IH [OF c(1)] obtain ys zs where "bs = ys @ b # zs" "cs' = ys @ zs"
        "\<forall>c \<in> set ys. snd c < n" "n \<le> snd b" by blast
      with False c(2) have "d # bs = (d # ys) @ b # zs \<and> cs = (d # ys) @ zs \<and>
        (\<forall>c \<in> set (d # ys). snd c < n) \<and> n \<le> snd b" by auto
      then show ?thesis by blast
    qed
  qed simp
  with that show ?thesis by blast
qed

lemma first_fit_None: "first_fit n bs = None \<longleftrightarrow> (\<forall>b \<in> set bs. snd b < n)"
  by (induction bs) auto

text \<open>The comparison of the search is the comparison of the lengths.\<close>

lemma fits_iff:
  assumes "heap_ok s fr lv" and "c \<in> set fr" and "unat sz + 16 < 2 ^ 64"
  shows "16 + sz \<le> hn_size (mem s) (fst c) \<longleftrightarrow> 16 + unat sz \<le> snd c"
proof -
  from heap_blockD [OF assms(1), of c] assms(2) have c: "block_ok s c" "hn_size (mem s) (fst c) = of_nat (snd c)" by simp_all
  have "unat (16 + sz) = 16 + unat sz" using assms(3) by (simp add: unat_word_ariths)
  moreover have "unat (of_nat (snd c) :: u64) = snd c" by (rule unat_of_nat64 [OF block_okD(5) [OF c(1)]])
  ultimately show ?thesis by (simp add: c(2) word_le_nat_alt)
qed

lemma FindAndRemoveNode_fit:
  assumes ok: "heap_ok s fr lv" and fit: "first_fit (16 + unat sz) fr = Some (b, fr')"
  shows "\<exists>s'. FindAndRemoveNode sz s = Inr (fst b, s') \<and> heap_ok s' fr' (b # lv) \<and> b \<in> set fr \<and>
    free_pages s' = free_pages s \<and> (\<forall>x. x \<notin> \<Union> (blk ` set fr) \<longrightarrow> mem s' x = mem s x)"
proof -
  from fit obtain ys zs where f: "fr = ys @ b # zs" "fr' = ys @ zs"
    "\<forall>c \<in> set ys. snd c < 16 + unat sz" "16 + unat sz \<le> snd b" by (rule first_fit_Some)
  have b: "block_ok s b" using heap_blockD [OF ok, of b] by (simp add: f(1))
  then have small: "unat sz + 16 < 2 ^ 64" using block_okD(5) f(4) by fastforce
  have "find_loop sz Head s =
      Some (Inr (fst b, set_next (if ys = [] then Head else pred_cursor ys) (hn_next (mem s) (fst b)) s))"
  proof (rule find_loop_fit)
    show "chain 8 (mem s) (next_of Head s) (map fst (ys @ b # zs))" using ok by (simp add: heap_ok_def f(1))
    show "\<not> 16 + sz \<le> hn_size (mem s) (fst c)" if "c \<in> set ys" for c
      using fits_iff [OF ok _ small, of c] that f(1,3) by auto
    show "16 + sz \<le> hn_size (mem s) (fst b)" using fits_iff [OF ok _ small, of b] f(1,4) by simp
  qed
  then have "FindAndRemoveNode sz s = Inr (fst b, set_next (pred_cursor ys) (hn_next (mem s) (fst b)) s)"
    by (simp add: FindAndRemoveNode_def pred_cursor_def)
  with heap_unlink [of s ys b zs lv] ok show ?thesis by (auto simp: f(1,2))
qed

text \<open>The part of \<open>_alloc\<close> behind the search, for \<open>malloc\<close>.\<close>

lemma malloc_node:
  assumes find: "FindAndRemoveNode sz s = Inr (a, s1)" and ok: "heap_ok s1 fr ((a, n) # lv)"
    and n: "16 + unat sz \<le> n"
  shows "malloc sz s = Inr (a + 16,
    if n = 16 + unat sz then s1 else cut_block a (a + of_nat (16 + unat sz)) (of_nat (n - (16 + unat sz))) s1)"
proof -
  have a: "block_ok s1 (a, n)" "hn_size (mem s1) a = of_nat n" using heap_blockD [OF ok, of "(a, n)"] by simp_all
  note bd = block_okD [OF a(1), simplified]
  have extra: "hn_size (mem s1) a - 16 - sz = of_nat (n - (16 + unat sz))"
    using n by (simp add: a(2) of_nat_diff algebra_simps)
  have "unat (of_nat (n - (16 + unat sz)) :: u64) = n - (16 + unat sz)"
    using bd(5) by (intro unat_of_nat64) simp
  then have pos: "0 < (of_nat (n - (16 + unat sz)) :: u64) \<longleftrightarrow> n \<noteq> 16 + unat sz"
    using n by (auto simp: word_less_nat_alt simp del: of_nat_diff)
  have e: "a + of_nat (16 + unat sz) = a + 16 + sz" by (simp add: algebra_simps)
  have "ALIGN_UP (a + 16) 1 = a + 16" by (simp add: ALIGN_UP_def)
  then show ?thesis
    unfolding e using find extra pos bd(3)
    by (simp add: malloc_def int_alloc_def cut_block_def Let_def del: of_nat_diff of_nat_add)
qed

lemma malloc_found:
  assumes find: "FindAndRemoveNode sz s = Inr (a, s1)" and ok: "heap_ok s1 fr ((a, n) # lv)"
    and n: "n = 16 + unat sz \<or> 32 + unat sz \<le> n"
  shows "\<exists>s'. malloc sz s = Inr (a + 16, s') \<and>
    heap_ok s' (leftover (16 + unat sz) (a, n) @ fr) ((a, 16 + unat sz) # lv) \<and>
    free_pages s' = free_pages s1 \<and> (\<forall>x. x \<notin> bytes a n \<longrightarrow> mem s' x = mem s1 x)"
proof (cases "n = 16 + unat sz")
  case True
  with malloc_node [OF find ok] ok show ?thesis by (simp add: leftover_def)
next
  case False
  with n have n: "16 \<le> n - (16 + unat sz)" "16 + unat sz \<le> n" by auto
  from malloc_node [OF find ok n(2)] heap_ok_cut [OF ok n(1)] False show ?thesis by (simp add: leftover_def del: of_nat_add of_nat_diff)
qed

text \<open>A page taken from the page allocator is a block disjoint from everything known.\<close>

lemma heap_new_page:
  assumes ok: "heap_ok s fr lv" and avail: "free_pages s \<noteq> {}"
  shows "\<exists>p s1. PageAlloc s = Inr (p, s1) \<and> p \<in> free_pages s \<and> p \<noteq> 0 \<and> heap_ok s1 fr lv \<and> head_next s1 = head_next s \<and>
    heap_ok (CreateNode p 4096 s1) ((p, 4096) # fr) lv \<and>
    free_pages (CreateNode p 4096 s1) = free_pages s - {p} \<and>
    (\<forall>x. x \<notin> bytes p 4096 \<longrightarrow> x \<notin> table_bytes s \<longrightarrow> mem s1 x = mem s x \<and> mem (CreateNode p 4096 s1) x = mem s x)"
proof -
  have inv: "alloc_ok s" using ok by (simp add: heap_ok_def)
  from pages.alloc_returns [OF inv avail] obtain p s1 where ret: "PageAlloc s = Inr (p, s1)" by blast
  from pages.alloc_effect [OF inv ret] have p: "p \<in> free_pages s" and s1: "s1 = s\<lparr>mem := mem s1\<rparr>" "alloc_ok s1"
    "free_pages s1 = free_pages s - {p}" "table_bytes s1 = table_bytes s"
    and out: "\<And>x. x \<notin> bytes p 4096 \<Longrightarrow> x \<notin> table_bytes s \<Longrightarrow> mem s1 x = mem s x" by auto
  from pages.avail_page [OF inv p] have pok: "page_ok p" and ptab: "bytes p 4096 \<inter> table_bytes s = {}" by auto
  have apart: "blk c \<inter> bytes p 4096 = {}" "blk c \<inter> table_bytes s = {}" if "c \<in> set (fr @ lv)" for c
    using heap_blockD [OF ok that] p by (auto simp: block_ok_def)
  have same: "mem s1 x = mem s x" if "c \<in> set (fr @ lv)" "x \<in> blk c" for c x
    using apart [OF that(1)] that(2) by (intro out) auto
  have head: "head_next s1 = head_next s" by (subst s1(1)) simp
  have ok1: "heap_ok s1 fr lv"
    by (rule heap_ok_transfer [OF ok]) (use ok s1 head same in \<open>auto simp: heap_ok_def blocks_apart_def\<close>)
  have pblk: "block_ok s1 (p, 4096)"
    unfolding block_ok_def s1(3,4) fst_conv snd_conv
  proof (intro conjI ballI)
    fix q assume "q \<in> free_pages s - {p}"
    then show "bytes p 4096 \<inter> bytes q 4096 = {}"
      using pages.avail_page [OF inv, of q] by (intro pages_disjoint [OF pok]) auto
  qed (use page_bound [OF pok] ptab pok in \<open>simp_all add: page_ok_def\<close>)
  have "bytes p 4096 \<inter> blk c = {}" if "c \<in> set (fr @ lv)" for c using apart(1) [OF that] by (simp add: Int_commute)
  then have new: "heap_ok (CreateNode p 4096 s1) ((p, 4096) # fr) lv" "free_pages (CreateNode p 4096 s1) = free_pages s1"
    "\<And>x. x \<notin> bytes p 4096 \<Longrightarrow> mem (CreateNode p 4096 s1) x = mem s1 x"
    using heap_ok_CreateNode [OF ok1 pblk] by simp_all
  have "p \<noteq> 0" using pok by (simp add: page_ok_def)
  with ret p ok1 head new s1(3) out show ?thesis by auto
qed

section \<open>When no block fits\<close>

text \<open>The search walks over blocks that are too small.\<close>

lemma find_loop_walk:
  assumes "chain 8 (mem s) (next_of cur s) xs"
    and "\<And>x. x \<in> set xs \<Longrightarrow> \<not> 16 + sz \<le> hn_size (mem s) x"
  shows "find_loop sz cur s = find_loop sz (if xs = [] then cur else Node (last xs)) s \<and>
    next_of (if xs = [] then cur else Node (last xs)) s = 0"
  using assms
proof (induction xs arbitrary: cur)
  case Nil
  then show ?case by simp
next
  case (Cons x xs)
  from Cons.prems(1) have x: "next_of cur s = x" "x \<noteq> 0" by auto
  have step: "find_loop sz cur s = find_loop sz (Node x) s"
    using x Cons.prems(2) [of x] by (subst find_loop.simps) (simp add: refill_def Let_def)
  have last: "(if x # xs = [] then cur else Node (last (x # xs))) = (if xs = [] then Node x else Node (last xs))" by simp
  show ?case
    unfolding step last using Cons.prems by (intro Cons.IH) (auto simp: hn_next_def)
qed

lemma find_loop_miss_null:
  assumes ok: "heap_ok s fr lv" and fr: "fr \<noteq> []" and small: "first_fit (16 + unat sz) fr = None"
    and sz: "unat sz < 4080" and avail: "free_pages s \<noteq> {}"
  shows "\<exists>s'. find_loop sz Head s = Some (Inl (NullDeref, s'))"
proof -
  have nofit: "\<not> 16 + sz \<le> hn_size (mem s) x" if "x \<in> set (map fst fr)" for x
    using that fits_iff [OF ok, of _ sz] small sz by (auto simp: first_fit_None)
  from find_loop_walk [of s Head "map fst fr" sz, OF _ nofit] ok fr
  have w: "find_loop sz Head s = find_loop sz (Node (fst (last fr))) s" "hn_next (mem s) (fst (last fr)) = 0"
    by (auto simp: heap_ok_def last_map)
  from heap_new_page [OF ok avail] obtain p s1 where p: "PageAlloc s = Inr (p, s1)" "p \<noteq> 0" "heap_ok (CreateNode p 4096 s1) ((p, 4096) # fr) lv"
    "p \<in> free_pages s"
    "\<forall>x. x \<notin> bytes p 4096 \<longrightarrow> x \<notin> table_bytes s \<longrightarrow> mem (CreateNode p 4096 s1) x = mem s x" by blast
  have l: "block_ok s (last fr)" using heap_blockD [OF ok, of "last fr"] fr by simp
  have "hn_next (mem (CreateNode p 4096 s1)) (fst (last fr)) = hn_next (mem s) (fst (last fr))"
  proof (rule header_unchanged(2))
    fix x assume "x \<in> bytes (fst (last fr)) 16"
    then have "x \<in> blk (last fr)" using block_okD(6) [OF l] by blast
    then show "mem (CreateNode p 4096 s1) x = mem s x"
      using p(4,5) l unfolding block_ok_def by (metis disjoint_iff)
  qed
  moreover have "\<not> 4096 \<le> sz + 16"
    using sz by (simp add: word_le_nat_alt unat_word_ariths)
  ultimately show ?thesis
    using w p(1,2) by (subst w(1), subst find_loop.simps) (simp add: refill_def)
qed

section \<open>Requests no combined block can serve\<close>

text \<open>
  \<open>CombineBlocks(size)\<close> makes a block of as many whole pages as \<open>size\<close> needs, the header not
  counted. The invariant of the search that follows: the page allocator is in order, all
  nodes are too small, and no node lies in a free page or in the frame table.
\<close>

definition clear_of :: "'z heap_scheme \<Rightarrow> addr \<Rightarrow> bool" where
  "clear_of s x \<longleftrightarrow> bytes x 16 \<inter> table_bytes s = {} \<and> (\<forall>p \<in> free_pages s. bytes x 16 \<inter> bytes p 4096 = {})"

definition starved :: "u64 \<Rightarrow> addr list \<Rightarrow> 'z heap_scheme \<Rightarrow> bool" where
  "starved sz xs s \<longleftrightarrow> alloc_ok s \<and> serial_ready s \<and> chain 8 (mem s) (head_next s) xs \<and>
     (\<forall>x \<in> set xs. \<not> 16 + sz \<le> hn_size (mem s) x \<and> clear_of s x)"

definition out_of_memory :: "(nat option, 'z heap_scheme) res \<Rightarrow> bool" where
  "out_of_memory r \<longleftrightarrow> (\<exists>s. r = Inl (Panicked ''No free mem left!'', s))"

lemma subset_disjoint: "A \<subseteq> B \<Longrightarrow> B \<inter> C = {} \<Longrightarrow> A \<inter> C = {}"
  by blast

lemma page_head: "bytes p 16 \<subseteq> bytes p 4096"
  by (rule bytes_mono) simp

lemma starved_alloc:
  assumes st: "starved sz xs s"
  shows "(free_pages s = {} \<and> (\<exists>s'. PageAlloc s = Inl (Panicked ''No free mem left!'', s'))) \<or>
    (\<exists>p s'. PageAlloc s = Inr (p, s') \<and> p \<noteq> 0 \<and> starved sz xs s' \<and> clear_of s' p \<and>
      (\<forall>x \<in> set xs. bytes p 16 \<inter> bytes x 16 = {}) \<and>
      (\<forall>y. clear_of s y \<longrightarrow> clear_of s' y) \<and> free_pages s' = free_pages s - {p} \<and> p \<in> free_pages s)"
proof (cases "free_pages s = {}")
  case True
  with PageAlloc_empty [of s] st show ?thesis by (auto simp: starved_def)
next
  case False
  have inv: "alloc_ok s" using st by (simp add: starved_def)
  from pages.alloc_returns [OF inv False] obtain p s' where ret: "PageAlloc s = Inr (p, s')" by blast
  from pages.alloc_effect [OF inv ret] have p: "p \<in> free_pages s" and s': "s' = s\<lparr>mem := mem s'\<rparr>" "alloc_ok s'"
    "free_pages s' = free_pages s - {p}" "table_bytes s' = table_bytes s"
    and out: "\<And>x. x \<notin> bytes p 4096 \<Longrightarrow> x \<notin> table_bytes s \<Longrightarrow> mem s' x = mem s x" by auto
  from pages.avail_page [OF inv p] have pok: "page_ok p" and ptab: "bytes p 4096 \<inter> table_bytes s = {}" by auto
  have mono: "clear_of s y \<Longrightarrow> clear_of s' y" for y unfolding clear_of_def s'(3,4) by blast
  have keep: "mem s' y = mem s y" if "x \<in> set xs" "y \<in> bytes x 16" for x y
    using st p that unfolding starved_def clear_of_def by (intro out) (meson disjoint_iff)+
  have dev: "head_next s' = head_next s" "device s' = device s" by (subst s'(1), simp)+
  have "chain 8 (mem s') (head_next s') xs"
    using st heap_nodes.chain_frame [of xs "mem s'" "mem s" "head_next s"] keep dev by (simp add: starved_def)
  moreover have "hn_size (mem s') x = hn_size (mem s) x" if "x \<in> set xs" for x
    using keep [OF that] by (rule header_unchanged)
  ultimately have "starved sz xs s'"
    using st s'(2) mono dev(2) by (auto simp: starved_def serial_ready_def)
  moreover have "clear_of s' p"
    unfolding clear_of_def s'(3,4)
  proof (intro conjI ballI)
    show "bytes p 16 \<inter> table_bytes s = {}" using ptab by (rule subset_disjoint [OF page_head])
    fix q assume "q \<in> free_pages s - {p}"
    then have "bytes p 4096 \<inter> bytes q 4096 = {}"
      using pages.avail_page [OF inv, of q] by (intro pages_disjoint [OF pok]) auto
    then show "bytes p 16 \<inter> bytes q 4096 = {}" by (rule subset_disjoint [OF page_head])
  qed
  moreover have "bytes p 16 \<inter> bytes x 16 = {}" if "x \<in> set xs" for x
    by (rule subset_disjoint [OF page_head]) (use that st p in \<open>simp add: starved_def clear_of_def Int_commute\<close>)
  moreover have "p \<noteq> 0" using pok by (simp add: page_ok_def)
  ultimately show ?thesis using ret mono s'(3) p by blast
qed

lemma combine_loop_starved:
  assumes "starved sz xs s" and "clear_of s q"
    and "j \<le> (unat sz + 4095) div 4096" and "unat sz \<le> 2 ^ 31 - 4096"
  shows "\<exists>r. combine_loop sz q (of_nat (4096 * j)) j s = Some r \<and>
    (out_of_memory r \<or> (\<exists>s'. r = Inr (Some ((unat sz + 4095) div 4096), s') \<and>
      starved sz xs s' \<and> clear_of s' q \<and> free_pages s' \<subseteq> free_pages s))"
  using assms
proof (induction "(unat sz + 4095) div 4096 - j" arbitrary: j s)
  case 0
  then have "4096 * j = (unat sz + 4095) div 4096 * 4096" by simp
  then have "unat sz \<le> 4096 * j" using round_up_bounds(1) [of 4096 "unat sz"] by simp
  moreover have "unat (of_nat (4096 * j) :: u64) = 4096 * j" using 0 by (intro unat_of_nat64) simp
  ultimately have "\<not> of_nat (4096 * j) < sz" by (simp add: word_less_nat_alt)
  with 0 show ?case by (subst combine_loop.simps) auto
next
  case (Suc n)
  then have "j < (unat sz + 4095) div 4096" by simp
  then have lt: "4096 * j < unat sz" by simp
  moreover have "unat (of_nat (4096 * j) :: u64) = 4096 * j"
    using lt Suc.prems(4) by (intro unat_of_nat64) simp
  ultimately have go: "of_nat (4096 * j) < sz" by (simp add: word_less_nat_alt)
  have nx: "(of_nat (4096 * j) :: u64) + 4096 = of_nat (4096 * Suc j)" by simp
  from starved_alloc [OF Suc.prems(1)] show ?case
  proof (elim disjE exE conjE)
    fix s' assume "PageAlloc s = Inl (Panicked ''No free mem left!'', s')"
    with go show ?case by (subst combine_loop.simps) (simp add: out_of_memory_def)
  next
    fix p s1 assume p: "PageAlloc s = Inr (p, s1)" "p \<noteq> 0" "starved sz xs s1"
      "\<forall>y. clear_of s y \<longrightarrow> clear_of s1 y" "free_pages s1 = free_pages s - {p}"
    have eq: "combine_loop sz q (of_nat (4096 * j)) j s = combine_loop sz q (of_nat (4096 * Suc j)) (Suc j) s1"
      unfolding nx [symmetric] using go p(1,2) by (subst combine_loop.simps) simp
    have "\<exists>r. combine_loop sz q (of_nat (4096 * Suc j)) (Suc j) s1 = Some r \<and>
      (out_of_memory r \<or> (\<exists>s'. r = Inr (Some ((unat sz + 4095) div 4096), s') \<and>
        starved sz xs s' \<and> clear_of s' q \<and> free_pages s' \<subseteq> free_pages s1))"
      by (rule Suc.hyps(1)) (use Suc.hyps(2) Suc.prems p(3,4) in auto)
    moreover have "free_pages s1 \<subseteq> free_pages s" using p(5) by blast
    ultimately show ?case unfolding eq by (elim exE conjE disjE) (blast intro: order_trans)+
  qed
qed

text \<open>A request whose last page has no room for the header: the combined block is too small.\<close>

definition misfit :: "u64 \<Rightarrow> bool" where
  "misfit sz \<longleftrightarrow> unat sz \<le> 2 ^ 31 - 4096 \<and> 4096 \<le> unat sz + 16 \<and>
     (unat sz + 4095) div 4096 * 4096 < unat sz + 16"

lemma CombineBlocks_starved:
  assumes st: "starved sz xs s" and sz: "misfit sz"
  shows "(\<exists>s'. CombineBlocks sz s = Inl (Panicked ''No free mem left!'', s')) \<or>
    (\<exists>s' q. CombineBlocks sz s = Inr (KSTATUS_SUCCESS, s') \<and> starved sz (q # xs) s' \<and>
      free_pages s' \<subset> free_pages s)"
  using starved_alloc [OF st]
proof (elim disjE exE conjE)
  fix s' assume "PageAlloc s = Inl (Panicked ''No free mem left!'', s')"
  then show ?thesis by (simp add: CombineBlocks_def)
next
  fix q s1 assume q: "PageAlloc s = Inr (q, s1)" "q \<noteq> 0" "starved sz xs s1" "clear_of s1 q"
    "\<forall>x \<in> set xs. bytes q 16 \<inter> bytes x 16 = {}" "free_pages s1 = free_pages s - {q}" "q \<in> free_pages s"
  let ?n = "(unat sz + 4095) div 4096"
  from combine_loop_starved [OF q(3,4), of 0] sz obtain r where r: "combine_loop sz q 0 0 s1 = Some r"
    "out_of_memory r \<or> (\<exists>s'. r = Inr (Some ?n, s') \<and> starved sz xs s' \<and> clear_of s' q \<and> free_pages s' \<subseteq> free_pages s1)"
    by (auto simp: misfit_def)
  from r(2) show ?thesis
  proof (elim disjE exE conjE)
    assume "out_of_memory r"
    with q(1) r(1) show ?thesis by (auto simp: CombineBlocks_def out_of_memory_def)
  next
    fix s2 assume s2: "r = Inr (Some ?n, s2)" "starved sz xs s2" "clear_of s2 q" "free_pages s2 \<subseteq> free_pages s1"
    let ?s3 = "CreateNode q (of_nat (?n * 4096)) s2"
    have "?n * 4096 < 2 ^ 31" using sz by (simp add: misfit_def)
    then have c: "CombineBlocks sz s = Inr (KSTATUS_SUCCESS, ?s3)"
      using q(1) r(1) s2(1) by (simp add: CombineBlocks_def)
    have out: "mem ?s3 x = mem s2 x" if "x \<notin> bytes q 16" for x using that by (rule CreateNode_header(3))
    have "alloc_ok (s2\<lparr>mem := mem ?s3\<rparr>) \<and> free_pages (s2\<lparr>mem := mem ?s3\<rparr>) = free_pages s2 \<and> table_bytes (s2\<lparr>mem := mem ?s3\<rparr>) = table_bytes s2"
      using s2(2,3) by (intro pages.client_write out) (auto simp: starved_def clear_of_def)
    then have cw: "alloc_ok ?s3" "free_pages ?s3 = free_pages s2" "table_bytes ?s3 = table_bytes s2"
      by (subst CreateNode_state, simp add: alloc_defs)+
    have keep: "mem ?s3 x = mem s2 x" if "y \<in> set xs" "x \<in> bytes y 16" for x y
      using that q(5) by (intro out) (meson disjoint_iff)
    have "chain 8 (mem ?s3) (head_next ?s3) (q # xs)"
      using heap_nodes.chain_push [of "mem s2" "head_next s2" xs q "mem ?s3"] keep s2(2) q(2)
        CreateNode_header(2) [of q "of_nat (?n * 4096)" s2]
      by (simp add: starved_def hn_next_def CreateNode_def)
    moreover have "\<not> 16 + sz \<le> hn_size (mem ?s3) q"
      using sz by (simp add: CreateNode_header(1) misfit_def word_le_nat_alt unat_word_ariths unat_of_nat)
    moreover have "hn_size (mem ?s3) x = hn_size (mem s2) x" if "x \<in> set xs" for x
      using keep [OF that] by (rule header_unchanged)
    moreover have "serial_ready ?s3" using s2(2) by (simp add: starved_def serial_ready_def CreateNode_def)
    ultimately have "starved sz (q # xs) ?s3"
      using s2(2,3) cw by (simp add: starved_def clear_of_def)
    with c cw(2) s2(4) q(6,7) show ?thesis by blast
  qed
qed

lemma find_loop_starved:
  assumes "starved sz xs s" and "misfit sz"
  shows "\<exists>s'. find_loop sz Head s = Some (Inl (Panicked ''No free mem left!'', s'))"
  using assms(1)
proof (induction "card (free_pages s)" arbitrary: xs s rule: less_induct)
  case less
  let ?cur = "if xs = [] then Head else Node (last xs)"
  have w: "find_loop sz Head s = find_loop sz ?cur s" "next_of ?cur s = 0"
    using find_loop_walk [of s Head xs sz] less.prems by (auto simp: starved_def)
  have big: "4096 \<le> sz + 16" using assms(2) by (simp add: misfit_def word_le_nat_alt unat_word_ariths)
  from CombineBlocks_starved [OF less.prems assms(2)] show ?case
  proof (elim disjE exE conjE)
    fix s' assume "CombineBlocks sz s = Inl (Panicked ''No free mem left!'', s')"
    then show ?case using w(2) big unfolding w(1) by (subst find_loop.simps) (simp add: refill_def)
  next
    fix s' q assume s': "CombineBlocks sz s = Inr (KSTATUS_SUCCESS, s')" "starved sz (q # xs) s'" "free_pages s' \<subset> free_pages s"
    have "find_loop sz Head s = find_loop sz Head s'"
      using w(2) big s'(1) unfolding w(1)
      by (subst find_loop.simps) (simp add: refill_def KSTATUS_SUCCESS_def KSTATUS_FAIL_def)
    moreover have "card (free_pages s') < card (free_pages s)"
      using pages.avail_finite [of s] less.prems s'(3) by (intro psubset_card_mono) (auto simp: starved_def)
    ultimately show ?case using less.hyps [OF _ s'(2)] by simp
  qed
qed

section \<open>The three operations on the two lists\<close>

lemma malloc_fit:
  assumes "heap_ok s fr lv" and "first_fit (16 + unat sz) fr = Some (b, fr')"
    and "snd b = 16 + unat sz \<or> 32 + unat sz \<le> snd b"
  shows "\<exists>s'. malloc sz s = Inr (fst b + 16, s') \<and>
    heap_ok s' (leftover (16 + unat sz) b @ fr') ((fst b, 16 + unat sz) # lv) \<and>
    (\<forall>x. x \<notin> \<Union> (blk ` set fr) \<longrightarrow> mem s' x = mem s x)"
proof -
  from FindAndRemoveNode_fit [OF assms(1,2)] obtain s1 where s1: "FindAndRemoveNode sz s = Inr (fst b, s1)"
    "heap_ok s1 fr' ((fst b, snd b) # lv)" "b \<in> set fr" "\<forall>x. x \<notin> \<Union> (blk ` set fr) \<longrightarrow> mem s1 x = mem s x" by auto
  from malloc_found [OF s1(1,2) assms(3)] s1(3,4) show ?thesis by fastforce
qed

lemma malloc_page:
  assumes "heap_ok s [] lv" and "free_pages s \<noteq> {}" and "unat sz \<le> 4064"
  shows "\<exists>p s1 s'. PageAlloc s = Inr (p, s1) \<and> p \<in> free_pages s \<and> malloc sz s = Inr (p + 16, s') \<and>
    heap_ok s' [(p + of_nat (16 + unat sz), 4096 - (16 + unat sz))] ((p, 16 + unat sz) # lv) \<and>
    free_pages s' = free_pages s - {p} \<and>
    (\<forall>x. x \<notin> bytes p 4096 \<longrightarrow> x \<notin> table_bytes s \<longrightarrow> mem s' x = mem s x) \<and>
    (\<forall>x. x \<notin> bytes p 4096 \<longrightarrow> mem s' x = mem s1 x)"
proof -
  from heap_new_page [OF assms(1,2)] obtain p s1 where p: "PageAlloc s = Inr (p, s1)" "p \<in> free_pages s" "p \<noteq> 0"
    "head_next s1 = head_next s" "heap_ok (CreateNode p 4096 s1) [(p, 4096)] lv"
    "free_pages (CreateNode p 4096 s1) = free_pages s - {p}"
    "\<forall>x. x \<notin> bytes p 4096 \<longrightarrow> x \<notin> table_bytes s \<longrightarrow> mem (CreateNode p 4096 s1) x = mem s x" by blast
  let ?s2 = "CreateNode p 4096 s1"
  have sm: "unat (16 + sz) = 16 + unat sz" using assms(3) by (simp add: unat_word_ariths)
  have h0: "head_next s = 0" using assms(1) by (simp add: heap_ok_def)
  have sm': "\<not> 4096 \<le> sz + 16" using sm assms(3) by (simp add: word_le_nat_alt add.commute [of sz])
  have "next_of Head ?s2 = p" by (simp add: CreateNode_def)
  then have "find_loop sz Head s = find_loop sz Head ?s2"
    using h0 p(1,3) sm' by (subst (1 2) find_loop.simps) (simp add: refill_def)
  moreover have fit: "first_fit (16 + unat sz) [(p, 4096)] = Some ((p, 4096), [])" using assms(3) by simp
  moreover note f = FindAndRemoveNode_fit [OF p(5) fit]
  ultimately obtain s3 where s3: "FindAndRemoveNode sz s = Inr (p, s3)" "heap_ok s3 [] ((p, 4096) # lv)"
    "free_pages s3 = free_pages ?s2" "\<forall>x. x \<notin> bytes p 4096 \<longrightarrow> mem s3 x = mem ?s2 x"
    by (auto simp: FindAndRemoveNode_def split: option.splits)
  have new: "mem ?s2 x = mem s1 x" if "x \<notin> bytes p 4096" for x
    using that page_head [of p] by (intro CreateNode_header(3)) blast
  from malloc_found [OF s3(1,2)] assms(3) obtain s4 where "malloc sz s = Inr (p + 16, s4)"
    "heap_ok s4 [(p + of_nat (16 + unat sz), 4096 - (16 + unat sz))] ((p, 16 + unat sz) # lv)"
    "free_pages s4 = free_pages s3" "\<forall>x. x \<notin> bytes p 4096 \<longrightarrow> mem s4 x = mem s3 x"
    by (auto simp: leftover_def)
  with p(1,2,6,7) s3(3,4) new show ?thesis by (intro exI [of _ p] exI [of _ s1] exI [of _ s4]) auto
qed

lemma free_block:
  assumes "heap_ok s fr (lv @ b # lv')"
  shows "heap_ok (free (fst b + 16) s) (b # fr) (lv @ lv') \<and>
    free_pages (free (fst b + 16) s) = free_pages s \<and>
    (\<forall>x. x \<notin> blk b \<longrightarrow> mem (free (fst b + 16) s) x = mem s x)"
proof -
  have bin: "b \<in> set (fr @ lv @ b # lv')" by simp
  from heap_blockD [OF assms bin] have b: "block_ok s b" "hn_size (mem s) (fst b) = of_nat (snd b)" by simp_all
  then have f: "free (fst b + 16) s = CreateNode (fst b) (of_nat (snd b)) s" by (simp add: free_def)
  have dist: "distinct (fr @ lv @ b # lv')" using assms by (simp add: heap_ok_def blocks_apart_def)
  have "heap_ok s fr (lv @ lv')"
    by (rule heap_ok_transfer [OF assms]) (use assms dist in \<open>auto simp: heap_ok_def\<close>)
  moreover have "blk b \<inter> blk c = {}" if "c \<in> set (fr @ lv @ lv')" for c
    using that dist by (intro heap_apartD [OF assms bin]) auto
  ultimately show ?thesis using heap_ok_CreateNode [OF _ b(1)] unfolding f by blast
qed

text \<open>
  A concrete heap: the page allocator of the small machine and an empty free list, and the
  heap after a first \<open>malloc(100)\<close>.
\<close>

definition demo_heap :: heap where
  "demo_heap = allocator.extend demo_alloc (heap.fields 0)"

definition demo_heap1 :: heap where
  "demo_heap1 = (case malloc 100 demo_heap of Inl (_, s) \<Rightarrow> s | Inr (_, s) \<Rightarrow> s)"

lemma demo_heap_frames: "frame_table demo_heap = frame_table demo_alloc" "FrameList demo_heap = FrameList demo_alloc"
  "device demo_heap = device demo_alloc"
  by (simp_all add: demo_heap_def allocator.defs heap.defs frame_table_def nframes_def)

lemma demo_heap_ok: "heap_ok demo_heap [] []" "free_pages demo_heap = {0x101000, 0x102000, 0x103000, 0x104000}"
proof -
  show "heap_ok demo_heap [] []"
    using demo_table(2) by (simp add: heap_ok_def alloc_ok_def demo_heap_frames blocks_apart_def)
      (simp add: demo_heap_def allocator.defs heap.defs)
  show "free_pages demo_heap = {0x101000, 0x102000, 0x103000, 0x104000}"
    using free_pages_demo by (simp add: free_pages_def demo_heap_frames)
qed

lemma demo_heap1_ok:
  "malloc 100 demo_heap = Inr (0x101010, demo_heap1)"
  "heap_ok demo_heap1 [(0x101074, 3980)] [(0x101000, 116)]"
  "free_pages demo_heap1 = {0x102000, 0x103000, 0x104000}"
proof -
  have "alloc_ok demo_heap" using demo_heap_ok(1) by (simp add: heap_ok_def)
  then obtain s1 where "PageAlloc demo_heap = Inr (0x101000, s1)"
    using PageAlloc_table [of demo_heap] by (auto simp: demo_heap_frames demo_table Let_def)
  with malloc_page [OF demo_heap_ok(1), of 100] demo_heap_ok(2)
  obtain s' where s': "malloc 100 demo_heap = Inr (0x101000 + 16, s')"
    "heap_ok s' [(0x101000 + of_nat 116, 4096 - 116)] [(0x101000, 116)]"
    "free_pages s' = free_pages demo_heap - {0x101000}" by auto
  then have "s' = demo_heap1" by (simp add: demo_heap1_def)
  with s' demo_heap_ok(2) show "malloc 100 demo_heap = Inr (0x101010, demo_heap1)"
    "heap_ok demo_heap1 [(0x101074, 3980)] [(0x101000, 116)]"
    "free_pages demo_heap1 = {0x102000, 0x103000, 0x104000}" by auto
qed

text \<open>The owner of a live block may write what it likes behind the header.\<close>

lemma heap_ok_write:
  assumes ok: "heap_ok s fr (b # lv)" and m: "\<And>x. x \<notin> bytes (fst b + 16) (snd b - 16) \<Longrightarrow> m x = mem s x"
  shows "heap_ok (s\<lparr>mem := m\<rparr>) fr (b # lv)" and "free_pages (s\<lparr>mem := m\<rparr>) = free_pages s"
proof -
  have b: "block_ok s b" "hn_size (mem s) (fst b) = of_nat (snd b)" using heap_blockD [OF ok, of b] by simp_all
  have sub: "bytes (fst b + 16) (snd b - 16) \<subseteq> blk b"
    using subrange [of 16 "snd b - 16" "snd b" "fst b"] block_okD(1,5) [OF b(1)] by simp
  have apart: "blk b \<inter> blk c = {}" if "c \<in> set (fr @ lv)" for c
    using that ok by (intro heap_apartD [OF ok]) (auto simp: heap_ok_def blocks_apart_def)
  have tab: "m x = mem s x" if "x \<in> table_bytes s" for x
    using that sub block_okD(4) [OF b(1)] by (intro m) auto
  have cw: "free_pages (s\<lparr>mem := m\<rparr>) = free_pages s" "table_bytes (s\<lparr>mem := m\<rparr>) = table_bytes s"
    using pages.client_write [of s m] ok tab by (auto simp: heap_ok_def)
  then show "free_pages (s\<lparr>mem := m\<rparr>) = free_pages s" by simp
  have "heap_ok (s\<lparr>mem := m\<rparr>) fr lv"
  proof (rule heap_ok_frame [OF ok])
    show "m x = mem s x" if "c \<in> set (fr @ lv)" "x \<in> blk c" for c x
      using apart [OF that(1)] that(2) sub by (intro m) blast
  qed (use ok tab in \<open>auto simp: heap_ok_def blocks_apart_def\<close>)
  moreover have "hn_size m (fst b) = hn_size (mem s) (fst b)"
    using fields_disjoint [of 0 16 16 "snd b - 16" "fst b"] block_okD(1,5) [OF b(1)]
    by (intro header_unchanged m) auto
  moreover have "block_ok (s\<lparr>mem := m\<rparr>) b" using b(1) cw by (simp add: block_ok_def)
  ultimately show "heap_ok (s\<lparr>mem := m\<rparr>) fr (b # lv)" using apart b(2) by (intro heap_ok_add_live) auto
qed

text \<open>What \<open>_alloc\<close> does with a block when something of it is left over.\<close>

lemma cut_block_headers:
  assumes "bytes a 8 \<inter> bytes e 16 = {}"
  shows "head_next (cut_block a e extra s) = e" and "hn_size (mem (cut_block a e extra s)) e = extra"
    and "hn_next (mem (cut_block a e extra s)) e = head_next s"
proof -
  let ?s1 = "CreateNode e extra s"
  have "hn_size (store64 (mem ?s1) a v) e = hn_size (mem ?s1) e" "hn_next (store64 (mem ?s1) a v) e = hn_next (mem ?s1) e" for v
    by (rule header_unchanged, rule store_le_outside, use assms in blast)+
  then show "head_next (cut_block a e extra s) = e" "hn_size (mem (cut_block a e extra s)) e = extra"
    "hn_next (mem (cut_block a e extra s)) e = head_next s"
    by (simp_all add: cut_block_def Let_def CreateNode_header) (simp add: CreateNode_def)
qed

section \<open>The variables the heap functions touch\<close>

text \<open>
  The heap functions touch memory and the list head, and no other variable. \<open>framed s r\<close>: if the
  operation returns, its final state differs from \<open>s\<close> in these two at most.
\<close>

definition heap_frame :: "'z heap_scheme \<Rightarrow> 'z heap_scheme \<Rightarrow> bool" where
  "heap_frame s s' \<longleftrightarrow> (\<exists>m h. s' = s\<lparr>mem := m, head_next := h\<rparr>)"

definition framed :: "'z heap_scheme \<Rightarrow> ('a, 'z heap_scheme) res \<Rightarrow> bool" where
  "framed s r \<longleftrightarrow> (\<forall>x t. r = Inr (x, t) \<longrightarrow> heap_frame s t)"

lemma heap_frame_refl [simp]: "heap_frame s s"
  unfolding heap_frame_def by (intro exI [of _ "mem s"] exI [of _ "head_next s"]) simp

lemma heap_frame_step:
  assumes "heap_frame s t" and "u = t\<lparr>mem := m, head_next := h\<rparr>"
  shows "heap_frame s u"
proof -
  from assms(1) obtain m' h' where "t = s\<lparr>mem := m', head_next := h'\<rparr>" unfolding heap_frame_def by blast
  then have "u = s\<lparr>mem := m, head_next := h\<rparr>" by (simp add: assms(2))
  then show ?thesis unfolding heap_frame_def by blast
qed

lemma heap_frame_mem: "heap_frame s t \<Longrightarrow> heap_frame s (t\<lparr>mem := m\<rparr>)"
  by (erule heap_frame_step [where m = m and h = "head_next t"]) simp

lemma heap_frame_head: "heap_frame s t \<Longrightarrow> heap_frame s (t\<lparr>head_next := h\<rparr>)"
  by (erule heap_frame_step [where m = "mem t" and h = h]) simp

lemma heap_frame_trans: "heap_frame s s' \<Longrightarrow> heap_frame s' s'' \<Longrightarrow> heap_frame s s''"
  unfolding heap_frame_def [of s'] by (elim exE) (rule heap_frame_step)

lemma heap_frame_CreateNode: "heap_frame s t \<Longrightarrow> heap_frame s (CreateNode a sz t)"
  unfolding CreateNode_def Let_def by (intro heap_frame_mem heap_frame_head)

lemma heap_frame_set_next: "heap_frame s t \<Longrightarrow> heap_frame s (set_next c p t)"
  by (cases c) (simp_all add: heap_frame_mem heap_frame_head)

lemma heap_frame_free_down: "heap_frame s t \<Longrightarrow> heap_frame s (free_down a n t)"
  by (induction a n t rule: free_down.induct) (simp_all add: PageFree_def heap_frame_mem)

lemma framed_Inl [simp]: "framed s (Inl e)"
  by (simp add: framed_def)

lemma framed_Inr [simp]: "framed s (Inr (x, t)) \<longleftrightarrow> heap_frame s t"
  by (simp add: framed_def)

lemma framed_bind: "framed s r \<Longrightarrow> (\<And>x t. heap_frame s t \<Longrightarrow> framed s (f x t)) \<Longrightarrow> framed s (bindR r f)"
  by (auto simp: framed_def bindR_def split: sum.splits)

lemma framed_trans: "heap_frame s t \<Longrightarrow> framed t r \<Longrightarrow> framed s r"
  unfolding framed_def by (blast intro: heap_frame_trans)

lemma framed_PageAlloc: "heap_frame s t \<Longrightarrow> framed s (PageAlloc t)"
  by (auto simp: PageAlloc_def framed_def heap_frame_mem split: option.splits)

lemma framed_combine_loop: "combine_loop sz a i n s = Some r \<Longrightarrow> framed s r"
proof (erule combine_loop.raw_induct [of "\<lambda>sz a i n s r. framed s r", rotated])
  fix loop :: "u64 \<Rightarrow> addr \<Rightarrow> u64 \<Rightarrow> nat \<Rightarrow> 'a heap_scheme \<Rightarrow> (nat option, 'a heap_scheme) res option"
    and sz a i n r and s :: "'a heap_scheme"
  assume IH: "\<And>sz a i n s r. loop sz a i n s = Some r \<Longrightarrow> framed s r"
    and "(if i < sz then (case PageAlloc s of Inl e \<Rightarrow> Some (Inl e) | Inr (p, s) \<Rightarrow>
        if p = 0 then Some (Inr (None, free_down a n s)) else loop sz a (i + 4096) (Suc n) s)
      else Some (Inr (Some n, s))) = Some r"
  with framed_PageAlloc [of s s] show "framed s r"
    by (auto simp: framed_def [of s "PageAlloc s"] heap_frame_free_down split: if_splits sum.splits intro: framed_trans [OF _ IH])
qed

lemma framed_CombineBlocks: "framed s (CombineBlocks sz s)"
  unfolding CombineBlocks_def
proof (intro framed_bind framed_PageAlloc heap_frame_refl)
  fix x and t :: "'a heap_scheme"
  assume "heap_frame s t"
  then show "framed s (case combine_loop sz x 0 0 t of None \<Rightarrow> Inl (Endless, t) | Some r \<Rightarrow> r)"
    by (auto split: option.splits intro: framed_trans framed_combine_loop)
qed (auto split: option.splits intro: heap_frame_CreateNode)

lemma framed_refill: "framed s (refill sz c s)"
  unfolding refill_def
  by (auto intro!: framed_bind framed_PageAlloc framed_CombineBlocks heap_frame_CreateNode)

lemma framed_find_loop: "find_loop sz c s = Some r \<Longrightarrow> framed s r"
proof (erule find_loop.raw_induct [of "\<lambda>sz c s r. framed s r", rotated])
  fix loop :: "u64 \<Rightarrow> cursor \<Rightarrow> 'a heap_scheme \<Rightarrow> (addr, 'a heap_scheme) res option"
    and sz c r and s :: "'a heap_scheme"
  assume IH: "\<And>sz c s r. loop sz c s = Some r \<Longrightarrow> framed s r"
    and "(case refill sz c s of Inl e \<Rightarrow> Some (Inl e) | Inr (v, s) \<Rightarrow>
        if v = GiveUp then Some (Inr (0, s)) else if v = Restart then loop sz Head s
        else let nx = next_of c s in if nx = 0 then Some (Inl (NullDeref, s))
          else if 16 + sz \<le> hn_size (mem s) nx then Some (Inr (nx, set_next c (hn_next (mem s) nx) s))
          else loop sz (Node nx) s) = Some r"
  with framed_refill [of s sz c] show "framed s r"
    by (auto simp: framed_def [of s "refill sz c s"] Let_def heap_frame_set_next split: if_splits sum.splits intro: framed_trans [OF _ IH])
qed

lemma framed_malloc: "framed s (malloc sz s)"
  unfolding malloc_def int_alloc_def FindAndRemoveNode_def
proof (rule framed_bind)
  show "framed s (case find_loop (sz + (1 - 1)) Head s of None \<Rightarrow> Inl (Endless, s) | Some r \<Rightarrow> r)"
    by (auto split: option.splits intro: framed_find_loop)
qed (auto simp: Let_def intro: heap_frame_mem heap_frame_CreateNode)

lemma malloc_frame: "malloc sz s = Inr (p, s') \<Longrightarrow> \<exists>m h. s' = s\<lparr>mem := m, head_next := h\<rparr>"
  using framed_malloc [of s sz] by (simp add: framed_def heap_frame_def)

section \<open>Properties\<close>



text \<open>
  On an empty free list \<open>malloc\<close> of up to 4064 bytes takes one page from the page
  allocator, hands out its front and keeps its rear as the only free block.
\<close>

theorem malloc_fresh_page:
  assumes "heap_ok s [] lv" and "free_pages s \<noteq> {}" and "unat sz \<le> 4064"
  shows "\<exists>p \<in> free_pages s. \<exists>s'. malloc sz s = Inr (p + 16, s') \<and>
    heap_ok s' [(p + of_nat (16 + unat sz), 4096 - (16 + unat sz))] ((p, 16 + unat sz) # lv) \<and>
    free_pages s' = free_pages s - {p} \<and>
    (\<forall>x. x \<notin> bytes p 4096 \<longrightarrow> x \<notin> table_bytes s \<longrightarrow> mem s' x = mem s x)"
  using malloc_page [OF assms] by blast

theorem malloc_fresh_page_witness:
  "\<exists>p \<in> free_pages demo_heap. \<exists>s'. malloc 4064 demo_heap = Inr (p + 16, s') \<and>
     heap_ok s' [(p + 4080, 16)] [(p, 4080)]"
  using malloc_fresh_page [OF demo_heap_ok(1), of 4064] by (auto simp: demo_heap_ok(2))

text \<open>
  C32: \<open>free\<close> of a live block puts exactly that block in front of the free list and changes
  no byte outside it; all other live blocks stay live.
\<close>

theorem free_returns_block:
  assumes "heap_ok s fr (lv @ b # lv')"
  shows "heap_ok (free (fst b + 16) s) (b # fr) (lv @ lv') \<and>
    free_pages (free (fst b + 16) s) = free_pages s \<and>
    (\<forall>x. x \<notin> blk b \<longrightarrow> mem (free (fst b + 16) s) x = mem s x)"
  using assms by (rule free_block)

theorem free_returns_block_witness:
  "heap_ok (free 0x101010 demo_heap1) [(0x101000, 116), (0x101074, 3980)] []"
  using free_returns_block [of demo_heap1 "[(0x101074, 3980)]" "[]" "(0x101000, 116)" "[]"] demo_heap1_ok(2) by simp

text \<open>
  Allocating the size just freed gives the same memory back and leaves the free list
  as it was.
\<close>

theorem free_malloc_roundtrip:
  assumes "heap_ok s fr ((a, 16 + unat sz) # lv)"
  shows "\<exists>s'. malloc sz (free (a + 16) s) = Inr (a + 16, s') \<and> heap_ok s' fr ((a, 16 + unat sz) # lv) \<and>
    (\<forall>x. x \<notin> \<Union> (blk ` set ((a, 16 + unat sz) # fr)) \<longrightarrow> mem s' x = mem s x)"
proof -
  from free_block [of s fr "[]" "(a, 16 + unat sz)" lv] assms
  have f: "heap_ok (free (a + 16) s) ((a, 16 + unat sz) # fr) lv"
    "\<forall>x. x \<notin> bytes a (16 + unat sz) \<longrightarrow> mem (free (a + 16) s) x = mem s x" by auto
  from malloc_fit [OF f(1), of sz "(a, 16 + unat sz)" fr] f(2) show ?thesis by (auto simp: leftover_def)
qed

theorem free_malloc_roundtrip_witness:
  "\<exists>s'. malloc 100 (free 0x101010 demo_heap1) = Inr (0x101010, s') \<and>
     heap_ok s' [(0x101074, 3980)] [(0x101000, 116)]"
  using free_malloc_roundtrip [of demo_heap1 "[(0x101074, 3980)]" "0x101000" 100 "[]"] demo_heap1_ok(2) by auto

text \<open>
  \<open>calloc\<close> behaves as \<open>malloc\<close> and the memory it returns is zero.
\<close>

theorem calloc_zeroed:
  assumes "heap_ok s fr lv" and "first_fit (16 + unat sz) fr = Some (b, fr')"
    and "snd b = 16 + unat sz \<or> 32 + unat sz \<le> snd b"
  shows "\<exists>s'. calloc sz s = Inr (fst b + 16, s') \<and>
    heap_ok s' (leftover (16 + unat sz) b @ fr') ((fst b, 16 + unat sz) # lv) \<and>
    (\<forall>x \<in> bytes (fst b + 16) (unat sz). mem s' x = 0) \<and>
    (\<forall>x. x \<notin> \<Union> (blk ` set fr) \<longrightarrow> mem s' x = mem s x)"
proof -
  from malloc_fit [OF assms] obtain s1 where s1: "malloc sz s = Inr (fst b + 16, s1)"
    "heap_ok s1 (leftover (16 + unat sz) b @ fr') ((fst b, 16 + unat sz) # lv)"
    "\<forall>x. x \<notin> \<Union> (blk ` set fr) \<longrightarrow> mem s1 x = mem s x" by blast
  let ?m = "if fst b + 16 \<noteq> 0 then memset (mem s1) (fst b + 16) 0 sz else mem s1"
  have new: "block_ok s1 (fst b, 16 + unat sz)" using heap_blockD [OF s1(2)] by simp
  have ret: "calloc sz s = Inr (fst b + 16, s1\<lparr>mem := ?m\<rparr>)" by (simp add: calloc_def s1(1))
  have ok: "heap_ok (s1\<lparr>mem := ?m\<rparr>) (leftover (16 + unat sz) b @ fr') ((fst b, 16 + unat sz) # lv)"
    by (rule heap_ok_write(1) [OF s1(2)]) (simp add: memset_outside)
  have nz: "fst b + 16 \<noteq> 0" if "sz \<noteq> 0"
  proof -
    have "0 < unat sz" using that by (simp add: unat_gt_0)
    then have "unat (fst b) + 16 < 2 ^ 64" using block_okD(2) [OF new] by simp
    then have "unat (fst b + 16) = unat (fst b) + 16" by (simp add: unat_word_ariths)
    then show ?thesis by (auto simp: unat_eq_0)
  qed
  have zero: "?m x = 0" if x: "x \<in> bytes (fst b + 16) (unat sz)" for x
    using x nz by (cases "sz = 0") (simp_all add: memset_apply)
  from assms(2) obtain ys zs where "fr = ys @ b # zs" by (rule first_fit_Some)
  then have b: "b \<in> set fr" by simp
  have "bytes (fst b + 16) (unat sz) \<subseteq> blk b"
    using subrange [of 16 "unat sz" "snd b" "fst b"] assms(3) heap_blockD [OF assms(1), of b] block_okD(5) [of s b] b by auto
  with b have "x \<in> \<Union> (blk ` set fr)" if "x \<in> bytes (fst b + 16) (unat sz)" for x using that by blast
  with s1(3) have "?m x = mem s x" if "x \<notin> \<Union> (blk ` set fr)" for x
    using that by (auto simp: memset_apply)
  with ret ok zero show ?thesis by auto
qed

theorem calloc_zeroed_witness:
  "\<exists>s'. calloc 1000 demo_heap1 = Inr (0x101084, s') \<and> (\<forall>x \<in> bytes 0x101084 1000. mem s' x = 0)"
  using calloc_zeroed [OF demo_heap1_ok(2), of 1000 "(0x101074, 3980)" "[]"] by auto

text \<open>
  When the free list is not empty but no block fits, a request of less than a page ends
  in a null pointer dereference: the fresh page is linked at the head of the list, while the
  search goes on reading the link of the last node, which is still null.
\<close>

theorem malloc_null_deref:
  assumes "heap_ok s fr lv" and "fr \<noteq> []" and "first_fit (16 + unat sz) fr = None"
    and "unat sz < 4080" and "free_pages s \<noteq> {}"
  shows "\<exists>s'. malloc sz s = Inl (NullDeref, s')"
  using find_loop_miss_null [OF assms] by (auto simp: malloc_def int_alloc_def FindAndRemoveNode_def)

theorem malloc_null_deref_witness: "\<exists>s'. malloc 4000 demo_heap1 = Inl (NullDeref, s')"
  using malloc_null_deref [OF demo_heap1_ok(2), of 4000] by (simp add: demo_heap1_ok(3))



text \<open>
  When 1 to 15 bytes of a block are left over, \<open>malloc\<close> still makes a node of them, whose
  16-byte header reaches behind the end of the block: the write damages what follows.
\<close>

theorem malloc_small_rest_overruns:
  assumes "heap_ok s fr lv" and "first_fit (16 + unat sz) fr = Some (b, fr')"
    and "16 + unat sz < snd b" and "snd b < 32 + unat sz" and "unat (fst b) + 32 + unat sz \<le> 2 ^ 64"
  shows "\<exists>s'. malloc sz s = Inr (fst b + 16, s') \<and> head_next s' = fst b + of_nat (16 + unat sz) \<and>
    hn_size (mem s') (head_next s') = of_nat (snd b - (16 + unat sz)) \<and> \<not> bytes (head_next s') 16 \<subseteq> blk b"
proof -
  from FindAndRemoveNode_fit [OF assms(1,2)] obtain s1 where s1: "FindAndRemoveNode sz s = Inr (fst b, s1)"
    "heap_ok s1 fr' ((fst b, snd b) # lv)" by auto
  let ?e = "fst b + of_nat (16 + unat sz) :: addr"
  from malloc_node [OF s1] assms(3) have m: "malloc sz s = Inr (fst b + 16, cut_block (fst b) ?e (of_nat (snd b - (16 + unat sz))) s1)"
    by simp
  have e: "unat ?e = unat (fst b) + (16 + unat sz)"
    using assms(5) by (simp add: unat_word_ariths unat_of_nat64)
  have "bytes (fst b) 8 \<inter> bytes ?e 16 = {}" by (rule bytes_disjoint) (use e assms(5) in auto)
  note h = cut_block_headers [OF this]
  have "?e + of_nat 15 \<in> bytes ?e 16" by (rule offset_in_bytes) simp_all
  moreover have "unat (?e + 15) = unat (fst b) + 31 + unat sz"
    using e assms(5) by (simp add: unat_word_ariths(1) [of ?e] del: of_nat_add)
  then have "?e + of_nat 15 \<notin> blk b"
    using assms(4) heap_blockD [OF s1(2), of "(fst b, snd b)"] block_okD(2) [of s1 "(fst b, snd b)"]
    by (subst bytes_unat) auto
  ultimately have "\<not> bytes ?e 16 \<subseteq> blk b" by blast
  then show ?thesis
    by (intro exI [of _ "cut_block (fst b) ?e (of_nat (snd b - (16 + unat sz))) s1"]) (simp only: m h simp_thms)
qed

theorem malloc_small_rest_overruns_witness:
  "\<exists>s'. malloc 3960 demo_heap1 = Inr (0x101084, s') \<and> \<not> bytes (head_next s') 16 \<subseteq> bytes 0x101074 3980"
  using malloc_small_rest_overruns [OF demo_heap1_ok(2), of 3960 "(0x101074, 3980)" "[]"] by auto

text \<open>
  \<open>aligned_alloc\<close> returns an aligned pointer, but when the block is not aligned by itself
  the rest it puts on the free list begins behind the padding and still has the length
  computed without it: the free block reaches behind the end of the block it was cut from.
\<close>

theorem aligned_alloc_overlap:
  assumes "heap_ok s fr lv" and "0 < al" and "first_fit (16 + (unat sz + (unat al - 1))) fr = Some (b, fr')"
    and "unat (fst b + 16) mod unat al \<noteq> 0" and "unat (fst b) + snd b + unat al + 32 < 2 ^ 64"
  shows "\<exists>s'. aligned_alloc al sz s = Inr (ALIGN_UP (fst b + 16) al, s') \<and>
    unat (ALIGN_UP (fst b + 16) al) mod unat al = 0 \<and> head_next s' = ALIGN_UP (fst b + 16) al + sz \<and>
    unat (fst b) + snd b < unat (head_next s') + unat (hn_size (mem s') (head_next s'))"
proof -
  have fit: "16 + (unat sz + (unat al - 1)) \<le> snd b" using assms(3) by (rule first_fit_Some)
  have al1: "unat (al - 1) = unat al - 1" using assms(2) by (simp add: unat_minus_one word_greater_zero_iff)
  have req: "unat (sz + (al - 1)) = unat sz + (unat al - 1)"
    using fit assms(5) al1 by (simp add: unat_word_ariths)
  from FindAndRemoveNode_fit [OF assms(1), of "sz + (al - 1)" b fr'] assms(3) req
  obtain s1 where s1: "FindAndRemoveNode (sz + (al - 1)) s = Inr (fst b, s1)" "heap_ok s1 fr' (b # lv)" by auto
  have b: "block_ok s1 b" "hn_size (mem s1) (fst b) = of_nat (snd b)" using heap_blockD [OF s1(2), of b] by simp_all
  note bd = block_okD [OF b(1)]
  let ?p = "ALIGN_UP (fst b + 16) al"
  have base: "unat (fst b + 16) = unat (fst b) + 16" using assms(5) by (simp add: unat_word_ariths)
  have p: "unat ?p = (unat (fst b) + 16 + (unat al - 1)) div unat al * unat al"
    using base assms(2,5) unat_ALIGN_UP [of al "fst b + 16"] by simp
  have pos: "0 < unat al" using assms(2) by (simp add: word_less_nat_alt)
  have "unat ?p \<noteq> unat (fst b) + 16" using assms(4) p base by (metis mod_mult_self2_is_0)
  with round_up_bounds [OF pos, of "unat (fst b) + 16", folded p]
  have pb: "unat (fst b) + 16 < unat ?p" "unat ?p < unat (fst b) + 16 + unat al" by linarith+
  have pe: "unat (?p + sz) = unat ?p + unat sz" using pb fit assms(5) by (simp add: unat_word_ariths(1) [of ?p sz])
  have pal: "2 \<le> unat al" using assms(4) pos by (cases "unat al = 1") auto
  have ex: "unat (of_nat (snd b) - 16 - sz :: u64) = snd b - 16 - unat sz"
  proof -
    have "(of_nat (snd b) - 16 - sz :: u64) = of_nat (snd b - 16 - unat sz)"
      using fit pal by (simp add: of_nat_diff)
    then show ?thesis using bd(5) by (simp only: unat_of_nat64)
  qed
  have "bytes (fst b) 8 \<inter> bytes (?p + sz) 16 = {}"
    by (rule bytes_disjoint) (use pb pe fit assms(5) in auto)
  note h = cut_block_headers [OF this]
  have "0 < (of_nat (snd b) - 16 - sz :: u64)" using ex fit pal by (simp add: word_less_nat_alt)
  then have "int_alloc sz al s = Inr (fst b + 16, cut_block (fst b) (?p + sz) (of_nat (snd b) - 16 - sz) s1)"
    using s1(1) assms(2) bd(3) b(2) by (simp add: int_alloc_def cut_block_def Let_def)
  then have "aligned_alloc al sz s = Inr (?p, cut_block (fst b) (?p + sz) (of_nat (snd b) - 16 - sz) s1)"
    using base by (auto simp: aligned_alloc_def)
  moreover have "unat (fst b) + snd b < unat (?p + sz) + unat (of_nat (snd b) - 16 - sz :: u64)"
    unfolding pe ex using pb(1) fit pal by linarith
  moreover have "unat ?p mod unat al = 0" by (simp add: p)
  ultimately show ?thesis
    by (intro exI [of _ "cut_block (fst b) (?p + sz) (of_nat (snd b) - 16 - sz) s1"]) (simp only: h simp_thms)
qed

theorem aligned_alloc_overlap_witness:
  "\<exists>s'. aligned_alloc 64 100 demo_heap1 = Inr (0x1010C0, s') \<and>
    0x102000 < unat (head_next s') + unat (hn_size (mem s') (head_next s'))"
  using aligned_alloc_overlap [OF demo_heap1_ok(2), of 64 100 "(0x101074, 3980)" "[]"] by (auto simp: ALIGN_UP_def)

end
