(* ===== verification/Paging.thy ===== *)
theory Paging
  imports Heap "HOL-Library.Sublist"
begin

text \<open>
  Page tables, \<open>mm/paging/paging.c\<close> and \<open>paging.h\<close>, with \<open>cr3load\<close> of \<open>pageloading.asm\<close>: building
  four-level page tables, the default mappings of the kernel and of a process. A table is a
  page of 512 entries of 8 bytes; the bit-fields of \<open>struct PTE\<close> are bit ranges of the entry.
  The specification is the page walk of the processor (Intel SDM vol. 3A).
\<close>

section \<open>Data\<close>

datatype PageSizes = PS_4K | PS_2M

record paging_info =
  gp_mmap :: limine_memmap_response
  gp_hhdm_base :: u64
  gp_kernelSize :: u64
  gp_kernelPhysBase :: u64
  gp_kernelVirtBase :: u64
  gp_fbBase :: addr
  gp_fbSize :: addr

record paging = heap +
  pml4 :: addr
  GlobalPagingInfo :: paging_info

text \<open>The fields of an entry that the code reads and writes.\<close>

definition Present :: "u64 \<Rightarrow> bool" where "Present e = bit e 0"
definition PageSize :: "u64 \<Rightarrow> bool" where "PageSize e = bit e 7"
definition UserSupervisor :: "u64 \<Rightarrow> bool" where "UserSupervisor e = bit e 2"
definition RW :: "u64 \<Rightarrow> bool" where "RW e = bit e 1"

definition PhysAddr :: "u64 \<Rightarrow> u64" where
  "PhysAddr e = take_bit 40 (drop_bit 12 e)"

definition set_PhysAddr :: "u64 \<Rightarrow> u64 \<Rightarrow> u64" where
  "set_PhysAddr v e = (e AND NOT (push_bit 12 (mask 40))) OR push_bit 12 (take_bit 40 v)"

definition pte :: "memory \<Rightarrow> addr \<Rightarrow> u64 \<Rightarrow> u64" where
  "pte m t i = load64 m (t + 8 * i)"

definition set_pte :: "addr \<Rightarrow> u64 \<Rightarrow> (u64 \<Rightarrow> u64) \<Rightarrow> 'z machine_scheme \<Rightarrow> 'z machine_scheme" where
  "set_pte t i f s = s\<lparr>mem := store64 (mem s) (t + 8 * i) (f (pte (mem s) t i))\<rparr>"

text \<open>
  The pointer \<open>(struct PT*)(uint64_t)(e.PhysAddr << 12)\<close>: the bit-field has a 40-bit type, and
  the compiler of the build (gcc) shifts in that type.
\<close>

definition next_ptr :: "u64 \<Rightarrow> addr" where
  "next_ptr e = take_bit 40 (push_bit 12 (PhysAddr e))"

section \<open>Operations\<close>

definition is_aligned :: "u64 \<Rightarrow> u64 \<Rightarrow> i32" where
  "is_aligned a boundary = (if a mod boundary = 0 then 1 else 0)"

text \<open>The macro \<open>assert\<close> of \<open>util/print.h\<close> prints a message and goes on.\<close>

definition assert_at :: "u64 \<Rightarrow> bool \<Rightarrow> 'z console_scheme \<Rightarrow> (unit, 'z console_scheme) res" where
  "assert_at line condition s =
     (if \<not> condition
      then printf (lit ([CHR 0x1B] @ ''[31m[!!!] Assertion failed at line %d in %s'' @ [CHR 0x1B] @ ''[0m'' @ newline))
             [Num line, Str (lit ''src/mm/paging/paging.c'')] s
      else Inr ((), s))"

definition GetEntryNextLevel :: "addr \<Rightarrow> u64 \<Rightarrow> 'z heap_scheme \<Rightarrow> (addr, 'z heap_scheme) res" where
  "GetEntryNextLevel curr_level entry s =
     (if curr_level = 0 then Inr (0, s)
      else if \<not> Present (pte (mem s) curr_level entry)
      then bindR (PageAlloc s) (\<lambda>newalloc s.
           bindR (assert_at 82 (is_aligned newalloc 4096 \<noteq> 0) s) (\<lambda>_ s.
           let s = set_pte curr_level entry (set_PhysAddr (drop_bit 12 newalloc)) s;
               s = set_pte curr_level entry (set_bit 0) s;
               s = set_pte curr_level entry (set_bit 1) s
           in Inr (newalloc, s)))
      else Inr (next_ptr (pte (mem s) curr_level entry), s))"

definition MapMemory ::
    "addr \<Rightarrow> u64 \<Rightarrow> u64 \<Rightarrow> PageSizes \<Rightarrow> bool \<Rightarrow> 'z heap_scheme \<Rightarrow> (KSTATUS, 'z heap_scheme) res" where
  "MapMemory tgtPml4 virt phys sz user s =
     bindR (assert_at 107 (is_aligned virt 4096 \<noteq> 0) s) (\<lambda>_ s.
     bindR (assert_at 108 (is_aligned phys 4096 \<noteq> 0) s) (\<lambda>_ s.
     let pml4_entry = drop_bit 39 (virt AND push_bit 39 0x1FF);
         pdpt_entry = drop_bit 30 (virt AND push_bit 30 0x1FF);
         pd_entry = drop_bit 21 (virt AND push_bit 21 0x1FF);
         pt_entry = drop_bit 12 (virt AND push_bit 12 0x1FF)
     in
     bindR (GetEntryNextLevel tgtPml4 pml4_entry s) (\<lambda>pdpt s.
     bindR (if sz = PS_2M
            then bindR (GetEntryNextLevel pdpt pdpt_entry s) (\<lambda>t s. Inr ((t, pd_entry), s))
            else bindR (GetEntryNextLevel pdpt pdpt_entry s) (\<lambda>pd s.
                 bindR (GetEntryNextLevel pd pd_entry s) (\<lambda>pt s. Inr ((pt, pt_entry), s))))
       (\<lambda>(t, index) s.
     if t = 0 then Inr (KSTATUS_FAIL, s)
     else
       let s = set_pte t index (set_bit 0) s;
           s = set_pte t index (set_bit 1) s;
           s = set_pte t index (set_PhysAddr (drop_bit 12 phys)) s;
           s = (if sz = PS_2M then set_pte t index (set_bit 7) s else s);
           s = (if user then set_pte t index (set_bit 2) s else s)
       in Inr (KSTATUS_SUCCESS, s)))))"

text \<open>
  The counting loops \<open>for (i = first; i < limit; i += step)\<close>. The counter is a 64-bit word and
  may wrap around, so a loop need not end; then the value is \<open>None\<close>.
\<close>

partial_function (option) for_up ::
    "u64 \<Rightarrow> u64 \<Rightarrow> (u64 \<Rightarrow> 's \<Rightarrow> (unit, 's) res) \<Rightarrow> u64 \<Rightarrow> 's \<Rightarrow> (unit, 's) res option" where
  "for_up limit step body i s =
     (if i < limit
      then (case body i s of
          Inl e \<Rightarrow> Some (Inl e)
        | Inr (_, s) \<Rightarrow> for_up limit step body (i + step) s)
      else Some (Inr ((), s)))"

definition for_loop ::
    "u64 \<Rightarrow> u64 \<Rightarrow> u64 \<Rightarrow> (u64 \<Rightarrow> 's \<Rightarrow> (unit, 's) res) \<Rightarrow> 's \<Rightarrow> (unit, 's) res" where
  "for_loop first limit step body s =
     (case for_up limit step body first s of None \<Rightarrow> Inl (Endless, s) | Some r \<Rightarrow> r)"

text \<open>A call of \<open>MapMemory\<close> as a statement: its status is dropped.\<close>

definition map_page ::
    "addr \<Rightarrow> u64 \<Rightarrow> u64 \<Rightarrow> PageSizes \<Rightarrow> bool \<Rightarrow> 'z heap_scheme \<Rightarrow> (unit, 'z heap_scheme) res" where
  "map_page t virt phys sz user s = bindR (MapMemory t virt phys sz user s) (\<lambda>_ s. Inr ((), s))"

fun map_entries :: "addr \<Rightarrow> limine_memmap_response \<Rightarrow> 'z paging_scheme \<Rightarrow> (unit, 'z paging_scheme) res" where
  "map_entries t [] s = Inr ((), s)"
| "map_entries t (e # es) s =
     bindR (for_loop (me_base e) (me_base e + me_length e) 4096
              (\<lambda>j s. if j mod 4096 \<noteq> 0 then Inr ((), s) else map_page t j j PS_4K False s) s)
       (\<lambda>_ s. map_entries t es s)"

definition map_kernel :: "addr \<Rightarrow> 'z paging_scheme \<Rightarrow> (unit, 'z paging_scheme) res" where
  "map_kernel t s =
     (let g = GlobalPagingInfo s in
      for_loop 0 (gp_kernelSize g) 4096
        (\<lambda>i s. map_page t (gp_kernelVirtBase g + i) (gp_kernelPhysBase g + i) PS_4K False s) s)"

definition map_low_2M :: "addr \<Rightarrow> 'z paging_scheme \<Rightarrow> (unit, 'z paging_scheme) res" where
  "map_low_2M t s =
     (let g = GlobalPagingInfo s in
      for_loop 0x200000 0x40000000 0x200000
        (\<lambda>i s. bindR (map_page t i i PS_2M False s)
          (\<lambda>_ s. map_page t (gp_hhdm_base g + i) i PS_2M False s)) s)"

definition CreateDefaultMappings :: "addr \<Rightarrow> 'z paging_scheme \<Rightarrow> (unit, 'z paging_scheme) res" where
  "CreateDefaultMappings targetPML4 s =
     (let g = GlobalPagingInfo s in
      bindR (map_kernel targetPML4 s) (\<lambda>_ s.
      bindR (for_loop 0 0x200000 4096
               (\<lambda>i s. bindR (if i \<noteq> 0 then map_page targetPML4 i i PS_4K False s else Inr ((), s))
                 (\<lambda>_ s. map_page targetPML4 (gp_hhdm_base g + i) i PS_4K False s)) s) (\<lambda>_ s.
      bindR (map_low_2M targetPML4 s) (\<lambda>_ s.
      bindR (for_loop 0x40000000 0x100000000 0x1000
               (\<lambda>i s. bindR (map_page targetPML4 i i PS_4K False s)
                 (\<lambda>_ s. map_page targetPML4 (gp_hhdm_base g + i) i PS_4K False s)) s) (\<lambda>_ s.
      bindR (map_entries targetPML4 (gp_mmap g) s) (\<lambda>_ s.
      for_loop (gp_fbBase g) (gp_fbBase g + gp_fbSize g) 4096
        (\<lambda>i s. map_page targetPML4 i (i - gp_hhdm_base g) PS_4K False s) s))))))"

definition CreateProcessPML4 ::
    "addr \<Rightarrow> addr \<Rightarrow> bool \<Rightarrow> 'z paging_scheme \<Rightarrow> (addr, 'z paging_scheme) res" where
  "CreateProcessPML4 start endp inKernelCode s =
     bindR (PageAlloc s) (\<lambda>newpml s.
     let offset = (if inKernelCode then gp_kernelVirtBase (GlobalPagingInfo s) else 0) in
     bindR (map_low_2M newpml s) (\<lambda>_ s.
     bindR (map_kernel newpml s) (\<lambda>_ s.
     bindR (if \<not> inKernelCode
            then for_loop start endp 4096 (\<lambda>a s. map_page newpml (a + offset) a PS_4K True s) s
            else Inr ((), s)) (\<lambda>_ s.
     Inr (newpml, s)))))"

text \<open>\<open>cr3load\<close> is one instruction, \<open>MOV CR3, RDI\<close>.\<close>

definition cr3load :: "u64 \<Rightarrow> 'z machine_scheme \<Rightarrow> 'z machine_scheme" where
  "cr3load cr3 s = emit (Cr3Load cr3) s"

definition LoadKernelPML4 :: "'z paging_scheme \<Rightarrow> 'z paging_scheme" where
  "LoadKernelPML4 s = cr3load (pml4 s) s"

definition InitializePaging ::
    "limine_memmap_response \<Rightarrow> u64 \<Rightarrow> u64 \<Rightarrow> u64 \<Rightarrow> u64 \<Rightarrow> addr \<Rightarrow> addr \<Rightarrow> 'z paging_scheme \<Rightarrow> (unit, 'z paging_scheme) res" where
  "InitializePaging mmap hhdm_base kernelSize kernelPhysBase kernelVirtBase fbBase fbSize s =
     bindR (PageAlloc s) (\<lambda>p s.
     let s = s\<lparr>pml4 := p,
               GlobalPagingInfo := \<lparr>gp_mmap = mmap, gp_hhdm_base = hhdm_base, gp_kernelSize = kernelSize,
                 gp_kernelPhysBase = kernelPhysBase, gp_kernelVirtBase = kernelVirtBase,
                 gp_fbBase = fbBase, gp_fbSize = fbSize\<rparr>\<rparr> in
     bindR (CreateDefaultMappings (pml4 s) s) (\<lambda>_ s. Inr ((), LoadKernelPML4 s)))"

section \<open>The page walk of the processor\<close>

text \<open>
  \<open>idx l v\<close> is the index of the address \<open>v\<close> into its table of level \<open>l\<close>: 0 is a page table, 1 a
  page directory, 2 a directory pointer table, 3 the PML4. An entry of a page table is a
  leaf; an entry of a directory or a pointer table with the page-size bit is a leaf that
  maps 2 MiB or 1 GiB; in a PML4 that bit is reserved and the access faults.
\<close>

definition idx :: "nat \<Rightarrow> u64 \<Rightarrow> u64" where
  "idx l v = take_bit 9 (drop_bit (12 + 9 * l) v)"

definition table_of :: "u64 \<Rightarrow> addr" where
  "table_of e = push_bit 12 (PhysAddr e)"

definition frame_addr :: "nat \<Rightarrow> u64 \<Rightarrow> u64 \<Rightarrow> u64" where
  "frame_addr l e v = (table_of e AND NOT (mask (12 + 9 * l))) OR (v AND mask (12 + 9 * l))"

primrec hw_walk :: "memory \<Rightarrow> nat \<Rightarrow> addr \<Rightarrow> u64 \<Rightarrow> (addr \<times> u64) option" where
  "hw_walk m 0 t v = None"
| "hw_walk m (Suc l) t v =
     (let e = pte m t (idx l v) in
      if \<not> Present e then None
      else if l = 0 \<or> (PageSize e \<and> l < 3) then Some (frame_addr l e v, e)
      else if PageSize e then None
      else hw_walk m l (table_of e) v)"

text \<open>The translation of a virtual address under the PML4 at \<open>root\<close>, with the leaf entry used.\<close>

definition translate :: "memory \<Rightarrow> addr \<Rightarrow> u64 \<Rightarrow> (addr \<times> u64) option" where
  "translate m root v = hw_walk m 4 root v"

subsection \<open>Entries\<close>

lemma idx_less: "unat (idx l v) < 512"
  using take_bit_nat_less_exp [of 9 "unat (drop_bit (12 + 9 * l) v)"]
  by (simp add: idx_def unsigned_take_bit_eq)

lemma source_index: "drop_bit k ((v :: u64) AND push_bit k 0x1FF) = take_bit 9 (drop_bit k v)"
proof -
  have m: "(0x1FF :: u64) = mask 9" by (simp add: mask_eq_exp_minus_1)
  show ?thesis unfolding m by (rule bit_word_eqI) (auto simp: bit_simps dest: bit_imp_le_length)
qed

lemma entry_fields [simp]:
  "Present (set_PhysAddr v e) = Present e" "PageSize (set_PhysAddr v e) = PageSize e"
  "UserSupervisor (set_PhysAddr v e) = UserSupervisor e" "RW (set_PhysAddr v e) = RW e"
  "PhysAddr (set_PhysAddr v e) = take_bit 40 v"
  "Present (set_bit 0 e)" "PageSize (set_bit 0 e) = PageSize e" "PhysAddr (set_bit 0 e) = PhysAddr e"
  "UserSupervisor (set_bit 0 e) = UserSupervisor e" "RW (set_bit 0 e) = RW e"
  "Present (set_bit 1 e) = Present e" "PageSize (set_bit 1 e) = PageSize e" "PhysAddr (set_bit 1 e) = PhysAddr e"
  "UserSupervisor (set_bit 1 e) = UserSupervisor e" "RW (set_bit 1 e)"
  "Present (set_bit 2 e) = Present e" "PageSize (set_bit 2 e) = PageSize e" "PhysAddr (set_bit 2 e) = PhysAddr e"
  "UserSupervisor (set_bit 2 e)" "RW (set_bit 2 e) = RW e"
  "Present (set_bit 7 e) = Present e" "PageSize (set_bit 7 e)" "PhysAddr (set_bit 7 e) = PhysAddr e"
  "UserSupervisor (set_bit 7 e) = UserSupervisor e" "RW (set_bit 7 e) = RW e"
  by (auto simp: Present_def PageSize_def UserSupervisor_def RW_def PhysAddr_def set_PhysAddr_def
    bit_simps intro!: bit_word_eqI)

lemmas entry_fields_Suc [simp] = entry_fields(11-15) [unfolded One_nat_def]

lemma entry_zero [simp]: "\<not> Present 0" "\<not> PageSize 0" "\<not> UserSupervisor 0"
  by (simp_all add: Present_def PageSize_def UserSupervisor_def)

text \<open>A page-aligned address below the limit survives the trip through the entry.\<close>

lemma PhysAddr_trip:
  assumes "unat a mod 4096 = 0" and "unat a < 2 ^ 52"
  shows "push_bit 12 (take_bit 40 (drop_bit 12 a)) = (a :: u64)"
proof -
  have "take_bit 12 a = 0" using assms(1) by (simp add: word_unat_eq_iff take_bit_eq_mod unat_mod)
  then have lo: "\<not> bit a n" if "n < 12" for n using that by (metis bit_take_bit_iff bit_0_eq bot_apply bot_bool_def)
  have "take_bit 52 a = a" using assms(2) by (simp add: word_unat_eq_iff unsigned_take_bit_eq take_bit_nat_eq_self)
  then have hi: "\<not> bit a n" if "52 \<le> n" for n using that by (metis bit_take_bit_iff not_less)
  show ?thesis
  proof (rule bit_word_eqI)
    fix n assume "n < LENGTH(64)"
    then show "bit (push_bit 12 (take_bit 40 (drop_bit 12 a))) n = bit a n"
      using lo [of n] hi [of n] by (cases "n < 12"; cases "52 \<le> n") (auto simp: bit_simps)
  qed
qed

section \<open>The tables as a tree\<close>

text \<open>
  The table reached from a table \<open>t\<close> along a list of indices, through entries that are
  present and no leaves.
\<close>

definition child :: "memory \<Rightarrow> addr \<Rightarrow> u64 \<Rightarrow> addr option" where
  "child m t i = (let e = pte m t i in if Present e \<and> \<not> PageSize e then Some (table_of e) else None)"

primrec table_at :: "memory \<Rightarrow> addr \<Rightarrow> u64 list \<Rightarrow> addr option" where
  "table_at m t [] = Some t"
| "table_at m t (i # is) = (case child m t i of None \<Rightarrow> None | Some t' \<Rightarrow> table_at m t' is)"

lemma table_at_snoc:
  "table_at m t (is @ [i]) = (case table_at m t is of None \<Rightarrow> None | Some t' \<Rightarrow> child m t' i)"
  by (induction "is" arbitrary: t) (auto split: option.splits)

text \<open>A path of at most three indices, each below 512, leads to a table.\<close>

definition path_ok :: "u64 list \<Rightarrow> bool" where
  "path_ok is \<longleftrightarrow> length is \<le> 3 \<and> (\<forall>i \<in> set is. unat i < 512)"

text \<open>
  The invariant of a tree of page tables in the state of the allocator: every table is a page
  below 1 TiB that is not free and not part of the frame table, tables reached along
  different paths are different, and entries that are not present are zero.
\<close>

definition owned_page :: "'z allocator_scheme \<Rightarrow> addr \<Rightarrow> bool" where
  "owned_page s t \<longleftrightarrow> page_ok t \<and> unat t < 2 ^ 40 \<and> t \<notin> free_pages s \<and> bytes t 4096 \<inter> table_bytes s = {}"

definition tree_ok :: "'z allocator_scheme \<Rightarrow> addr \<Rightarrow> bool" where
  "tree_ok s root \<longleftrightarrow> alloc_ok s \<and> (\<forall>p \<in> free_pages s. unat p < 2 ^ 40) \<and>
     (\<forall>is t. path_ok is \<longrightarrow> table_at (mem s) root is = Some t \<longrightarrow> owned_page s t \<and>
        (\<forall>i. unat i < 512 \<longrightarrow> \<not> Present (pte (mem s) t i) \<longrightarrow> pte (mem s) t i = 0)) \<and>
     (\<forall>is js t. path_ok is \<longrightarrow> path_ok js \<longrightarrow> table_at (mem s) root is = Some t \<longrightarrow>
        table_at (mem s) root js = Some t \<longrightarrow> is = js)"

lemma tree_okD:
  assumes "tree_ok s root" and "path_ok is" and "table_at (mem s) root is = Some t"
  shows "owned_page s t" and "unat i < 512 \<Longrightarrow> \<not> Present (pte (mem s) t i) \<Longrightarrow> pte (mem s) t i = 0"
    and "path_ok js \<Longrightarrow> table_at (mem s) root js = Some t \<Longrightarrow> is = js"
proof -
  from assms show "owned_page s t" by (simp add: tree_ok_def)
  have "\<forall>is t. path_ok is \<longrightarrow> table_at (mem s) root is = Some t \<longrightarrow> (\<forall>i. unat i < 512 \<longrightarrow> \<not> Present (pte (mem s) t i) \<longrightarrow> pte (mem s) t i = 0)"
    using assms(1) unfolding tree_ok_def by meson
  with assms(2,3) show "unat i < 512 \<Longrightarrow> \<not> Present (pte (mem s) t i) \<Longrightarrow> pte (mem s) t i = 0" by meson
  have "\<forall>is js t. path_ok is \<longrightarrow> path_ok js \<longrightarrow> table_at (mem s) root is = Some t \<longrightarrow>
      table_at (mem s) root js = Some t \<longrightarrow> is = js" using assms(1) unfolding tree_ok_def by (elim conjE)
  with assms(2,3) show "path_ok js \<Longrightarrow> table_at (mem s) root js = Some t \<Longrightarrow> is = js" by meson
qed

text \<open>Where the entries lie.\<close>

lemma entry_in_page:
  assumes "unat i < 512"
  shows "bytes (t + 8 * i) 8 \<subseteq> bytes t 4096"
proof -
  have eq: "t + 8 * i = t + of_nat (8 * unat i)" by simp
  show ?thesis unfolding eq by (rule subrange) (use assms in auto)
qed

lemma entries_disjoint:
  assumes "unat i < 512" and "unat j < 512" and "i \<noteq> j"
  shows "bytes (t + 8 * i) 8 \<inter> bytes (t + 8 * j) 8 = {}"
proof -
  have eq: "t + 8 * k = t + of_nat (8 * unat k)" for k by simp
  from assms(3) have "unat i < unat j \<or> unat j < unat i" by (simp add: word_unat_eq_iff nat_neq_iff)
  then show ?thesis
    unfolding eq using fields_disjoint [of "8 * unat i" 8 "8 * unat j" 8 t]
      fields_disjoint [of "8 * unat j" 8 "8 * unat i" 8 t] assms(1,2) by (auto simp: Int_commute)
qed

text \<open>Writing one entry of one table: all other entries of all tables stay.\<close>

lemma pte_other:
  assumes "page_ok t" and "page_ok t'" and "unat i < 512" and "unat j < 512" and "(t, i) \<noteq> (t', j)"
  shows "pte (store64 m (t + 8 * i) v) t' j = pte m t' j"
proof (cases "t = t'")
  case True
  with assms show ?thesis by (simp add: pte_def load_store_other entries_disjoint)
next
  case False
  with pages_disjoint [OF assms(1,2)] entry_in_page [OF assms(3), of t] entry_in_page [OF assms(4), of t']
  have "bytes (t + 8 * i) 8 \<inter> bytes (t' + 8 * j) 8 = {}" by blast
  then show ?thesis by (simp add: pte_def load_store_other)
qed

text \<open>
  Two memories whose tables agree but for one entry, entry \<open>i\<close> of the table at path \<open>p\<close>
  (\<open>x = Some (p, i)\<close>), or agree in all entries (\<open>x = None\<close>).
\<close>

definition agree_but :: "(u64 list \<times> u64) option \<Rightarrow> memory \<Rightarrow> memory \<Rightarrow> addr \<Rightarrow> bool" where
  "agree_but x m' m root \<longleftrightarrow> (\<forall>is t j. path_ok is \<longrightarrow> table_at m root is = Some t \<longrightarrow> unat j < 512 \<longrightarrow>
     x \<noteq> Some (is, j) \<longrightarrow> pte m' t j = pte m t j)"

definition avoids :: "(u64 list \<times> u64) option \<Rightarrow> u64 list \<Rightarrow> bool" where
  "avoids x q \<longleftrightarrow> (\<forall>p i. x = Some (p, i) \<longrightarrow> \<not> prefix (p @ [i]) q)"

lemma path_ok_snoc [simp]: "path_ok (q @ [j]) \<longleftrightarrow> path_ok q \<and> length q \<le> 2 \<and> unat j < 512"
  by (auto simp: path_ok_def)

lemma avoids_snoc: "avoids x (q @ [j]) \<Longrightarrow> avoids x q \<and> x \<noteq> Some (q, j)"
  by (auto simp: avoids_def)

lemma table_at_agree:
  assumes "agree_but x m' m root"
  shows "path_ok q \<Longrightarrow> avoids x q \<Longrightarrow> table_at m' root q = table_at m root q"
proof (induction q rule: rev_induct)
  case (snoc j q)
  then have q: "path_ok q" "unat j < 512" "avoids x q" "x \<noteq> Some (q, j)" using avoids_snoc by auto
  with snoc.IH have IH: "table_at m' root q = table_at m root q" by simp
  have "child m' t j = child m t j" if "table_at m root q = Some t" for t
    using assms q that by (simp add: agree_but_def child_def)
  then show ?case unfolding table_at_snoc IH by (simp split: option.splits)
qed simp

text \<open>The indices a walk uses, and the walk from the table it has reached.\<close>

definition walk_path :: "u64 \<Rightarrow> u64 list" where
  "walk_path v = [idx 3 v, idx 2 v, idx 1 v, idx 0 v]"

lemma length_walk_path [simp]: "length (walk_path v) = 4"
  by (simp add: walk_path_def)

lemma walk_path_nth: "k \<le> 3 \<Longrightarrow> walk_path v ! k = idx (3 - k) v"
proof -
  assume "k \<le> 3"
  then have "k = 0 \<or> k = 1 \<or> k = 2 \<or> k = 3" by auto
  then show ?thesis by (elim disjE) (simp_all add: walk_path_def)
qed

lemma walk_path_take: "k \<le> 3 \<Longrightarrow> take (Suc k) (walk_path v) = take k (walk_path v) @ [idx (3 - k) v]"
  using walk_path_nth [of k v] by (simp add: take_Suc_conv_app_nth)

lemma walk_path_ok: "k \<le> 3 \<Longrightarrow> path_ok (take k (walk_path v))"
  using set_take_subset [of k "walk_path v"] by (auto simp: path_ok_def walk_path_def idx_less)

lemma hw_walk_from:
  assumes "k \<le> 3" and "table_at m root (take k (walk_path v)) = Some t"
  shows "hw_walk m 4 root v = hw_walk m (4 - k) t v"
  using assms
proof (induction k arbitrary: t)
  case (Suc k)
  then obtain t' where t': "table_at m root (take k (walk_path v)) = Some t'" "child m t' (idx (3 - k) v) = Some t"
    by (auto simp: walk_path_take table_at_snoc split: option.splits)
  from t'(2) Suc.prems(1) have "hw_walk m (Suc (3 - k)) t' v = hw_walk m (3 - k) t v"
    by (auto simp: child_def Let_def split: if_splits)
  moreover have "4 - k = Suc (3 - k)" "4 - Suc k = 3 - k" using Suc.prems(1) by simp_all
  ultimately show ?case using Suc.IH [OF _ t'(1)] Suc.prems(1) by simp
qed simp

lemma agree_entry:
  assumes "agree_but x m' m root" and "avoids x (walk_path v)"
    and "k \<le> 3" and "table_at m root (take k (walk_path v)) = Some t"
  shows "pte m' t (idx (3 - k) v) = pte m t (idx (3 - k) v)"
proof -
  have "prefix (take k (walk_path v) @ [idx (3 - k) v]) (walk_path v)"
    using assms(3) by (metis walk_path_take take_is_prefix)
  with assms(2) have "x \<noteq> Some (take k (walk_path v), idx (3 - k) v)" by (auto simp: avoids_def)
  with assms(1,3,4) walk_path_ok [of k v] idx_less show ?thesis by (simp add: agree_but_def)
qed

lemma hw_walk_agree:
  assumes "agree_but x m' m root" and "avoids x (walk_path v)"
  shows "k \<le> 3 \<Longrightarrow> table_at m root (take k (walk_path v)) = Some t \<Longrightarrow>
    hw_walk m' (4 - k) t v = hw_walk m (4 - k) t v"
proof (induction "3 - k" arbitrary: k t)
  case 0
  then have k: "4 - k = Suc 0" by simp
  from agree_entry [OF assms 0(2,3)] 0 show ?case unfolding k by (simp add: Let_def)
next
  case (Suc n)
  then have k: "4 - k = Suc (Suc n)" "3 - k = Suc n" "n = 3 - Suc k" "Suc k \<le> 3" by simp_all
  let ?e = "pte m t (idx (Suc n) v)"
  have same: "pte m' t (idx (Suc n) v) = ?e"
    using agree_entry [OF assms Suc.prems] k(2) by simp
  have "hw_walk m' (Suc n) (table_of ?e) v = hw_walk m (Suc n) (table_of ?e) v" if "Present ?e" "\<not> PageSize ?e"
  proof -
    have "table_at m root (take (Suc k) (walk_path v)) = Some (table_of ?e)"
      using that Suc.prems k(2) by (simp add: walk_path_take table_at_snoc child_def)
    from Suc.hyps(1) [OF k(3,4) this] k show ?thesis by simp
  qed
  then show ?case unfolding k(1) by (simp add: same Let_def)
qed

lemma translate_agree:
  "agree_but x m' m root \<Longrightarrow> avoids x (walk_path v) \<Longrightarrow> translate m' root v = translate m root v"
  using hw_walk_agree [of x m' m root v 0 root] by (simp add: translate_def)

section \<open>Changes that keep the tree\<close>

lemma owned_pageD: "owned_page s t \<Longrightarrow> page_ok t" "owned_page s t \<Longrightarrow> t \<noteq> 0"
  by (auto simp: owned_page_def page_ok_def)

lemma pte_cong:
  "(\<And>x. x \<in> bytes t 4096 \<Longrightarrow> m' x = m x) \<Longrightarrow> unat i < 512 \<Longrightarrow> pte m' t i = pte m t i"
  using entry_in_page [of i t] by (auto simp: pte_def intro!: load_le_cong)

text \<open>Writes outside the tables.\<close>

lemma tree_frame:
  assumes tree: "tree_ok s root"
    and s': "alloc_ok s'" "free_pages s' \<subseteq> free_pages s" "table_bytes s' = table_bytes s"
    and same: "\<And>t x. owned_page s t \<Longrightarrow> x \<in> bytes t 4096 \<Longrightarrow> mem s' x = mem s x"
  shows "agree_but None (mem s') (mem s) root" and "tree_ok s' root"
proof -
  have pt: "pte (mem s') t j = pte (mem s) t j" if "owned_page s t" "unat j < 512" for t j
    using that same by (intro pte_cong) auto
  then show agree: "agree_but None (mem s') (mem s) root"
    using tree_okD(1) [OF tree] by (auto simp: agree_but_def)
  have at: "table_at (mem s') root q = table_at (mem s) root q" if "path_ok q" for q
    using that by (intro table_at_agree [OF agree]) (simp_all add: avoids_def)
  have own: "owned_page s' t" if "owned_page s t" for t using that s' by (auto simp: owned_page_def)
  show "tree_ok s' root"
    unfolding tree_ok_def
  proof (intro conjI allI impI ballI)
    show "alloc_ok s'" by (rule s'(1))
    show "unat p < 2 ^ 40" if "p \<in> free_pages s'" for p using that s'(2) tree by (auto simp: tree_ok_def)
    show "owned_page s' t" if "path_ok is" "table_at (mem s') root is = Some t" for "is" t
      using that tree_okD(1) [OF tree] at own by metis
    show "pte (mem s') t i = 0" if "path_ok is" "table_at (mem s') root is = Some t" "unat i < 512" "\<not> Present (pte (mem s') t i)" for "is" t i
      using that tree_okD(1,2) [OF tree] at pt by metis
    show "is = js" if "path_ok is" "path_ok js" "table_at (mem s') root is = Some t" "table_at (mem s') root js = Some t" for "is" js t
      using that tree_okD(3) [OF tree] at by metis
  qed
qed

text \<open>Writing an entry of a table of the tree.\<close>

lemma entry_write_agree:
  assumes tree: "tree_ok s root" and p: "path_ok p" "table_at (mem s) root p = Some t" and i: "unat i < 512"
  shows "agree_but (Some (p, i)) (store64 (mem s) (t + 8 * i) v) (mem s) root"
  unfolding agree_but_def
proof (intro allI impI)
  fix "is" t' j assume q: "path_ok is" "table_at (mem s) root is = Some t'" "unat j < 512" "Some (p, i) \<noteq> Some (is, j)"
  have "(t, i) \<noteq> (t', j)" using tree_okD(3) [OF tree p] q by auto
  then show "pte (store64 (mem s) (t + 8 * i) v) t' j = pte (mem s) t' j"
    using tree_okD(1) [OF tree] p q i owned_pageD(1) by (intro pte_other) blast+
qed

lemma table_at_append:
  "table_at m t (p @ q) = (case table_at m t p of None \<Rightarrow> None | Some t' \<Rightarrow> table_at m t' q)"
  by (induction p arbitrary: t) (auto split: option.splits)

text \<open>The paths of the tables below the root.\<close>

definition tabs :: "memory \<Rightarrow> addr \<Rightarrow> u64 list set" where
  "tabs m root = {q. path_ok q \<and> q \<noteq> [] \<and> table_at m root q \<noteq> None}"

lemma finite_tabs: "finite (tabs m root)"
proof -
  have "tabs m root \<subseteq> {q. set q \<subseteq> UNIV \<and> length q \<le> 3}" by (auto simp: tabs_def path_ok_def)
  then show ?thesis by (rule finite_subset) (rule finite_lists_length_le, simp)
qed

lemma table_at_written:
  fixes v :: u64
  assumes tree: "tree_ok s root" and p: "path_ok p" "table_at (mem s) root p = Some t" and i: "unat i < 512"
  defines "m' \<equiv> store64 (mem s) (t + 8 * i) v"
  shows "path_ok q \<Longrightarrow> \<not> prefix (p @ [i]) q \<Longrightarrow> table_at m' root q = table_at (mem s) root q"
    and "table_at m' root (p @ i # r) = (case child m' t i of None \<Rightarrow> None | Some n \<Rightarrow> table_at m' n r)"
proof -
  note agree = entry_write_agree [OF tree p i, of v, folded m'_def]
  show 1: "table_at m' root q = table_at (mem s) root q" if "path_ok q" "\<not> prefix (p @ [i]) q" for q
    using that by (intro table_at_agree [OF agree]) (simp_all add: avoids_def)
  have "\<not> prefix (p @ [i]) p" using prefix_length_le by fastforce
  with 1 [OF p(1)] p(2) show "table_at m' root (p @ i # r) = (case child m' t i of None \<Rightarrow> None | Some n \<Rightarrow> table_at m' n r)"
    by (simp add: table_at_append split: option.splits)
qed

lemma entry_write_alloc:
  assumes tree: "tree_ok s root" and p: "path_ok p" "table_at (mem s) root p = Some t" and i: "unat i < 512"
  shows "alloc_ok (s\<lparr>mem := store64 (mem s) (t + 8 * i) v\<rparr>)"
    and "free_pages (s\<lparr>mem := store64 (mem s) (t + 8 * i) v\<rparr>) = free_pages s"
    and "table_bytes (s\<lparr>mem := store64 (mem s) (t + 8 * i) v\<rparr>) = table_bytes s"
proof -
  have "x \<notin> bytes (t + 8 * i) 8" if "x \<in> table_bytes s" for x
    using that tree_okD(1) [OF tree p] entry_in_page [OF i, of t] by (auto simp: owned_page_def)
  then show "alloc_ok (s\<lparr>mem := store64 (mem s) (t + 8 * i) v\<rparr>)"
    "free_pages (s\<lparr>mem := store64 (mem s) (t + 8 * i) v\<rparr>) = free_pages s"
    "table_bytes (s\<lparr>mem := store64 (mem s) (t + 8 * i) v\<rparr>) = table_bytes s"
    using pages.client_write [of s "store64 (mem s) (t + 8 * i) v"] tree
    by (simp_all add: tree_ok_def store_le_outside)
qed

lemma tree_write:
  fixes v :: u64
  assumes tree: "tree_ok s root" and p: "path_ok p" "table_at (mem s) root p = Some t" and i: "unat i < 512"
    and v: "Present v"
  defines "m' \<equiv> store64 (mem s) (t + 8 * i) v"
  assumes new: "\<And>q u. path_ok q \<Longrightarrow> prefix (p @ [i]) q \<Longrightarrow> table_at m' root q = Some u \<Longrightarrow>
      q = p @ [i] \<and> owned_page s u \<and> (\<forall>r. path_ok r \<longrightarrow> table_at (mem s) root r \<noteq> Some u) \<and>
      (\<forall>j. unat j < 512 \<longrightarrow> \<not> Present (pte m' u j) \<longrightarrow> pte m' u j = 0)"
  shows "tree_ok (s\<lparr>mem := m'\<rparr>) root"
proof -
  note aw = entry_write_alloc [OF tree p i, of v, folded m'_def]
  note old = table_at_written(1) [OF tree p i, of _ v, folded m'_def]
  have own: "owned_page (s\<lparr>mem := m'\<rparr>) u = owned_page s u" for u by (simp add: owned_page_def aw)
  have pt: "pte m' u j = (if (t, i) = (u, j) then v else pte (mem s) u j)" if "page_ok u" "unat j < 512" for u j
    using that pte_other [of t u i j "mem s" v] tree_okD(1) [OF tree p] i
    by (auto simp: m'_def pte_def owned_page_def)
  have classify: "(table_at (mem s) root q = Some u \<and> owned_page s u) \<or>
      (q = p @ [i] \<and> owned_page s u \<and> (\<forall>r. path_ok r \<longrightarrow> table_at (mem s) root r \<noteq> Some u) \<and>
        (\<forall>j. unat j < 512 \<longrightarrow> \<not> Present (pte m' u j) \<longrightarrow> pte m' u j = 0))"
    if "path_ok q" "table_at m' root q = Some u" for q u
    using that old [of q] new [of q u] tree_okD(1) [OF tree, of q u] by (cases "prefix (p @ [i]) q") auto
  have mm: "mem (s\<lparr>mem := m'\<rparr>) = m'" by simp
  show ?thesis
    unfolding tree_ok_def own mm aw(2)
  proof (intro conjI allI impI ballI)
    show "alloc_ok (s\<lparr>mem := m'\<rparr>)" by (rule aw(1))
    show "unat q < 2 ^ 40" if "q \<in> free_pages s" for q using that tree by (simp add: tree_ok_def)
    show "owned_page s u" if "path_ok q" "table_at m' root q = Some u" for q u
      using classify [OF that] by blast
    show "pte m' u j = 0" if "path_ok q" "table_at m' root q = Some u" "unat j < 512" "\<not> Present (pte m' u j)" for q u j
      using classify [OF that(1,2)]
    proof (elim disjE conjE)
      assume u: "table_at (mem s) root q = Some u" "owned_page s u"
      with that pt [of u j] v have "pte m' u j = pte (mem s) u j" by (auto simp: owned_page_def split: if_splits)
      with that tree_okD(2) [OF tree that(1) u(1)] show ?thesis by simp
    qed (use that in blast)
    show "q = r" if "path_ok q" "path_ok r" "table_at m' root q = Some u" "table_at m' root r = Some u" for q r u
      using classify [OF that(1,3)] classify [OF that(2,4)] that tree_okD(3) [OF tree] by metis
  qed
qed

lemma walk_path_through:
  assumes "prefix (p @ [i]) (walk_path v)"
  shows "length p \<le> 3" and "take (length p) (walk_path v) = p" and "i = idx (3 - length p) v"
proof -
  from assms obtain r where r: "walk_path v = p @ i # r" by (auto simp: prefix_def)
  then have "length (p @ i # r) = 4" by (metis length_walk_path)
  then show l: "length p \<le> 3" by simp
  from r show "take (length p) (walk_path v) = p" by simp
  from r have "walk_path v ! length p = i" by simp
  with walk_path_nth [OF l] show "i = idx (3 - length p) v" by simp
qed

lemma pte_written [simp]: "pte (store64 m (t + 8 * i) v) t i = v"
  by (simp add: pte_def)

text \<open>A leaf entry.\<close>

lemma leaf_write:
  fixes v :: u64
  assumes tree: "tree_ok s root" and p: "path_ok p" "table_at (mem s) root p = Some t" and i: "unat i < 512"
    and v: "Present v" and leaf: "length p = 3 \<or> PageSize v \<and> 0 < length p"
  defines "m' \<equiv> store64 (mem s) (t + 8 * i) v"
  shows "tree_ok (s\<lparr>mem := m'\<rparr>) root"
    and "prefix (p @ [i]) (walk_path w) \<Longrightarrow> translate m' root w = Some (frame_addr (3 - length p) v w, v)"
    and "\<not> prefix (p @ [i]) (walk_path w) \<Longrightarrow> translate m' root w = translate (mem s) root w"
proof -
  show "tree_ok (s\<lparr>mem := m'\<rparr>) root"
    unfolding m'_def
  proof (rule tree_write [OF tree p i v])
    fix q u assume q: "path_ok q" "prefix (p @ [i]) q" "table_at (store64 (mem s) (t + 8 * i) v) root q = Some u"
    from q(2) obtain r where r: "q = p @ i # r" by (auto simp: prefix_def)
    with q(1) leaf have ps: "PageSize v" by (auto simp: path_ok_def)
    then have "table_at (store64 (mem s) (t + 8 * i) v) root q = None"
      unfolding r table_at_written(2) [OF tree p i] by (simp add: child_def)
    with q(3) show "q = p @ [i] \<and> owned_page s u \<and> (\<forall>r. path_ok r \<longrightarrow> table_at (mem s) root r \<noteq> Some u) \<and>
      (\<forall>j. unat j < 512 \<longrightarrow> \<not> Present (pte (store64 (mem s) (t + 8 * i) v) u j) \<longrightarrow> pte (store64 (mem s) (t + 8 * i) v) u j = 0)"
      by simp
  qed
  note agree = entry_write_agree [OF tree p i, of v, folded m'_def]
  show "translate m' root w = translate (mem s) root w" if "\<not> prefix (p @ [i]) (walk_path w)"
    using that by (intro translate_agree [OF agree]) (simp add: avoids_def)
  assume thr: "prefix (p @ [i]) (walk_path w)"
  note thr = walk_path_through [OF thr]
  have "\<not> prefix (p @ [i]) p" using prefix_length_le by fastforce
  then have at: "table_at m' root (take (length p) (walk_path w)) = Some t"
    using table_at_written(1) [OF tree p i p(1), of v] p(2) thr(2) by (simp add: m'_def)
  have e: "pte m' t (idx (3 - length p) w) = v" using thr(3) by (simp add: m'_def)
  have "4 - length p = Suc (3 - length p)" using thr(1) by simp
  with hw_walk_from [OF thr(1) at] show "translate m' root w = Some (frame_addr (3 - length p) v w, v)"
    using v leaf e by (auto simp: translate_def Let_def)
qed

lemma leaf_tabs:
  assumes tree: "tree_ok s root" and p: "path_ok p" "table_at (mem s) root p = Some t" and i: "unat i < 512"
    and leaf: "length p = 3 \<or> PageSize v" and new: "p @ [i] \<notin> tabs (mem s) root"
  shows "tabs (store64 (mem s) (t + 8 * i) v) root = tabs (mem s) root"
proof -
  let ?m = "store64 (mem s) (t + 8 * i) v"
  have "q \<in> tabs ?m root \<longleftrightarrow> q \<in> tabs (mem s) root" for q
  proof (cases "path_ok q \<and> prefix (p @ [i]) q")
    case True
    then obtain r where q: "q = p @ i # r" "path_ok q" by (auto simp: prefix_def)
    then have pi: "path_ok (p @ [i])" "length p \<noteq> 3" by (auto simp: path_ok_def)
    then have "table_at (mem s) root (p @ [i]) = None" using new by (simp add: tabs_def)
    then have "table_at (mem s) root q = None" using table_at_append [of "mem s" root "p @ [i]" r] q(1) by simp
    moreover have "table_at ?m root q = None"
      unfolding q(1) table_at_written(2) [OF tree p i] using leaf pi(2) by (simp add: child_def)
    ultimately show ?thesis by (simp add: tabs_def)
  next
    case False
    with table_at_written(1) [OF tree p i, of q v] show ?thesis by (simp add: tabs_def cong: conj_cong)
  qed
  then show ?thesis by blast
qed

text \<open>An entry that links a fresh, cleared table.\<close>

lemma link_write:
  fixes v :: u64
  assumes tree: "tree_ok s root" and p: "path_ok p" "table_at (mem s) root p = Some t" and i: "unat i < 512"
    and old: "\<not> Present (pte (mem s) t i)" and len: "length p \<le> 2"
    and n: "owned_page s n" "\<And>r. path_ok r \<Longrightarrow> table_at (mem s) root r \<noteq> Some n" "\<And>x. x \<in> bytes n 4096 \<Longrightarrow> mem s x = 0"
    and v: "Present v" "\<not> PageSize v" "table_of v = n"
  defines "m' \<equiv> store64 (mem s) (t + 8 * i) v"
  shows "tree_ok (s\<lparr>mem := m'\<rparr>) root" and "table_at m' root (p @ [i]) = Some n"
    and "translate m' root w = translate (mem s) root w"
    and "path_ok r \<Longrightarrow> table_at m' root r = Some u \<Longrightarrow> unat j < 512 \<Longrightarrow> P (pte m' u j) \<Longrightarrow> \<not> P 0 \<Longrightarrow> \<not> P v \<Longrightarrow>
      table_at (mem s) root r = Some u \<and> P (pte (mem s) u j)"
    and "path_ok r \<Longrightarrow> table_at m' root r = Some u \<Longrightarrow> table_at (mem s) root r = Some u \<or> u = n"
    and "tabs m' root = insert (p @ [i]) (tabs (mem s) root)" and "p @ [i] \<notin> tabs (mem s) root"
proof -
  have tn: "t \<noteq> n" using p n(2) by blast
  have zero: "pte m' n j = 0" if "unat j < 512" for j
  proof -
    have "pte m' n j = pte (mem s) n j"
      unfolding m'_def by (rule pte_other) (use tree_okD(1) [OF tree p] n(1) i that tn in \<open>auto simp: owned_page_def\<close>)
    also have "\<dots> = 0" unfolding pte_def
      by (rule load_zero) (use n(3) entry_in_page [OF that, of n] in auto)
    finally show ?thesis .
  qed
  have ch: "child m' t i = Some n" using v by (simp add: child_def m'_def)
  have below: "table_at m' root (p @ i # r) = (if r = [] then Some n else None)" if "path_ok (p @ i # r)" for r
  proof -
    have "table_at m' n r = (if r = [] then Some n else None)"
      using that zero by (cases r) (auto simp: child_def path_ok_def)
    then show ?thesis using table_at_written(2) [OF tree p i, of v r] ch by (simp add: m'_def)
  qed
  have pi: "path_ok (p @ [i])" using p(1) len i by simp
  have gone: "table_at (mem s) root (p @ i # r) = None" for r
    using old p(2) by (simp add: table_at_append child_def)
  show "p @ [i] \<notin> tabs (mem s) root" using gone [of "[]"] by (simp add: tabs_def)
  have "q \<in> tabs m' root \<longleftrightarrow> q \<in> insert (p @ [i]) (tabs (mem s) root)" for q
  proof (cases "prefix (p @ [i]) q")
    case True
    then obtain r where q: "q = p @ i # r" by (auto simp: prefix_def)
    with gone [of r] have "q \<notin> tabs (mem s) root" by (simp add: tabs_def)
    with below [of r] pi q show ?thesis by (auto simp: tabs_def split: if_splits)
  next
    case False
    then have "q \<noteq> p @ [i]" by auto
    with table_at_written(1) [OF tree p i, of q v] False show ?thesis by (simp add: tabs_def m'_def cong: conj_cong)
  qed
  then show "tabs m' root = insert (p @ [i]) (tabs (mem s) root)" by blast
  show "table_at m' root (p @ [i]) = Some n" using below [of "[]"] pi by simp
  show "tree_ok (s\<lparr>mem := m'\<rparr>) root"
    unfolding m'_def
  proof (rule tree_write [OF tree p i v(1)], fold m'_def)
    fix q u assume q: "path_ok q" "prefix (p @ [i]) q" "table_at m' root q = Some u"
    from q(2) obtain r where r: "q = p @ i # r" by (auto simp: prefix_def)
    with below [of r] q have "r = []" "u = n" by (auto split: if_splits)
    with r n zero show "q = p @ [i] \<and> owned_page s u \<and> (\<forall>r. path_ok r \<longrightarrow> table_at (mem s) root r \<noteq> Some u) \<and>
      (\<forall>j. unat j < 512 \<longrightarrow> \<not> Present (pte m' u j) \<longrightarrow> pte m' u j = 0)" by auto
  qed
  show "table_at (mem s) root r = Some u \<or> u = n" if r: "path_ok r" "table_at m' root r = Some u" for r u
  proof (cases "prefix (p @ [i]) r")
    case True
    then obtain r' where "r = p @ i # r'" by (auto simp: prefix_def)
    with below [of r'] r show ?thesis by (auto split: if_splits)
  next
    case False
    with table_at_written(1) [OF tree p i r(1), of v] r(2) show ?thesis by (simp add: m'_def)
  qed
  show "table_at (mem s) root r = Some u \<and> P (pte (mem s) u j)"
    if r: "path_ok r" "table_at m' root r = Some u" "unat j < 512" "P (pte m' u j)" "\<not> P 0" "\<not> P v" for r u j P
  proof (cases "prefix (p @ [i]) r")
    case True
    then obtain r' where "r = p @ i # r'" by (auto simp: prefix_def)
    with below [of r'] r zero [of j] show ?thesis by (auto split: if_splits)
  next
    case False
    then have at: "table_at (mem s) root r = Some u"
      using table_at_written(1) [OF tree p i r(1), of v] r(2) by (simp add: m'_def)
    have "(t, i) \<noteq> (u, j)" using r(4,6) by (auto simp: m'_def)
    then have "pte m' u j = pte (mem s) u j"
      unfolding m'_def using tree_okD(1) [OF tree p] tree_okD(1) [OF tree r(1) at] i r(3) owned_pageD(1)
      by (intro pte_other) blast+
    with at r(4) show ?thesis by simp
  qed
  note agree = entry_write_agree [OF tree p i, of v, folded m'_def]
  show "translate m' root w = translate (mem s) root w"
  proof (cases "prefix (p @ [i]) (walk_path w)")
    case False
    then show ?thesis by (intro translate_agree [OF agree]) (simp add: avoids_def)
  next
    case True
    note thr = walk_path_through [OF True]
    have l: "4 - length p = Suc (3 - length p)" "3 - length p = Suc (2 - length p)" using len by simp_all
    have "hw_walk (mem s) (4 - length p) t w = None" unfolding l(1) using old thr(3) by (simp add: Let_def)
    then have o: "translate (mem s) root w = None"
      using hw_walk_from [OF thr(1), of "mem s" root w t] p(2) thr(2) by (simp add: translate_def)
    have at: "table_at m' root (take (Suc (length p)) (walk_path w)) = Some n"
      using below [of "[]"] pi len thr(2,3) by (simp add: walk_path_take)
    have "hw_walk m' (3 - length p) n w = None" unfolding l(2) using zero idx_less by (simp add: Let_def)
    then have "translate m' root w = None"
      using hw_walk_from [OF _ at] len by (simp add: translate_def)
    with o show ?thesis by simp
  qed
qed

section \<open>One level down\<close>

lemma set_pte_twice: "set_pte t i f (set_pte t i g s) = set_pte t i (f \<circ> g) s"
  by (simp add: set_pte_def)

lemma set_pte_mem: "set_pte t i f s = s\<lparr>mem := store64 (mem s) (t + 8 * i) (f (pte (mem s) t i))\<rparr>"
  by (simp add: set_pte_def)

lemma is_aligned_page: "page_ok p \<Longrightarrow> is_aligned p 4096 \<noteq> 0"
  by (simp add: is_aligned_def page_ok_def word_unat_eq_iff unat_mod)

lemma assert_at_true [simp]: "assert_at l True s = Inr ((), s)"
  by (simp add: assert_at_def)

lemma next_ptr_table:
  assumes "unat (table_of e) < 2 ^ 40"
  shows "next_ptr e = table_of e"
  using assms by (simp add: next_ptr_def table_of_def word_unat_eq_iff unsigned_take_bit_eq take_bit_nat_eq_self)

text \<open>The bytes that belong to the tables, to the allocator or to free pages.\<close>

definition reserved :: "'z allocator_scheme \<Rightarrow> addr \<Rightarrow> addr set" where
  "reserved s root = table_bytes s \<union> (\<Union>p \<in> free_pages s. bytes p 4096) \<union>
     \<Union> {bytes t 4096 |is t. path_ok is \<and> table_at (mem s) root is = Some t}"

text \<open>No large page on the way to the page table of an address.\<close>

definition small_path :: "memory \<Rightarrow> addr \<Rightarrow> u64 \<Rightarrow> nat \<Rightarrow> bool" where
  "small_path m root v d \<longleftrightarrow> (\<forall>k < d. \<forall>t. table_at m root (take k (walk_path v)) = Some t \<longrightarrow>
     \<not> PageSize (pte m t (idx (3 - k) v)))"

text \<open>The effect of building up to \<open>n\<close> new tables: no translation changes.\<close>

definition grows :: "nat \<Rightarrow> addr \<Rightarrow> 'z heap_scheme \<Rightarrow> 'z heap_scheme \<Rightarrow> bool" where
  "grows n root s s' \<longleftrightarrow> s' = s\<lparr>mem := mem s'\<rparr> \<and> tree_ok s' root \<and> table_bytes s' = table_bytes s \<and>
     (\<forall>w. translate (mem s') root w = translate (mem s) root w) \<and>
     free_pages s' \<subseteq> free_pages s \<and> card (free_pages s) \<le> n + card (free_pages s') \<and>
     card (tabs (mem s') root) + card (free_pages s') = card (tabs (mem s) root) + card (free_pages s) \<and>
     reserved s' root \<subseteq> reserved s root \<and> (\<forall>x. x \<notin> reserved s root \<longrightarrow> mem s' x = mem s x) \<and>
     (\<forall>P \<in> {PageSize, UserSupervisor}. \<forall>is t j. path_ok is \<longrightarrow> table_at (mem s') root is = Some t \<longrightarrow> unat j < 512 \<longrightarrow>
        P (pte (mem s') t j) \<longrightarrow> table_at (mem s) root is = Some t \<and> P (pte (mem s) t j))"

lemma grows_refl: "tree_ok s root \<Longrightarrow> grows n root s s"
  by (simp add: grows_def)

lemma mem_mem_update: "s\<lparr>mem := m\<rparr>\<lparr>mem := m'\<rparr> = s\<lparr>mem := m'\<rparr>"
  by simp

lemma grows_trans: "grows k root s s1 \<Longrightarrow> grows n root s1 s2 \<Longrightarrow> grows (k + n) root s s2"
proof -
  assume a: "grows k root s s1" and b: "grows n root s1 s2"
  have "s2 = s\<lparr>mem := mem s2\<rparr>"
  proof -
    from a b have "s1 = s\<lparr>mem := mem s1\<rparr>" "s2 = s1\<lparr>mem := mem s2\<rparr>" by (simp_all add: grows_def)
    then have "s2 = (s\<lparr>mem := mem s1\<rparr>)\<lparr>mem := mem s2\<rparr>" by metis
    then show ?thesis by simp
  qed
  moreover have "mem s2 x = mem s x" if "x \<notin> reserved s root" for x
    using a b that unfolding grows_def by (metis subsetD)
  ultimately show "grows (k + n) root s s2"
    using a b unfolding grows_def by (intro conjI) (auto intro: order_trans)
qed

lemma new_table:
  assumes tree: "tree_ok s root" and p: "path_ok p" "table_at (mem s) root p = Some t" and i: "unat i < 512"
    and len: "length p \<le> 2" and old: "\<not> Present (pte (mem s) t i)" and avail: "free_pages s \<noteq> {}"
  shows "\<exists>n s'. GetEntryNextLevel t i s = Inr (n, s') \<and> grows 1 root s s' \<and> table_at (mem s') root (p @ [i]) = Some n \<and>
    tabs (mem s') root = insert (p @ [i]) (tabs (mem s) root)"
proof -
  have inv: "alloc_ok s" using tree by (simp add: tree_ok_def)
  from pages.alloc_returns [OF inv avail] obtain n s1 where ret: "PageAlloc s = Inr (n, s1)" by blast
  from pages.alloc_effect [OF inv ret] have n: "n \<in> free_pages s" and s1: "s1 = s\<lparr>mem := mem s1\<rparr>" "alloc_ok s1"
    "free_pages s1 = free_pages s - {n}" "table_bytes s1 = table_bytes s" and zero: "\<And>x. x \<in> bytes n 4096 \<Longrightarrow> mem s1 x = 0"
    and out: "\<And>x. x \<notin> bytes n 4096 \<Longrightarrow> x \<notin> table_bytes s \<Longrightarrow> mem s1 x = mem s x" by auto
  from pages.avail_page [OF inv n] have nok: "page_ok n" "bytes n 4096 \<inter> table_bytes s = {}" by auto
  have n40: "unat n < 2 ^ 40" using tree n by (simp add: tree_ok_def)
  have same: "mem s1 x = mem s x" if "owned_page s u" "x \<in> bytes u 4096" for u x
  proof (rule out)
    have "u \<noteq> n" using that(1) n by (auto simp: owned_page_def)
    with pages_disjoint [of u n] that nok(1) show "x \<notin> bytes n 4096" by (auto simp: owned_page_def)
    show "x \<notin> table_bytes s" using that by (auto simp: owned_page_def)
  qed
  have sub: "free_pages s1 \<subseteq> free_pages s" using s1(3) by blast
  have fr: "agree_but None (mem s1) (mem s) root" "tree_ok s1 root"
    by (rule tree_frame [OF tree s1(2) sub s1(4)]; use same in blast)+
  have at: "table_at (mem s1) root q = table_at (mem s) root q" if "path_ok q" for q
    using that by (intro table_at_agree [OF fr(1)]) (simp_all add: avoids_def)
  have tr: "translate (mem s1) root w = translate (mem s) root w" for w
    by (rule translate_agree [OF fr(1)]) (simp add: avoids_def)
  have t1: "table_at (mem s1) root p = Some t" using at p by simp
  have e0: "pte (mem s1) t i = 0"
    using fr(1) p i old tree_okD(2) [OF tree p i] by (simp add: agree_but_def)
  let ?v = "set_bit 1 (set_bit 0 (set_PhysAddr (drop_bit 12 n) 0)) :: u64"
  let ?m = "store64 (mem s1) (t + 8 * i) ?v"
  have ret': "GetEntryNextLevel t i s = Inr (n, s1\<lparr>mem := ?m\<rparr>)"
    using tree_okD(1) [OF tree p] old ret is_aligned_page [OF nok(1)] e0
    by (simp add: GetEntryNextLevel_def owned_page_def page_ok_def Let_def set_pte_twice) (simp add: set_pte_mem)
  have own: "owned_page s1 n" using nok n40 by (simp add: owned_page_def s1(3,4))
  have fresh: "table_at (mem s1) root r \<noteq> Some n" if "path_ok r" for r
    using tree_okD(1) [OF tree that] at [OF that] n by (auto simp: owned_page_def)
  have tv: "table_of ?v = n"
    using PhysAddr_trip [of n] nok(1) n40 by (simp add: table_of_def page_ok_def)
  have np: "\<not> Present (pte (mem s1) t i)" by (simp add: e0)
  have lw: "tree_ok (s1\<lparr>mem := ?m\<rparr>) root" "table_at ?m root (p @ [i]) = Some n"
    "translate ?m root w = translate (mem s1) root w"
    "path_ok r \<Longrightarrow> table_at ?m root r = Some u \<Longrightarrow> unat j < 512 \<Longrightarrow> P (pte ?m u j) \<Longrightarrow> \<not> P 0 \<Longrightarrow> \<not> P ?v \<Longrightarrow>
      table_at (mem s1) root r = Some u \<and> P (pte (mem s1) u j)"
    "path_ok r \<Longrightarrow> table_at ?m root r = Some u \<Longrightarrow> table_at (mem s1) root r = Some u \<or> u = n"
    "tabs ?m root = insert (p @ [i]) (tabs (mem s1) root)" "p @ [i] \<notin> tabs (mem s1) root" for w r u j P
    by (rule link_write [OF fr(2) p(1) t1 i np len own fresh zero _ _ tv]; simp)+
  have ts: "tabs (mem s1) root = tabs (mem s) root" using at by (auto simp: tabs_def)
  note aw = entry_write_alloc [OF fr(2) p(1) t1 i, of ?v]
  have cf: "card (free_pages s) = Suc (card (free_pages s1))"
    unfolding s1(3) using pages.avail_finite [OF inv] n by (metis card.remove)
  have "grows 1 root s (s1\<lparr>mem := ?m\<rparr>)"
    unfolding grows_def
  proof (intro conjI allI impI ballI)
    show "s1\<lparr>mem := ?m\<rparr> = s\<lparr>mem := mem (s1\<lparr>mem := ?m\<rparr>)\<rparr>" by (subst s1(1)) simp
    show "tree_ok (s1\<lparr>mem := ?m\<rparr>) root" by (rule lw(1))
    show "table_bytes (s1\<lparr>mem := ?m\<rparr>) = table_bytes s" using aw(3) s1(4) by simp
    show "translate (mem (s1\<lparr>mem := ?m\<rparr>)) root w = translate (mem s) root w" for w using lw(3) tr by simp
    show "free_pages (s1\<lparr>mem := ?m\<rparr>) \<subseteq> free_pages s" using aw(2) sub by simp
    show "card (free_pages s) \<le> 1 + card (free_pages (s1\<lparr>mem := ?m\<rparr>))"
      unfolding aw(2) s1(3) using pages.avail_finite [OF inv] n by (simp add: card_Diff_singleton)
    show "card (tabs (mem (s1\<lparr>mem := ?m\<rparr>)) root) + card (free_pages (s1\<lparr>mem := ?m\<rparr>)) = card (tabs (mem s) root) + card (free_pages s)"
      unfolding aw(2) using lw(6,7) cf by (simp add: ts finite_tabs)
    show "reserved (s1\<lparr>mem := ?m\<rparr>) root \<subseteq> reserved s root"
    proof (rule subsetI, unfold reserved_def aw(2,3) s1(3,4) Un_iff, elim disjE)
      fix x assume "x \<in> \<Union> {bytes u 4096 |is u. path_ok is \<and> table_at (mem (s1\<lparr>mem := ?m\<rparr>)) root is = Some u}"
      then obtain r u where u: "path_ok r" "table_at ?m root r = Some u" "x \<in> bytes u 4096" by auto
      from lw(5) [OF u(1,2)] at [OF u(1)] u(1,3) n
      show "(x \<in> table_bytes s \<or> x \<in> (\<Union>p \<in> free_pages s. bytes p 4096)) \<or>
        x \<in> \<Union> {bytes u 4096 |is u. path_ok is \<and> table_at (mem s) root is = Some u}" by auto
    qed auto
    show "mem (s1\<lparr>mem := ?m\<rparr>) x = mem s x" if x: "x \<notin> reserved s root" for x
    proof -
      have "x \<notin> bytes t 4096" using x p by (auto simp: reserved_def)
      then have "?m x = mem s1 x" using entry_in_page [OF i, of t] by (intro store_le_outside) blast
      moreover have "mem s1 x = mem s x" using x n by (intro out) (auto simp: reserved_def)
      ultimately show ?thesis by simp
    qed
    fix P q u j assume P: "P \<in> {PageSize, UserSupervisor}" "path_ok q" "table_at (mem (s1\<lparr>mem := ?m\<rparr>)) root q = Some u"
      "unat j < (512 :: nat)" "P (pte (mem (s1\<lparr>mem := ?m\<rparr>)) u j)"
    from P(1) have "\<not> P 0" "\<not> P ?v" by auto
    with lw(4) [of q u j P] P have u: "table_at (mem s1) root q = Some u" "P (pte (mem s1) u j)" by auto
    then show "table_at (mem s) root q = Some u" using at [OF P(2)] by simp
    with fr(1) P(2,4) have "pte (mem s1) u j = pte (mem s) u j" by (simp add: agree_but_def)
    with u(2) show "P (pte (mem s) u j)" by simp
  qed
  with ret' lw(2,6) ts show ?thesis by auto
qed

lemma GetEntryNextLevel_existing:
  assumes tree: "tree_ok s root" and k: "k \<le> 2" and t: "table_at (mem s) root (take k (walk_path v)) = Some t"
    and n: "table_at (mem s) root (take (Suc k) (walk_path v)) = Some n"
  shows "GetEntryNextLevel t (idx (3 - k) v) s = Inr (n, s)"
proof -
  have ok: "path_ok (take k (walk_path v))" "path_ok (take (Suc k) (walk_path v))" using k by (intro walk_path_ok; simp)+
  have "child (mem s) t (idx (3 - k) v) = Some n" using n t k by (simp add: walk_path_take table_at_snoc)
  then have e: "Present (pte (mem s) t (idx (3 - k) v))" "table_of (pte (mem s) t (idx (3 - k) v)) = n"
    by (auto simp: child_def Let_def split: if_splits)
  have "t \<noteq> 0" using tree_okD(1) [OF tree ok(1) t] by (rule owned_pageD)
  moreover have "unat n < 2 ^ 40" using tree_okD(1) [OF tree ok(2) n] by (simp add: owned_page_def)
  ultimately show ?thesis using e by (simp add: GetEntryNextLevel_def next_ptr_table)
qed

text \<open>The tables on the way down to depth \<open>d\<close>, and those of them that do not exist yet.\<close>

definition way :: "u64 \<Rightarrow> nat \<Rightarrow> u64 list set" where
  "way v d = (\<lambda>k. take (Suc k) (walk_path v)) ` {..<d}"

lemma finite_way [simp]: "finite (way v d)"
  by (simp add: way_def)

lemma card_way: "card (way v d - X) \<le> d"
  using card_mono [of "way v d" "way v d - X"] card_image_le [of "{..<d}" "\<lambda>k. take (Suc k) (walk_path v)"]
  by (simp add: way_def)

lemma way_Suc: "way v (Suc d) = insert (take (Suc d) (walk_path v)) (way v d)"
  by (simp add: way_def lessThan_Suc)

lemma GetEntryNextLevel_grows:
  assumes tree: "tree_ok s root" and k: "k \<le> 2" and t: "table_at (mem s) root (take k (walk_path v)) = Some t"
    and small: "small_path (mem s) root v (Suc k)" and d: "k < d"
    and avail: "card (way v d - tabs (mem s) root) \<le> card (free_pages s)"
  shows "\<exists>n s'. GetEntryNextLevel t (idx (3 - k) v) s = Inr (n, s') \<and> grows 1 root s s' \<and>
    table_at (mem s') root (take (Suc k) (walk_path v)) = Some n \<and>
    tabs (mem s') root = insert (take (Suc k) (walk_path v)) (tabs (mem s) root) \<and>
    card (way v d - tabs (mem s') root) \<le> card (free_pages s')"
proof -
  have ok: "path_ok (take k (walk_path v))" using k by (intro walk_path_ok) simp
  have snoc: "take (Suc k) (walk_path v) = take k (walk_path v) @ [idx (3 - k) v]" using k by (simp add: walk_path_take)
  let ?e = "pte (mem s) t (idx (3 - k) v)" and ?q = "take (Suc k) (walk_path v)"
  have q: "?q \<in> way v d" using d by (auto simp: way_def)
  show ?thesis
  proof (cases "Present ?e")
    case False
    then have new: "?q \<notin> tabs (mem s) root" using t by (simp add: snoc tabs_def table_at_snoc child_def)
    with q have pos: "card (way v d - tabs (mem s) root) = Suc (card (way v d - insert ?q (tabs (mem s) root)))"
      by (subst card.remove [of _ ?q]) (auto intro: arg_cong [where f = card])
    with avail have "free_pages s \<noteq> {}" by auto
    with new_table [OF tree ok t idx_less _ False] k obtain n s' where
      n: "GetEntryNextLevel t (idx (3 - k) v) s = Inr (n, s')" "grows 1 root s s'" "table_at (mem s') root ?q = Some n"
      "tabs (mem s') root = insert ?q (tabs (mem s) root)" by (auto simp: snoc)
    have "card (free_pages s) \<le> Suc (card (free_pages s'))" using n(2) by (simp add: grows_def)
    with n pos avail show ?thesis by auto
  next
    case True
    have "\<not> PageSize ?e" using small t by (simp add: small_path_def)
    with True have at: "table_at (mem s) root ?q = Some (table_of ?e)"
      using t by (simp add: snoc table_at_snoc child_def)
    have "path_ok ?q" using k by (intro walk_path_ok) simp
    with at have "?q \<in> tabs (mem s) root" by (simp add: tabs_def walk_path_def)
    with GetEntryNextLevel_existing [OF tree k t at] at grows_refl [OF tree, of 1] avail show ?thesis
      by (auto simp: insert_absorb)
  qed
qed

lemma small_path_mono: "small_path m root v d \<Longrightarrow> c \<le> d \<Longrightarrow> small_path m root v c"
  by (auto simp: small_path_def)

lemma grows_small:
  assumes "grows n root s s'" and "small_path (mem s) root v d" and "d \<le> 3"
  shows "small_path (mem s') root v d"
  unfolding small_path_def
proof (intro allI impI notI)
  fix k t assume k: "k < d" "table_at (mem s') root (take k (walk_path v)) = Some t" "PageSize (pte (mem s') t (idx (3 - k) v))"
  have "path_ok (take k (walk_path v))" using k(1) assms(3) by (intro walk_path_ok) simp
  with k(2,3) assms(1) have "table_at (mem s) root (take k (walk_path v)) = Some t" "PageSize (pte (mem s) t (idx (3 - k) v))"
    unfolding grows_def using idx_less by blast+
  with assms(2) k(1) show False by (simp add: small_path_def)
qed

text \<open>Two levels down, to the page directory, and three levels down, to the page table.\<close>

lemma down_two:
  assumes tree: "tree_ok s root" and small: "small_path (mem s) root v 2" and d: "2 \<le> d"
    and avail: "card (way v d - tabs (mem s) root) \<le> card (free_pages s)"
  shows "\<exists>pdpt pd s1 s2. GetEntryNextLevel root (idx 3 v) s = Inr (pdpt, s1) \<and>
    GetEntryNextLevel pdpt (idx 2 v) s1 = Inr (pd, s2) \<and> grows 2 root s s2 \<and>
    table_at (mem s2) root (take 2 (walk_path v)) = Some pd \<and> tabs (mem s2) root = way v 2 \<union> tabs (mem s) root \<and>
    card (way v d - tabs (mem s2) root) \<le> card (free_pages s2)"
proof -
  from GetEntryNextLevel_grows [OF tree, of 0 v root d] small_path_mono [OF small, of 1] avail d
  obtain pdpt s1 where 1: "GetEntryNextLevel root (idx 3 v) s = Inr (pdpt, s1)" "grows 1 root s s1"
    "table_at (mem s1) root (take 1 (walk_path v)) = Some pdpt" "tabs (mem s1) root = insert (take 1 (walk_path v)) (tabs (mem s) root)"
    "card (way v d - tabs (mem s1) root) \<le> card (free_pages s1)" by auto
  have "tree_ok s1 root" using 1(2) by (simp add: grows_def)
  from GetEntryNextLevel_grows [OF this, of 1 v pdpt d] 1(3,5) grows_small [OF 1(2) small] d
  obtain pd s2 where 2: "GetEntryNextLevel pdpt (idx 2 v) s1 = Inr (pd, s2)" "grows 1 root s1 s2"
    "table_at (mem s2) root (take 2 (walk_path v)) = Some pd" "tabs (mem s2) root = insert (take 2 (walk_path v)) (tabs (mem s1) root)"
    "card (way v d - tabs (mem s2) root) \<le> card (free_pages s2)" by (auto simp: numeral_2_eq_2)
  have "way v 2 = {take 1 (walk_path v), take 2 (walk_path v)}" by (auto simp: way_def numeral_2_eq_2 lessThan_Suc)
  with grows_trans [OF 1(2) 2(2)] 1(1,4) 2(1,3,4,5) show ?thesis by (auto simp: numeral_2_eq_2)
qed

lemma down_three:
  assumes tree: "tree_ok s root" and small: "small_path (mem s) root v 3"
    and avail: "card (way v 3 - tabs (mem s) root) \<le> card (free_pages s)"
  shows "\<exists>pdpt pd pt s1 s2 s3. GetEntryNextLevel root (idx 3 v) s = Inr (pdpt, s1) \<and>
    GetEntryNextLevel pdpt (idx 2 v) s1 = Inr (pd, s2) \<and> GetEntryNextLevel pd (idx 1 v) s2 = Inr (pt, s3) \<and>
    grows 3 root s s3 \<and> table_at (mem s3) root (take 3 (walk_path v)) = Some pt \<and> tabs (mem s3) root = way v 3 \<union> tabs (mem s) root"
proof -
  from down_two [OF tree small_path_mono [OF small] _ avail]
  obtain pdpt pd s1 s2 where 2: "GetEntryNextLevel root (idx 3 v) s = Inr (pdpt, s1)"
    "GetEntryNextLevel pdpt (idx 2 v) s1 = Inr (pd, s2)" "grows 2 root s s2"
    "table_at (mem s2) root (take 2 (walk_path v)) = Some pd" "tabs (mem s2) root = way v 2 \<union> tabs (mem s) root"
    "card (way v 3 - tabs (mem s2) root) \<le> card (free_pages s2)" by auto
  have "tree_ok s2 root" using 2(3) by (simp add: grows_def)
  from GetEntryNextLevel_grows [OF this _ 2(4) _ _ 2(6)] grows_small [OF 2(3) small]
  obtain pt s3 where 3: "GetEntryNextLevel pd (idx 1 v) s2 = Inr (pt, s3)" "grows 1 root s2 s3"
    "table_at (mem s3) root (take 3 (walk_path v)) = Some pt" "tabs (mem s3) root = insert (take 3 (walk_path v)) (tabs (mem s2) root)"
    by (auto simp: numeral_3_eq_3 numeral_2_eq_2)
  have "way v 3 = insert (take 3 (walk_path v)) (way v 2)" using way_Suc [of v 2] by (simp add: numeral_3_eq_3 numeral_2_eq_2)
  with grows_trans [OF 2(3) 3(2)] 2(1,2,5) 3(1,3,4) show ?thesis by auto
qed

section \<open>Mapping a page\<close>

text \<open>The entry \<open>MapMemory\<close> writes over an entry \<open>e\<close>.\<close>

definition leaf_entry :: "PageSizes \<Rightarrow> bool \<Rightarrow> u64 \<Rightarrow> u64 \<Rightarrow> u64" where
  "leaf_entry sz user phys e =
     (let e = set_PhysAddr (drop_bit 12 phys) (set_bit 1 (set_bit 0 e));
          e = (if sz = PS_2M then set_bit 7 e else e)
      in if user then set_bit 2 e else e)"

lemma leaf_entry_fields [simp]:
  "Present (leaf_entry sz user phys e)" "RW (leaf_entry sz user phys e)"
  "UserSupervisor (leaf_entry sz user phys e) \<longleftrightarrow> user \<or> UserSupervisor e"
  "PageSize (leaf_entry sz user phys e) \<longleftrightarrow> sz = PS_2M \<or> PageSize e"
  "PhysAddr (leaf_entry sz user phys e) = take_bit 40 (drop_bit 12 phys)"
  by (simp_all add: leaf_entry_def Let_def)

lemma MapMemory_down:
  assumes "is_aligned virt 4096 \<noteq> 0" and "is_aligned phys 4096 \<noteq> 0"
    and "GetEntryNextLevel root (idx 3 virt) s = Inr (pdpt, s1)" and "GetEntryNextLevel pdpt (idx 2 virt) s1 = Inr (pd, s2)"
  shows "pd \<noteq> 0 \<Longrightarrow> MapMemory root virt phys PS_2M user s = Inr (KSTATUS_SUCCESS,
      s2\<lparr>mem := store64 (mem s2) (pd + 8 * idx 1 virt) (leaf_entry PS_2M user phys (pte (mem s2) pd (idx 1 virt)))\<rparr>)"
    and "GetEntryNextLevel pd (idx 1 virt) s2 = Inr (pt, s3) \<Longrightarrow> pt \<noteq> 0 \<Longrightarrow>
      MapMemory root virt phys PS_4K user s = Inr (KSTATUS_SUCCESS,
      s3\<lparr>mem := store64 (mem s3) (pt + 8 * idx 0 virt) (leaf_entry PS_4K user phys (pte (mem s3) pt (idx 0 virt)))\<rparr>)"
proof -
  have ix: "drop_bit 39 (virt AND push_bit 39 0x1FF) = idx 3 virt" "drop_bit 30 (virt AND push_bit 30 0x1FF) = idx 2 virt"
    "drop_bit 21 (virt AND push_bit 21 0x1FF) = idx 1 virt" "drop_bit 12 (virt AND push_bit 12 0x1FF) = idx 0 virt"
    unfolding source_index by (simp_all add: idx_def)
  have a: "assert_at l (is_aligned virt 4096 \<noteq> 0) s = Inr ((), s)" "assert_at l (is_aligned phys 4096 \<noteq> 0) s = Inr ((), s)" for l s
    using assms(1,2) by (simp_all add: assert_at_def)
  show "pd \<noteq> 0 \<Longrightarrow> MapMemory root virt phys PS_2M user s = Inr (KSTATUS_SUCCESS,
      s2\<lparr>mem := store64 (mem s2) (pd + 8 * idx 1 virt) (leaf_entry PS_2M user phys (pte (mem s2) pd (idx 1 virt)))\<rparr>)"
    unfolding MapMemory_def ix a using assms(3,4)
    by (simp add: Let_def set_pte_twice) (simp add: set_pte_mem leaf_entry_def Let_def)
  show "GetEntryNextLevel pd (idx 1 virt) s2 = Inr (pt, s3) \<Longrightarrow> pt \<noteq> 0 \<Longrightarrow>
      MapMemory root virt phys PS_4K user s = Inr (KSTATUS_SUCCESS,
      s3\<lparr>mem := store64 (mem s3) (pt + 8 * idx 0 virt) (leaf_entry PS_4K user phys (pte (mem s3) pt (idx 0 virt)))\<rparr>)"
    unfolding MapMemory_def ix a using assms(3,4)
    by (simp add: Let_def set_pte_twice) (simp add: set_pte_mem leaf_entry_def Let_def)
qed

text \<open>
  Two addresses lie in the same 4 KiB page (\<open>l = 0\<close>) or 2 MiB page (\<open>l = 1\<close>): they agree in
  the bits the walk uses.
\<close>

definition same_page :: "nat \<Rightarrow> u64 \<Rightarrow> u64 \<Rightarrow> bool" where
  "same_page l v w \<longleftrightarrow> drop_bit (12 + 9 * l) (take_bit 48 v) = drop_bit (12 + 9 * l) (take_bit 48 w)"

lemma bit_idx: "bit (idx k v) n \<longleftrightarrow> n < 9 \<and> bit v (12 + 9 * k + n)"
  by (simp add: idx_def bit_simps)

lemma same_page_iff: "same_page l v w \<longleftrightarrow> (\<forall>k. l \<le> k \<longrightarrow> k \<le> 3 \<longrightarrow> idx k v = idx k w)"
proof
  assume eq: "same_page l v w"
  have bits: "bit v n = bit w n" if "12 + 9 * l \<le> n" "n < 48" for n
  proof -
    have "bit (drop_bit (12 + 9 * l) (take_bit 48 v)) (n - (12 + 9 * l)) = bit (drop_bit (12 + 9 * l) (take_bit 48 w)) (n - (12 + 9 * l))"
      using eq by (simp add: same_page_def)
    with that show ?thesis by (simp add: bit_simps)
  qed
  show "\<forall>k. l \<le> k \<longrightarrow> k \<le> 3 \<longrightarrow> idx k v = idx k w"
  proof (intro allI impI bit_word_eqI)
    fix k n assume "l \<le> k" "k \<le> 3"
    then show "bit (idx k v) n = bit (idx k w) n" using bits [of "12 + 9 * k + n"] by (auto simp: bit_idx)
  qed
next
  assume eq: "\<forall>k. l \<le> k \<longrightarrow> k \<le> 3 \<longrightarrow> idx k v = idx k w"
  have bits: "bit v n = bit w n" if n: "12 + 9 * l \<le> n" "n < 48" for n
  proof -
    let ?k = "(n - 12) div 9"
    have "l \<le> ?k" "?k \<le> 3" using n by (auto simp: less_eq_div_iff_mult_less_eq)
    then have "bit (idx ?k v) ((n - 12) mod 9) = bit (idx ?k w) ((n - 12) mod 9)" using eq by simp
    moreover have "12 + 9 * ?k + (n - 12) mod 9 = n" using n by simp
    ultimately show ?thesis by (simp add: bit_idx)
  qed
  show "same_page l v w"
    unfolding same_page_def by (rule bit_word_eqI) (use bits in \<open>auto simp: bit_simps\<close>)
qed

lemma through_iff:
  assumes "l \<le> 1"
  shows "prefix (take (3 - l) (walk_path v) @ [idx l v]) (walk_path w) \<longleftrightarrow> same_page l v w"
proof -
  have "l = 0 \<or> l = 1" using assms by auto
  then show ?thesis
  proof
    assume "l = 0"
    moreover have "(\<forall>k \<le> 3. idx k v = idx k w) \<longleftrightarrow> (idx 0 v = idx 0 w \<and> idx 1 v = idx 1 w \<and> idx 2 v = idx 2 w \<and> idx 3 v = idx 3 w)"
      by (auto simp: le_Suc_eq numeral_3_eq_3 numeral_2_eq_2)
    ultimately show ?thesis by (auto simp: same_page_iff walk_path_def)
  next
    assume "l = 1"
    moreover have "(\<forall>k. Suc 0 \<le> k \<longrightarrow> k \<le> 3 \<longrightarrow> idx k v = idx k w) \<longleftrightarrow> (idx 1 v = idx 1 w \<and> idx 2 v = idx 2 w \<and> idx 3 v = idx 3 w)"
      by (auto simp: le_Suc_eq numeral_3_eq_3 numeral_2_eq_2)
    ultimately show ?thesis by (auto simp: same_page_iff walk_path_def)
  qed
qed

lemma frame_addr_leaf:
  assumes "PhysAddr e = take_bit 40 (drop_bit 12 phys)" and "unat phys mod 2 ^ (12 + 9 * l) = 0" and "unat phys < 2 ^ 52" and "l \<le> 3"
  shows "frame_addr l e w = phys + take_bit (12 + 9 * l) w"
proof -
  have "(4096 :: nat) dvd 2 ^ (12 + 9 * l)" by (simp add: power_add)
  then have "unat phys mod 4096 = 0" using assms(2) by (metis mod_0_imp_dvd dvd_trans dvd_imp_mod_0)
  then have t: "table_of e = phys" using PhysAddr_trip [of phys] assms(1,3) by (simp add: table_of_def)
  have "12 + 9 * l < 64" using assms(4) by simp
  then have "take_bit (12 + 9 * l) phys = 0"
    using assms(2) by (simp add: word_unat_eq_iff unsigned_take_bit_eq take_bit_eq_mod [of _ "unat phys"])
  then have lo: "\<not> bit phys n" if "n < 12 + 9 * l" for n using that by (metis bit_take_bit_iff bit_0_eq bot_apply bot_bool_def)
  have "phys AND take_bit (12 + 9 * l) w = 0" by (rule bit_word_eqI) (use lo in \<open>auto simp: bit_simps\<close>)
  then have "phys + take_bit (12 + 9 * l) w = phys OR take_bit (12 + 9 * l) w" by (rule disjunctive_add_eq_or)
  also have "\<dots> = frame_addr l e w"
    unfolding frame_addr_def t by (rule bit_word_eqI) (use lo in \<open>auto simp: bit_simps\<close>)
  finally show ?thesis by simp
qed

text \<open>
  What a successful mapping of a page of size \<open>2 ^ (12 + 9 * l)\<close> has done: the addresses of that
  page are translated to the frame, all others as before, no memory but tables and formerly
  free pages has changed.
\<close>

definition mapped :: "nat \<Rightarrow> addr \<Rightarrow> u64 \<Rightarrow> u64 \<Rightarrow> bool \<Rightarrow> 'z heap_scheme \<Rightarrow> 'z heap_scheme \<Rightarrow> bool" where
  "mapped l root virt phys user s s' \<longleftrightarrow> tree_ok s' root \<and> s' = s\<lparr>mem := mem s'\<rparr> \<and> table_bytes s' = table_bytes s \<and>
     (\<forall>w. if same_page l virt w
         then \<exists>e. translate (mem s') root w = Some (phys + take_bit (12 + 9 * l) w, e) \<and> RW e \<and> (user \<longrightarrow> UserSupervisor e)
         else translate (mem s') root w = translate (mem s) root w) \<and>
     (\<forall>x. x \<notin> reserved s root \<longrightarrow> mem s' x = mem s x) \<and> reserved s' root \<subseteq> reserved s root \<and>
     free_pages s' \<subseteq> free_pages s \<and> card (free_pages s) \<le> 3 + card (free_pages s')"

lemma mappedD:
  assumes "mapped l root virt phys user s s'"
  shows "tree_ok s' root" and "\<forall>x. x \<notin> reserved s root \<longrightarrow> mem s' x = mem s x"
    and "b = 12 + 9 * l \<Longrightarrow> \<forall>w. if same_page l virt w
        then \<exists>e. translate (mem s') root w = Some (phys + take_bit b w, e) \<and> RW e \<and> (user \<longrightarrow> UserSupervisor e)
        else translate (mem s') root w = translate (mem s) root w"
    and "card (free_pages s) \<le> 3 + card (free_pages s')"
  using assms unfolding mapped_def by auto

lemma leaf_stage:
  fixes user :: bool
  assumes g: "grows n root s s2" and n: "n \<le> 3" and l: "l \<le> 1"
    and t: "table_at (mem s2) root (take (3 - l) (walk_path virt)) = Some t"
    and phys: "unat phys mod 2 ^ (12 + 9 * l) = 0" "unat phys < 2 ^ 52"
    and sz: "(sz = PS_2M) = (l = 1)"
  defines "e \<equiv> leaf_entry sz user phys (pte (mem s2) t (idx l virt))"
  defines "s' \<equiv> s2\<lparr>mem := store64 (mem s2) (t + 8 * idx l virt) e\<rparr>"
  shows "mapped l root virt phys user s s'"
    and "path_ok q \<Longrightarrow> length q < 3 - l \<Longrightarrow> unat j < 512 \<Longrightarrow> table_at (mem s') root q = table_at (mem s2) root q \<and>
      (\<forall>u. table_at (mem s2) root q = Some u \<longrightarrow> pte (mem s') u j = pte (mem s2) u j)"
proof -
  let ?p = "take (3 - l) (walk_path virt)"
  have tree: "tree_ok s2 root" using g by (simp add: grows_def)
  have ok: "path_ok ?p" by (rule walk_path_ok) simp
  have len: "length ?p = 3 - l" by simp
  have leaf: "length ?p = 3 \<or> PageSize e \<and> 0 < length ?p" using l sz by (cases "l = 0") (auto simp: e_def)
  have pr: "Present e" by (simp add: e_def)
  have fin: "3 - length ?p = l" using l by simp
  note lw = leaf_write [OF tree ok t idx_less pr leaf]
  note aw = entry_write_alloc [OF tree ok t idx_less, of l virt e, folded s'_def]
  have fa: "frame_addr l e w = phys + take_bit (12 + 9 * l) w" for w
    by (rule frame_addr_leaf) (use phys l in \<open>auto simp: e_def\<close>)
  have "if same_page l virt w
      then \<exists>e. translate (mem s') root w = Some (phys + take_bit (12 + 9 * l) w, e) \<and> RW e \<and> (user \<longrightarrow> UserSupervisor e)
      else translate (mem s') root w = translate (mem s) root w" for w
  proof (cases "same_page l virt w")
    case True
    with through_iff [OF l, of virt w] lw(2) [of l virt w]
    have "translate (mem s') root w = Some (frame_addr l e w, e)" unfolding fin by (simp add: s'_def)
    with True fa show ?thesis by (simp add: e_def)
  next
    case False
    with through_iff [OF l, of virt w] lw(3) [of l virt w]
    have "translate (mem s') root w = translate (mem s2) root w" by (simp add: s'_def)
    with False g show ?thesis by (simp add: grows_def)
  qed
  moreover have "mem s' x = mem s x" if x: "x \<notin> reserved s root" for x
  proof -
    have "x \<notin> reserved s2 root" and same: "mem s2 x = mem s x" using g x by (auto simp: grows_def)
    with ok t have "x \<notin> bytes t 4096" by (auto simp: reserved_def)
    then have "mem s' x = mem s2 x"
      using entry_in_page [OF idx_less, of t l virt] by (auto simp: s'_def intro!: store_le_outside)
    with same show ?thesis by simp
  qed
  moreover have "s' = s\<lparr>mem := mem s'\<rparr>"
  proof -
    from g have "s2 = s\<lparr>mem := mem s2\<rparr>" by (simp add: grows_def)
    then have "s2\<lparr>mem := mem s'\<rparr> = s\<lparr>mem := mem s'\<rparr>" by (metis machine.fold_congs(1) machine.update_convs(1) mem_mem_update)
    then show ?thesis by (simp add: s'_def)
  qed
  moreover have "tree_ok s' root" unfolding s'_def by (rule lw(1))
  moreover have "reserved s' root \<subseteq> reserved s root"
  proof -
    have "table_at (mem s2) root q = Some u" if q: "path_ok q" "table_at (mem s') root q = Some u" for q u
    proof (cases "prefix (?p @ [idx l virt]) q")
      case True
      then obtain r where r: "q = ?p @ idx l virt # r" by (auto simp: prefix_def)
      with q(1) len have "l \<noteq> 0" by (auto simp: path_ok_def)
      with leaf len l have "PageSize e" by auto
      with table_at_written(2) [OF tree ok t idx_less, of l virt e r] q(2) r show ?thesis
        by (simp add: s'_def child_def)
    next
      case False
      with table_at_written(1) [OF tree ok t idx_less q(1), of l virt e] q(2) show ?thesis by (simp add: s'_def)
    qed
    then have "reserved s' root \<subseteq> reserved s2 root" unfolding reserved_def aw(2,3) by blast
    with g show ?thesis by (auto simp: grows_def)
  qed
  ultimately show "mapped l root virt phys user s s'" using g n aw(2,3) by (simp add: mapped_def grows_def)
  note agree = entry_write_agree [OF tree ok t idx_less, of l virt e]
  show "table_at (mem s') root q = table_at (mem s2) root q \<and>
      (\<forall>u. table_at (mem s2) root q = Some u \<longrightarrow> pte (mem s') u j = pte (mem s2) u j)"
    if q: "path_ok q" "length q < 3 - l" "unat j < 512"
  proof -
    have "\<not> prefix (?p @ [idx l virt]) q" using q(2) prefix_length_le [of "?p @ [idx l virt]" q] by auto
    moreover have "q \<noteq> ?p" using q(2) len by auto
    ultimately show ?thesis
      using table_at_agree [OF agree q(1)] agree q(1,3) by (auto simp: s'_def avoids_def agree_but_def)
  qed
qed

lemma leaf_small:
  assumes "grows n root s s2" and "d \<le> 3" and "\<And>q j. path_ok q \<Longrightarrow> length q < d \<Longrightarrow> unat j < 512 \<Longrightarrow>
      table_at m root q = table_at (mem s2) root q \<and> (\<forall>u. table_at (mem s2) root q = Some u \<longrightarrow> pte m u j = pte (mem s2) u j)"
    and "small_path (mem s) root v d"
  shows "small_path m root v d"
proof -
  have s2: "small_path (mem s2) root v d" using grows_small [OF assms(1,4,2)] .
  have "table_at m root (take k (walk_path v)) = table_at (mem s2) root (take k (walk_path v)) \<and>
      (\<forall>u. table_at (mem s2) root (take k (walk_path v)) = Some u \<longrightarrow> pte m u (idx (3 - k) v) = pte (mem s2) u (idx (3 - k) v))"
    if "k < d" for k
    using that assms(2) by (intro assms(3) walk_path_ok idx_less) auto
  with s2 show ?thesis by (auto simp: small_path_def)
qed

text \<open>A page just allocated is an empty PML4.\<close>

lemma empty_root:
  assumes inv: "alloc_ok s" and low: "\<forall>p \<in> free_pages s. unat p < 2 ^ 40" and ret: "PageAlloc s = Inr (root, s')"
  shows "tree_ok s' root" and "translate (mem s') root w = None" and "small_path (mem s') root w d"
    and "card (free_pages s) = Suc (card (free_pages s'))" and "unat j < 512 \<Longrightarrow> pte (mem s') root j = 0"
proof -
  from pages.alloc_effect [OF inv ret] have r: "root \<in> free_pages s" "alloc_ok s'"
    "free_pages s' = free_pages s - {root}" "table_bytes s' = table_bytes s" and zero: "\<And>x. x \<in> bytes root 4096 \<Longrightarrow> mem s' x = 0" by auto
  from pages.avail_page [OF inv r(1)] have ok: "page_ok root" "bytes root 4096 \<inter> table_bytes s = {}" by auto
  have z: "pte (mem s') root j = 0" if "unat j < 512" for j
    unfolding pte_def by (rule load_zero) (use zero entry_in_page [OF that, of root] in auto)
  then show "unat j < 512 \<Longrightarrow> pte (mem s') root j = 0" .
  have at: "table_at (mem s') root q = (if q = [] then Some root else None)" if "path_ok q" for q
    using that z by (cases q) (auto simp: child_def path_ok_def)
  have own: "owned_page s' root" using ok low r by (simp add: owned_page_def)
  show "tree_ok s' root" unfolding tree_ok_def
  proof (intro conjI allI impI ballI)
    show "owned_page s' t" if "path_ok q" "table_at (mem s') root q = Some t" for q t
      using that own by (auto simp: at split: if_splits)
    show "pte (mem s') t i = 0" if "path_ok q" "table_at (mem s') root q = Some t" "unat i < 512" for q t i
      using that z by (auto simp: at split: if_splits)
    show "q = q'" if "path_ok q" "path_ok q'" "table_at (mem s') root q = Some t" "table_at (mem s') root q' = Some t" for q q' t
      using that by (auto simp: at split: if_splits)
  qed (use r low in auto)
  have "hw_walk (mem s') (Suc 3) root w = None" using z idx_less by (subst hw_walk.simps) (simp add: Let_def)
  then show "translate (mem s') root w = None" by (simp add: translate_def)
  have only: "t = root" if "table_at (mem s') root (take k (walk_path w)) = Some t" for k t
    using that z idx_less by (cases k) (auto simp: walk_path_def child_def)
  have "\<not> PageSize (pte (mem s') root (idx l w))" for l using z [OF idx_less] by simp
  with only show "small_path (mem s') root w d" unfolding small_path_def by blast
  show "card (free_pages s) = Suc (card (free_pages s'))"
    unfolding r(3) using pages.avail_finite [OF inv] r(1) by (metis card.remove)
qed

definition demo_paging0 :: paging where
  "demo_paging0 = heap.extend demo_heap (paging.fields 0 \<lparr>gp_mmap = demo_map, gp_hhdm_base = 0xFFFF800000000000,
     gp_kernelSize = 0x2000, gp_kernelPhysBase = 0x200000, gp_kernelVirtBase = 0xFFFFFFFF80000000,
     gp_fbBase = 0xFFFF8000FD000000, gp_fbSize = 0x1000\<rparr>)"

definition demo_paging :: paging where
  "demo_paging = (case PageAlloc demo_paging0 of Inl (_, s) \<Rightarrow> s | Inr (_, s) \<Rightarrow> s)"

lemma demo_paging_ok:
  "tree_ok demo_paging 0x101000" "translate (mem demo_paging) 0x101000 w = None"
  "small_path (mem demo_paging) 0x101000 w d" "card (free_pages demo_paging) = 3"
  "unat j < 512 \<Longrightarrow> pte (mem demo_paging) 0x101000 j = 0"
proof -
  have fr: "frame_table demo_paging0 = frame_table demo_heap" "FrameList demo_paging0 = FrameList demo_heap"
    by (simp_all add: demo_paging0_def heap.defs paging.defs frame_table_def nframes_def)
  have inv: "alloc_ok demo_paging0" using demo_heap_ok(1) by (simp add: heap_ok_def alloc_ok_def fr)
  have fp: "free_pages demo_paging0 = {0x101000, 0x102000, 0x103000, 0x104000}"
    using demo_heap_ok(2) by (simp add: free_pages_def fr)
  obtain s1 where "PageAlloc demo_paging0 = Inr (0x101000, s1)"
    using PageAlloc_table [OF inv] by (auto simp: fr demo_heap_frames demo_table Let_def)
  then have ret: "PageAlloc demo_paging0 = Inr (0x101000, demo_paging)" by (simp add: demo_paging_def)
  have low: "\<forall>p \<in> free_pages demo_paging0. unat p < 2 ^ 40" by (simp add: fp)
  from empty_root [OF inv low ret] fp show "tree_ok demo_paging 0x101000" "translate (mem demo_paging) 0x101000 w = None"
    "small_path (mem demo_paging) 0x101000 w d" "card (free_pages demo_paging) = 3"
    "unat j < 512 \<Longrightarrow> pte (mem demo_paging) 0x101000 j = 0" by simp_all
qed

lemma aligned_iff: "is_aligned a 4096 \<noteq> 0 \<longleftrightarrow> unat a mod 4096 = 0"
  by (simp add: is_aligned_def word_unat_eq_iff unat_mod)

lemma MapMemory_4K_maps:
  assumes "tree_ok s root" and "small_path (mem s) root virt 3"
    and "card (way virt 3 - tabs (mem s) root) \<le> card (free_pages s)"
    and "unat virt mod 4096 = 0" and "unat phys mod 4096 = 0" and "unat phys < 2 ^ 52"
  shows "\<exists>s'. MapMemory root virt phys PS_4K user s = Inr (KSTATUS_SUCCESS, s') \<and> mapped 0 root virt phys user s s' \<and>
    (\<forall>v d. d \<le> 3 \<longrightarrow> small_path (mem s) root v d \<longrightarrow> small_path (mem s') root v d) \<and>
    (UserSupervisor (pte (mem s') root (idx 3 virt)) \<longrightarrow> UserSupervisor (pte (mem s) root (idx 3 virt))) \<and>
    tabs (mem s') root = way virt 3 \<union> tabs (mem s) root \<and>
    card (tabs (mem s') root) + card (free_pages s') = card (tabs (mem s) root) + card (free_pages s)"
proof -
  from down_three [OF assms(1-3)] obtain pdpt pd pt s1 s2 s3 where
    d: "GetEntryNextLevel root (idx 3 virt) s = Inr (pdpt, s1)" "GetEntryNextLevel pdpt (idx 2 virt) s1 = Inr (pd, s2)"
    "GetEntryNextLevel pd (idx 1 virt) s2 = Inr (pt, s3)" and g: "grows 3 root s s3"
    and pt: "table_at (mem s3) root (take 3 (walk_path virt)) = Some pt" and ts: "tabs (mem s3) root = way virt 3 \<union> tabs (mem s) root" by blast
  have tree: "tree_ok s3 root" using g by (simp add: grows_def)
  have "pt \<noteq> 0" using tree_okD(1) [OF tree walk_path_ok pt] owned_pageD(2) by blast
  let ?m = "store64 (mem s3) (pt + 8 * idx 0 virt) (leaf_entry PS_4K user phys (pte (mem s3) pt (idx 0 virt)))"
  have ret: "MapMemory root virt phys PS_4K user s = Inr (KSTATUS_SUCCESS, s3\<lparr>mem := ?m\<rparr>)"
    using MapMemory_down(2) [OF _ _ d(1,2,3)] assms(4,5) \<open>pt \<noteq> 0\<close> by (simp add: aligned_iff)
  have ls: "mapped 0 root virt phys user s (s3\<lparr>mem := ?m\<rparr>)"
    "path_ok q \<Longrightarrow> length q < 3 \<Longrightarrow> unat j < 512 \<Longrightarrow> table_at ?m root q = table_at (mem s3) root q \<and>
      (\<forall>u. table_at (mem s3) root q = Some u \<longrightarrow> pte ?m u j = pte (mem s3) u j)" for q j
    using leaf_stage [OF g, where l = 0 and virt = virt and t = pt and sz = PS_4K and user = user and phys = phys]
      pt assms(5,6) by simp_all
  have "small_path ?m root v d" if "d \<le> 3" "small_path (mem s) root v d" for v d
    by (rule leaf_small [OF g that(1) _ that(2)]) (use ls(2) that(1) in auto)
  moreover have "UserSupervisor (pte (mem s) root (idx 3 virt))" if "UserSupervisor (pte ?m root (idx 3 virt))"
  proof -
    have "UserSupervisor (pte (mem s3) root (idx 3 virt))" using that ls(2) [of "[]"] idx_less by (simp add: path_ok_def)
    moreover have "path_ok []" by (simp add: path_ok_def)
    ultimately show ?thesis using g idx_less [of 3 virt] unfolding grows_def by (metis insertCI table_at.simps(1))
  qed
  moreover have "tabs ?m root = way virt 3 \<union> tabs (mem s) root"
    using leaf_tabs [OF tree walk_path_ok pt idx_less] ts by (simp add: tabs_def path_ok_def)
  moreover from this ts g entry_write_alloc(2) [OF tree walk_path_ok pt idx_less]
  have "card (tabs ?m root) + card (free_pages (s3\<lparr>mem := ?m\<rparr>)) = card (tabs (mem s) root) + card (free_pages s)"
    by (simp add: grows_def)
  ultimately show ?thesis using ret ls(1) by auto
qed

lemma MapMemory_4K_mapped:
  assumes "tree_ok s root" and "small_path (mem s) root virt 3" and "3 \<le> card (free_pages s)"
    and "unat virt mod 4096 = 0" and "unat phys mod 4096 = 0" and "unat phys < 2 ^ 52"
  shows "\<exists>s'. MapMemory root virt phys PS_4K user s = Inr (KSTATUS_SUCCESS, s') \<and> mapped 0 root virt phys user s s' \<and>
    (\<forall>v. small_path (mem s) root v 3 \<longrightarrow> small_path (mem s') root v 3) \<and>
    (UserSupervisor (pte (mem s') root (idx 3 virt)) \<longrightarrow> UserSupervisor (pte (mem s) root (idx 3 virt)))"
  using MapMemory_4K_maps [OF assms(1,2) order_trans [OF card_way assms(3)] assms(4-6), of user] by blast

lemma MapMemory_2M_mapped:
  assumes "tree_ok s root" and "small_path (mem s) root virt 2"
    and "card (way virt 2 - tabs (mem s) root) \<le> card (free_pages s)"
    and "unat virt mod 4096 = 0" and "unat phys mod 0x200000 = 0" and "unat phys < 2 ^ 52"
  shows "\<exists>s' s2 pd. MapMemory root virt phys PS_2M user s = Inr (KSTATUS_SUCCESS, s') \<and> mapped 1 root virt phys user s s' \<and>
    grows 2 root s s2 \<and> table_at (mem s2) root (take 2 (walk_path virt)) = Some pd \<and> tabs (mem s2) root = way virt 2 \<union> tabs (mem s) root \<and>
    s' = s2\<lparr>mem := store64 (mem s2) (pd + 8 * idx 1 virt) (leaf_entry PS_2M user phys (pte (mem s2) pd (idx 1 virt)))\<rparr>"
proof -
  from down_two [OF assms(1,2) _ assms(3)] obtain pdpt pd s1 s2 where
    d: "GetEntryNextLevel root (idx 3 virt) s = Inr (pdpt, s1)" "GetEntryNextLevel pdpt (idx 2 virt) s1 = Inr (pd, s2)"
    and g: "grows 2 root s s2" and pd: "table_at (mem s2) root (take 2 (walk_path virt)) = Some pd"
    and ts: "tabs (mem s2) root = way virt 2 \<union> tabs (mem s) root" by auto
  have tree: "tree_ok s2 root" using g by (simp add: grows_def)
  have "pd \<noteq> 0" using tree_okD(1) [OF tree walk_path_ok pd] owned_pageD(2) by force
  moreover have "(4096 :: nat) dvd 0x200000" by simp
  then have al: "unat phys mod 4096 = 0" using assms(5) by (metis mod_0_imp_dvd dvd_trans dvd_imp_mod_0)
  ultimately show ?thesis
    using MapMemory_down(1) [OF _ _ d] assms(4-6) pd g ts
      leaf_stage(1) [OF g, where l = 1 and virt = virt and t = pd and sz = PS_2M and user = user and phys = phys]
    by (auto simp: aligned_iff)
qed

lemma MapMemory_2M_maps:
  assumes "tree_ok s root" and "small_path (mem s) root virt 2"
    and "card (way virt 2 - tabs (mem s) root) \<le> card (free_pages s)"
    and "unat virt mod 4096 = 0" and "unat phys mod 0x200000 = 0" and "unat phys < 2 ^ 52"
    and new: "take 3 (walk_path virt) \<notin> tabs (mem s) root"
  shows "\<exists>s'. MapMemory root virt phys PS_2M user s = Inr (KSTATUS_SUCCESS, s') \<and> mapped 1 root virt phys user s s' \<and>
    (\<forall>v. small_path (mem s) root v 2 \<longrightarrow> small_path (mem s') root v 2) \<and>
    (\<forall>v. \<not> same_page 1 virt v \<longrightarrow> small_path (mem s) root v 3 \<longrightarrow> small_path (mem s') root v 3) \<and>
    tabs (mem s') root = way virt 2 \<union> tabs (mem s) root \<and>
    card (tabs (mem s') root) + card (free_pages s') = card (tabs (mem s) root) + card (free_pages s)"
proof -
  from MapMemory_2M_mapped [OF assms(1-6), of user] obtain s' s2 pd where
    ret: "MapMemory root virt phys PS_2M user s = Inr (KSTATUS_SUCCESS, s')" "mapped 1 root virt phys user s s'"
    and g: "grows 2 root s s2" and pd: "table_at (mem s2) root (take 2 (walk_path virt)) = Some pd"
    and ts: "tabs (mem s2) root = way virt 2 \<union> tabs (mem s) root"
    and s': "s' = s2\<lparr>mem := store64 (mem s2) (pd + 8 * idx 1 virt) (leaf_entry PS_2M user phys (pte (mem s2) pd (idx 1 virt)))\<rparr>" by blast
  have tree: "tree_ok s2 root" using g by (simp add: grows_def)
  let ?p = "take 2 (walk_path virt)"
  have ok: "path_ok ?p" by (rule walk_path_ok) simp
  have snoc: "take 3 (walk_path virt) = ?p @ [idx 1 virt]" using walk_path_take [of 2 virt] by (simp add: numeral_3_eq_3 numeral_2_eq_2)
  have "take 3 (walk_path virt) \<notin> way virt 2" by (auto simp: way_def walk_path_def numeral_2_eq_2 less_Suc_eq)
  with new ts snoc have "?p @ [idx 1 virt] \<notin> tabs (mem s2) root" by simp
  from leaf_tabs [OF tree ok pd idx_less _ this] have tabs: "tabs (mem s') root = way virt 2 \<union> tabs (mem s) root" by (simp add: s' ts)
  moreover from this ts g entry_write_alloc(2) [OF tree ok pd idx_less]
  have "card (tabs (mem s') root) + card (free_pages s') = card (tabs (mem s) root) + card (free_pages s)"
    by (simp add: s' grows_def)
  moreover have agree: "agree_but (Some (?p, idx 1 virt)) (mem s') (mem s2) root"
    using entry_write_agree [OF tree ok pd idx_less] by (simp add: s')
  have at: "table_at (mem s') root (take k (walk_path v)) = table_at (mem s2) root (take k (walk_path v))" if "k \<le> 2" for k v
  proof (rule table_at_agree [OF agree])
    show "path_ok (take k (walk_path v))" using that by (intro walk_path_ok) simp
    show "avoids (Some (?p, idx 1 virt)) (take k (walk_path v))"
      using that prefix_length_le [of "?p @ [idx 1 virt]" "take k (walk_path v)"] by (auto simp: avoids_def)
  qed
  have entry: "pte (mem s') t (idx (3 - k) v) = pte (mem s2) t (idx (3 - k) v)"
    if "k \<le> 2" "table_at (mem s2) root (take k (walk_path v)) = Some t" "k < 2 \<or> \<not> same_page 1 virt v" for k v t
  proof -
    have "(?p, idx 1 virt) \<noteq> (take k (walk_path v), idx (3 - k) v)"
    proof
      assume eq: "(?p, idx 1 virt) = (take k (walk_path v), idx (3 - k) v)"
      then have "length ?p = length (take k (walk_path v))" by simp
      then have k: "k = 2" using that(1) by simp
      with eq have "prefix (?p @ [idx 1 virt]) (walk_path v)" by (simp add: walk_path_def)
      with through_iff [of 1 virt v] that(3) k show False by simp
    qed
    with agree that(1,2) walk_path_ok [of k v] idx_less show ?thesis by (auto simp: agree_but_def)
  qed
  have "small_path (mem s') root v 2" if "small_path (mem s) root v 2" for v
    using grows_small [OF g that] at entry by (auto simp: small_path_def)
  moreover have "small_path (mem s') root v 3" if "\<not> same_page 1 virt v" "small_path (mem s) root v 3" for v
    using grows_small [OF g that(2)] at entry that(1) by (simp add: small_path_def)
  ultimately show ?thesis using ret by blast
qed

section \<open>Mapping a range\<close>

text \<open>The rule for a loop over the pages below a limit: an invariant that every round moves on.\<close>

lemma for_up_pages:
  assumes step: "\<And>j s. j < n \<Longrightarrow> I j s \<Longrightarrow> \<exists>s'. body (of_nat (4096 * j)) s = Inr ((), s') \<and> I (Suc j) s'"
    and n: "n = (unat limit + 4095) div 4096" and small: "unat limit + 4096 \<le> 2 ^ 64"
  shows "j \<le> n \<Longrightarrow> I j s \<Longrightarrow> \<exists>s'. for_up limit 4096 body (of_nat (4096 * j)) s = Some (Inr ((), s')) \<and> I n s'"
proof (induction "n - j" arbitrary: j s)
  case 0
  then have "4096 * j = (unat limit + 4095) div 4096 * 4096" using n by simp
  then have "unat limit \<le> 4096 * j" "4096 * j < unat limit + 4096" using round_up_bounds [of 4096 "unat limit"] by simp_all
  moreover from this(2) small have "unat (of_nat (4096 * j) :: u64) = 4096 * j" by (intro unat_of_nat64) simp
  ultimately have "\<not> of_nat (4096 * j) < limit" by (simp add: word_less_nat_alt)
  with 0 show ?case by (subst for_up.simps) auto
next
  case (Suc k)
  then have "j < n" by simp
  then have lt: "4096 * j < unat limit" using n by simp
  moreover have "unat limit < 2 ^ 64" using small by simp
  ultimately have "unat (of_nat (4096 * j) :: u64) = 4096 * j" by (intro unat_of_nat64) simp
  with lt have go: "of_nat (4096 * j) < limit" by (simp add: word_less_nat_alt)
  from step [OF \<open>j < n\<close> Suc.prems(2)] obtain s1 where s1: "body (of_nat (4096 * j)) s = Inr ((), s1)" "I (Suc j) s1" by blast
  have nx: "(of_nat (4096 * j) :: u64) + 4096 = of_nat (4096 * Suc j)" by simp
  have "for_up limit 4096 body (of_nat (4096 * j)) s = for_up limit 4096 body (of_nat (4096 * Suc j)) s1"
    unfolding nx [symmetric] using go s1(1) by (subst for_up.simps) simp
  with Suc.hyps(1) [OF _ _ s1(2)] Suc.hyps(2) \<open>j < n\<close> show ?case by simp
qed

lemma pages_of_range_differ:
  assumes "same_page 0 (b + of_nat (4096 * j)) (b + of_nat (4096 * k))" and "unat b mod 4096 = 0"
    and "j < 2 ^ 36" and "k < 2 ^ 36"
  shows "j = k"
proof -
  have pg: "unat (drop_bit 12 (take_bit 48 (b + of_nat (4096 * i)))) = (unat b div 4096 + i) mod 2 ^ 36" if "i < 2 ^ 36" for i
  proof -
    have "unat (of_nat (4096 * i) :: u64) = 4096 * i" using that by (intro unat_of_nat64) simp
    then have "unat (b + of_nat (4096 * i)) mod 2 ^ 48 = (unat b + 4096 * i) mod 2 ^ 48"
      by (simp add: unat_word_ariths mod_mod_cancel)
    then have "unat (drop_bit 12 (take_bit 48 (b + of_nat (4096 * i)))) = (unat b + 4096 * i) mod 2 ^ 48 div 4096"
      by (simp add: take_bit_eq_mod drop_bit_eq_div unat_div unat_mod)
    also have "unat b + 4096 * i = 4096 * (unat b div 4096 + i)" using assms(2) by auto
    also have "\<dots> mod 2 ^ 48 div 4096 = (unat b div 4096 + i) mod 2 ^ 36"
      using mult_mod_right [of 4096 "unat b div 4096 + i" "2 ^ 36"] by simp
    finally show ?thesis .
  qed
  have "j = k" if "j \<le> k" "(B + k) mod 2 ^ 36 = (B + j) mod 2 ^ 36" "k < 2 ^ 36" for B j k :: nat
  proof -
    have "2 ^ 36 dvd (B + k) - (B + j)" using that by (subst mod_eq_dvd_iff_nat [symmetric]) auto
    then show ?thesis using that by (auto dest: dvd_imp_le)
  qed
  with pg [OF assms(3)] pg [OF assms(4)] assms show ?thesis
    unfolding same_page_def by (metis add_cancel_left_right mult_0_right nat_le_linear)
qed

text \<open>After \<open>j\<close> pages of a range: their translations, and that nothing else has changed.\<close>

definition range_mapped :: "addr \<Rightarrow> u64 \<Rightarrow> u64 \<Rightarrow> 'z heap_scheme \<Rightarrow> nat \<Rightarrow> 'z heap_scheme \<Rightarrow> bool" where
  "range_mapped root virt phys s j s' \<longleftrightarrow> tree_ok s' root \<and> (\<forall>v. small_path (mem s') root v 3) \<and>
     card (free_pages s) \<le> 3 * j + card (free_pages s') \<and>
     (\<forall>k < j. \<forall>w. same_page 0 (virt + of_nat (4096 * k)) w \<longrightarrow>
        (\<exists>e. translate (mem s') root w = Some (phys + of_nat (4096 * k) + take_bit 12 w, e) \<and> RW e)) \<and>
     (\<forall>w. (\<forall>k < j. \<not> same_page 0 (virt + of_nat (4096 * k)) w) \<longrightarrow> translate (mem s') root w = translate (mem s) root w)"

lemma same_page_sym: "same_page l v w \<Longrightarrow> same_page l w v"
  by (simp add: same_page_def)

lemma same_page_trans: "same_page l v w \<Longrightarrow> same_page l w u \<Longrightarrow> same_page l v u"
  by (simp add: same_page_def)

lemma range_step:
  assumes I: "range_mapped root virt phys s j s1" and free: "3 * Suc j \<le> card (free_pages s)" and j: "j < 2 ^ 36"
    and al: "unat virt mod 4096 = 0" "unat phys mod 4096 = 0" and lim: "unat phys + 4096 * j < 2 ^ 52"
  shows "\<exists>s2. map_page root (virt + of_nat (4096 * j)) (phys + of_nat (4096 * j)) PS_4K False s1 = Inr ((), s2) \<and>
    range_mapped root virt phys s (Suc j) s2"
proof -
  let ?v = "virt + of_nat (4096 * j) :: u64" and ?p = "phys + of_nat (4096 * j) :: u64"
  have o: "unat (of_nat (4096 * j) :: u64) = 4096 * j" using j by (intro unat_of_nat64) simp
  have "unat ?v mod 4096 = (unat virt + 4096 * j) mod 2 ^ LENGTH(64) mod 4096" unfolding unat_word_ariths(1) o ..
  also have "\<dots> = (unat virt + 4096 * j) mod 4096" by (rule mod_mod_cancel) simp
  finally have va: "unat ?v mod 4096 = 0" using al(1) by simp
  have pu: "unat ?p = unat phys + 4096 * j" unfolding unat_word_ariths(1) o using lim by simp
  have pa: "unat ?p mod 4096 = 0" "unat ?p < 2 ^ 52" using pu al(2) lim by simp_all
  from I have tree: "tree_ok s1 root" and small: "\<forall>v. small_path (mem s1) root v 3"
    and card: "card (free_pages s) \<le> 3 * j + card (free_pages s1)"
    and old: "\<forall>k < j. \<forall>w. same_page 0 (virt + of_nat (4096 * k)) w \<longrightarrow>
        (\<exists>e. translate (mem s1) root w = Some (phys + of_nat (4096 * k) + take_bit 12 w, e) \<and> RW e)"
    and rest: "\<forall>w. (\<forall>k < j. \<not> same_page 0 (virt + of_nat (4096 * k)) w) \<longrightarrow> translate (mem s1) root w = translate (mem s) root w"
    unfolding range_mapped_def by blast+
  have "3 \<le> card (free_pages s1)" using free card by simp
  from MapMemory_4K_mapped [OF tree spec [OF small] this va pa] obtain s2 where
    s2: "MapMemory root ?v ?p PS_4K False s1 = Inr (KSTATUS_SUCCESS, s2)" "mapped 0 root ?v ?p False s1 s2"
    "\<forall>v. small_path (mem s1) root v 3 \<longrightarrow> small_path (mem s2) root v 3" by blast
  have tr: "if same_page 0 ?v w
        then \<exists>e. translate (mem s2) root w = Some (?p + take_bit 12 w, e) \<and> RW e \<and> (False \<longrightarrow> UserSupervisor e)
        else translate (mem s2) root w = translate (mem s1) root w" for w
    by (rule spec [OF mappedD(3) [OF s2(2)]]) simp
  have "range_mapped root virt phys s (Suc j) s2"
    unfolding range_mapped_def
  proof (intro conjI allI impI)
    show "tree_ok s2 root" by (rule mappedD(1) [OF s2(2)])
    show "small_path (mem s2) root v 3" for v using s2(3) small by blast
    show "card (free_pages s) \<le> 3 * Suc j + card (free_pages s2)" using card mappedD(4) [OF s2(2)] by simp
    show "\<exists>e. translate (mem s2) root w = Some (phys + of_nat (4096 * k) + take_bit 12 w, e) \<and> RW e"
      if k: "k < Suc j" "same_page 0 (virt + of_nat (4096 * k)) w" for k w
    proof (cases "k = j")
      case True
      with tr [of w] k(2) show ?thesis by auto
    next
      case False
      have "\<not> same_page 0 ?v w"
      proof
        assume "same_page 0 ?v w"
        from same_page_trans [OF this same_page_sym [OF k(2)]] have "j = k"
          by (rule pages_of_range_differ) (use al(1) j k(1) in auto)
        with False show False by simp
      qed
      with tr [of w] old False k show ?thesis by simp
    qed
    show "translate (mem s2) root w = translate (mem s) root w"
      if "\<forall>k < Suc j. \<not> same_page 0 (virt + of_nat (4096 * k)) w" for w
      using tr [of w] rest that by simp
  qed
  with s2(1) show ?thesis by (auto simp: map_page_def)
qed

lemma map_kernel_range:
  assumes tree: "tree_ok s root" and small: "\<forall>v. small_path (mem s) root v 3"
    and info: "GlobalPagingInfo s = g" and n: "n = (unat (gp_kernelSize g) + 4095) div 4096"
    and free: "3 * n \<le> card (free_pages s)" and lim: "n < 2 ^ 36" "unat (gp_kernelPhysBase g) + 4096 * n \<le> 2 ^ 52"
    and al: "unat (gp_kernelVirtBase g) mod 4096 = 0" "unat (gp_kernelPhysBase g) mod 4096 = 0"
  shows "\<exists>s'. map_kernel root s = Inr ((), s') \<and> range_mapped root (gp_kernelVirtBase g) (gp_kernelPhysBase g) s n s'"
proof -
  let ?v = "gp_kernelVirtBase g" and ?p = "gp_kernelPhysBase g"
  let ?body = "\<lambda>i s. map_page root (?v + i) (?p + i) PS_4K False s"
  have step: "\<exists>s2. ?body (of_nat (4096 * j)) s1 = Inr ((), s2) \<and> range_mapped root ?v ?p s (Suc j) s2"
    if "j < n" "range_mapped root ?v ?p s j s1" for j s1
    using that free lim al by (intro range_step) auto
  have "unat (gp_kernelSize g) \<le> 4096 * n" using n round_up_bounds(1) [of 4096 "unat (gp_kernelSize g)"] by simp
  then have "unat (gp_kernelSize g) + 4096 \<le> 2 ^ 64" using lim(1) by simp
  moreover have "range_mapped root ?v ?p s 0 s" using tree small by (simp add: range_mapped_def)
  ultimately have "\<exists>s'. for_up (gp_kernelSize g) 4096 ?body (of_nat (4096 * 0)) s = Some (Inr ((), s')) \<and> range_mapped root ?v ?p s n s'"
    using for_up_pages [where I = "range_mapped root ?v ?p s" and body = ?body, OF step n] by blast
  then show ?thesis by (auto simp: map_kernel_def for_loop_def info Let_def)
qed

section \<open>Properties\<close>



text \<open>
  \<open>MapMemory\<close> of a 2 MiB page succeeds when two pages are free; afterwards the processor
  translates exactly the addresses of that page to the frame, every other translation is
  unchanged and the tables stay a tree.
\<close>

theorem MapMemory_2M:
  assumes "tree_ok s root" and "small_path (mem s) root virt 2" and "2 \<le> card (free_pages s)"
    and "unat virt mod 4096 = 0" and "unat phys mod 0x200000 = 0" and "unat phys < 2 ^ 52"
  shows "\<exists>s'. MapMemory root virt phys PS_2M user s = Inr (KSTATUS_SUCCESS, s') \<and> tree_ok s' root \<and>
    (\<forall>w. if same_page 1 virt w
        then \<exists>e. translate (mem s') root w = Some (phys + take_bit 21 w, e) \<and> RW e \<and> (user \<longrightarrow> UserSupervisor e)
        else translate (mem s') root w = translate (mem s) root w) \<and>
    (\<forall>x. x \<notin> reserved s root \<longrightarrow> mem s' x = mem s x)"
proof -
  from MapMemory_2M_mapped [OF assms(1,2) order_trans [OF card_way assms(3)] assms(4-6), of user] obtain s' where
    s': "MapMemory root virt phys PS_2M user s = Inr (KSTATUS_SUCCESS, s')" "mapped 1 root virt phys user s s'" by blast
  with mappedD(1,2) [OF s'(2)] mappedD(3) [OF s'(2), of 21] show ?thesis by (intro exI [of _ s']) simp
qed

theorem MapMemory_2M_witness:
  "\<exists>s'. MapMemory 0x101000 0x200000 0x200000 PS_2M False demo_paging = Inr (KSTATUS_SUCCESS, s') \<and>
    (\<exists>e. translate (mem s') 0x101000 0x3FFFFF = Some (0x3FFFFF, e)) \<and> translate (mem s') 0x101000 0x400000 = None"
proof -
  have "2 \<le> card (free_pages demo_paging)" by (simp add: demo_paging_ok(4))
  from MapMemory_2M [OF demo_paging_ok(1,3) this, of "0x200000" "0x200000" False]
  obtain s' where s': "MapMemory 0x101000 0x200000 0x200000 PS_2M False demo_paging = Inr (KSTATUS_SUCCESS, s')"
    "\<forall>w. if same_page 1 0x200000 w
        then \<exists>e. translate (mem s') 0x101000 w = Some (0x200000 + take_bit 21 w, e) \<and> RW e \<and> (False \<longrightarrow> UserSupervisor e)
        else translate (mem s') 0x101000 w = translate (mem demo_paging) 0x101000 w" by auto
  have "same_page 1 0x200000 0x3FFFFF" "\<not> same_page 1 0x200000 0x400000"
    by (simp_all add: same_page_def take_bit_eq_mod drop_bit_eq_div)
  with spec [OF s'(2), of "0x3FFFFF"] spec [OF s'(2), of "0x400000"] s'(1) show ?thesis
    by (auto simp: demo_paging_ok(2) take_bit_eq_mod)
qed

text \<open>
  C40: the user bit is set in the last entry only. The processor lets user code through only
  if every entry on the way has the bit, so a page mapped with \<open>user = true\<close> below a PML4
  entry without it stays out of reach for user code.
\<close>

primrec user_walk :: "memory \<Rightarrow> nat \<Rightarrow> addr \<Rightarrow> u64 \<Rightarrow> bool" where
  "user_walk m 0 t v = False"
| "user_walk m (Suc l) t v =
     (let e = pte m t (idx l v) in
      Present e \<and> UserSupervisor e \<and> (l = 0 \<or> PageSize e \<or> user_walk m l (table_of e) v))"

theorem MapMemory_user_denied:
  assumes "tree_ok s root" and "small_path (mem s) root virt 3" and "3 \<le> card (free_pages s)"
    and "unat virt mod 4096 = 0" and "unat phys mod 4096 = 0" and "unat phys < 2 ^ 52"
    and "\<not> UserSupervisor (pte (mem s) root (idx 3 virt))"
  shows "\<exists>s'. MapMemory root virt phys PS_4K True s = Inr (KSTATUS_SUCCESS, s') \<and>
    (\<exists>e. translate (mem s') root virt = Some (phys, e) \<and> UserSupervisor e) \<and> \<not> user_walk (mem s') 4 root virt"
proof -
  from MapMemory_4K_mapped [OF assms(1-6), of True] assms(7) obtain s' where
    s': "MapMemory root virt phys PS_4K True s = Inr (KSTATUS_SUCCESS, s')" "mapped 0 root virt phys True s s'"
    "\<not> UserSupervisor (pte (mem s') root (idx 3 virt))" by blast
  have "take_bit 12 virt = 0" using assms(4) by (simp add: word_unat_eq_iff take_bit_eq_mod unat_mod)
  with spec [OF mappedD(3) [OF s'(2), of 12], of virt] have "\<exists>e. translate (mem s') root virt = Some (phys, e) \<and> UserSupervisor e"
    by (auto simp: same_page_def)
  moreover have "\<not> user_walk (mem s') (Suc 3) root virt" using s'(3) by (subst user_walk.simps) (simp add: Let_def)
  ultimately show ?thesis using s'(1) by auto
qed

theorem MapMemory_user_denied_witness:
  "\<exists>s'. MapMemory 0x101000 0x400000 0x105000 PS_4K True demo_paging = Inr (KSTATUS_SUCCESS, s') \<and>
    \<not> user_walk (mem s') 4 0x101000 0x400000"
proof -
  have "pte (mem demo_paging) 0x101000 (idx 3 0x400000) = 0" by (rule demo_paging_ok(5) [OF idx_less])
  then show ?thesis
    using MapMemory_user_denied [OF demo_paging_ok(1,3), of "0x400000" "0x105000"] by (auto simp: demo_paging_ok(4))
qed

text \<open>
  \<open>MapMemory\<close> does not look at the page-size bit on the way down. Mapping a 4 KiB page
  where a 2 MiB page is mapped reports success, but takes the 2 MiB frame for a page table:
  it overwrites eight bytes of the mapped memory.
\<close>

theorem MapMemory_4K_over_2M:
  assumes "tree_ok s root" and "small_path (mem s) root virt 2" and "2 \<le> card (free_pages s)"
    and "unat virt mod 4096 = 0" and "unat phys mod 0x200000 = 0" and "unat phys < 2 ^ 40" and "phys \<noteq> 0"
    and "unat phys' mod 4096 = 0"
  shows "\<exists>s1. MapMemory root virt phys PS_2M user s = Inr (KSTATUS_SUCCESS, s1) \<and>
    (\<exists>e. MapMemory root virt phys' PS_4K user s1 =
      Inr (KSTATUS_SUCCESS, s1\<lparr>mem := store64 (mem s1) (phys + 8 * idx 0 virt) e\<rparr>))"
proof -
  have "unat phys < 2 ^ 52" using assms(6) by simp
  with MapMemory_2M_mapped [OF assms(1,2) order_trans [OF card_way assms(3)] assms(4,5), of user] obtain s1 s2 pd where
    m: "MapMemory root virt phys PS_2M user s = Inr (KSTATUS_SUCCESS, s1)" "mapped 1 root virt phys user s s1" and g: "grows 2 root s s2"
    and pd: "table_at (mem s2) root (take 2 (walk_path virt)) = Some pd"
    and s1: "s1 = s2\<lparr>mem := store64 (mem s2) (pd + 8 * idx 1 virt) (leaf_entry PS_2M user phys (pte (mem s2) pd (idx 1 virt)))\<rparr>" by blast
  have tree2: "tree_ok s2 root" using g by (simp add: grows_def)
  have ok: "path_ok (take 2 (walk_path virt))" by (rule walk_path_ok) simp
  have keep: "table_at (mem s1) root (take k (walk_path virt)) = table_at (mem s2) root (take k (walk_path virt))" if "k \<le> 2" for k
    unfolding s1 using that prefix_length_le [of "take 2 (walk_path virt) @ [idx 1 virt]" "take k (walk_path virt)"]
    by (auto intro!: table_at_written(1) [OF tree2 ok pd idx_less] walk_path_ok)
  from pd obtain pdpt where pdpt: "table_at (mem s2) root (take 1 (walk_path virt)) = Some pdpt"
    using walk_path_take [of 1 virt] by (auto simp: table_at_snoc numeral_2_eq_2 split: option.splits)
  have tree1: "tree_ok s1 root" by (rule mappedD(1) [OF m(2)])
  have d1: "GetEntryNextLevel root (idx 3 virt) s1 = Inr (pdpt, s1)"
    using GetEntryNextLevel_existing [OF tree1, of 0 virt root pdpt] keep [of 1] pdpt by simp
  have d2: "GetEntryNextLevel pdpt (idx 2 virt) s1 = Inr (pd, s1)"
    using GetEntryNextLevel_existing [OF tree1, of 1 virt pdpt pd] keep [of 1] keep [of 2] pdpt pd by (simp add: numeral_2_eq_2)
  have e: "pte (mem s1) pd (idx 1 virt) = leaf_entry PS_2M user phys (pte (mem s2) pd (idx 1 virt))" by (simp add: s1)
  have "(4096 :: nat) dvd 0x200000" by simp
  then have al: "unat phys mod 4096 = 0" using assms(5) by (metis mod_0_imp_dvd dvd_trans dvd_imp_mod_0)
  then have "table_of (pte (mem s1) pd (idx 1 virt)) = phys"
    unfolding e table_of_def using PhysAddr_trip [of phys] assms(6) by simp
  then have "next_ptr (pte (mem s1) pd (idx 1 virt)) = phys" using next_ptr_table assms(6) by metis
  moreover have "pd \<noteq> 0" using tree_okD(1) [OF tree2 ok pd] by (rule owned_pageD)
  ultimately have "GetEntryNextLevel pd (idx 1 virt) s1 = Inr (phys, s1)"
    unfolding GetEntryNextLevel_def e by simp
  from MapMemory_down(2) [OF _ _ d1 d2 this assms(7)] assms(4,8) m(1) show ?thesis by (auto simp: aligned_iff)
qed

theorem MapMemory_4K_over_2M_witness:
  "\<exists>s1 e. MapMemory 0x101000 0x200000 0x200000 PS_2M False demo_paging = Inr (KSTATUS_SUCCESS, s1) \<and>
    MapMemory 0x101000 0x200000 0x200000 PS_4K False s1 =
      Inr (KSTATUS_SUCCESS, s1\<lparr>mem := store64 (mem s1) 0x200000 e\<rparr>)"
  using MapMemory_4K_over_2M [OF demo_paging_ok(1,3), of "0x200000" "0x200000" "0x200000" False]
  by (auto simp: demo_paging_ok(4) idx_def take_bit_eq_mod drop_bit_eq_div)

text \<open>
  The kernel loop of \<open>CreateDefaultMappings\<close> and \<open>CreateProcessPML4\<close> ends and maps the whole
  kernel image: every address of each of its pages is translated to the same offset from
  the physical base, and no other translation changes.
\<close>

theorem map_kernel_maps:
  assumes "tree_ok s root" and "\<forall>v. small_path (mem s) root v 3"
    and "GlobalPagingInfo s = g" and "n = (unat (gp_kernelSize g) + 4095) div 4096"
    and "3 * n \<le> card (free_pages s)" and "n < 2 ^ 36" and "unat (gp_kernelPhysBase g) + 4096 * n \<le> 2 ^ 52"
    and "unat (gp_kernelVirtBase g) mod 4096 = 0" and "unat (gp_kernelPhysBase g) mod 4096 = 0"
  shows "\<exists>s'. map_kernel root s = Inr ((), s') \<and> tree_ok s' root \<and>
    (\<forall>k < n. \<forall>w. same_page 0 (gp_kernelVirtBase g + of_nat (4096 * k)) w \<longrightarrow>
      (\<exists>e. translate (mem s') root w = Some (gp_kernelPhysBase g + of_nat (4096 * k) + take_bit 12 w, e) \<and> RW e)) \<and>
    (\<forall>w. (\<forall>k < n. \<not> same_page 0 (gp_kernelVirtBase g + of_nat (4096 * k)) w) \<longrightarrow>
      translate (mem s') root w = translate (mem s) root w)"
  using map_kernel_range [OF assms] unfolding range_mapped_def by blast

definition demo_kernel :: paging where
  "demo_kernel = demo_paging\<lparr>GlobalPagingInfo := \<lparr>gp_mmap = [], gp_hhdm_base = 0xFFFF800000000000, gp_kernelSize = 0x800,
     gp_kernelPhysBase = 0x200000, gp_kernelVirtBase = 0xFFFFFFFF80000000, gp_fbBase = 0, gp_fbSize = 0\<rparr>\<rparr>"

theorem map_kernel_maps_witness:
  "\<exists>s'. map_kernel 0x101000 demo_kernel = Inr ((), s') \<and>
    (\<exists>e. translate (mem s') 0x101000 0xFFFFFFFF800007FF = Some (0x2007FF, e))"
proof -
  have fp: "free_pages demo_kernel = free_pages demo_paging" "mem demo_kernel = mem demo_paging"
    "table_bytes demo_kernel = table_bytes demo_paging" "alloc_ok demo_kernel = alloc_ok demo_paging"
    by (simp_all add: demo_kernel_def alloc_defs)
  have "tree_ok demo_kernel 0x101000" using demo_paging_ok(1) by (simp add: tree_ok_def owned_page_def fp)
  moreover have "\<forall>v. small_path (mem demo_kernel) 0x101000 v 3" using demo_paging_ok(3) by (simp add: fp)
  ultimately obtain s' where s': "map_kernel 0x101000 demo_kernel = Inr ((), s')"
    "\<forall>k < 1. \<forall>w. same_page 0 (0xFFFFFFFF80000000 + of_nat (4096 * k)) w \<longrightarrow>
      (\<exists>e. translate (mem s') 0x101000 w = Some (0x200000 + of_nat (4096 * k) + take_bit 12 w, e) \<and> RW e)"
    using map_kernel_maps [of demo_kernel "0x101000" "GlobalPagingInfo demo_kernel" 1]
    by (auto simp: demo_kernel_def demo_paging_ok(4) fp [unfolded demo_kernel_def])
  have "same_page 0 0xFFFFFFFF80000000 0xFFFFFFFF800007FF"
    by (simp add: same_page_def take_bit_eq_mod drop_bit_eq_div)
  with s' show ?thesis by (auto simp: take_bit_eq_mod)
qed

end
