(* ===== verification/Timers.thy ===== *)
theory Timers
  imports Paging
begin

text \<open>
  The two timers: the real-time clock, \<open>drivers/rtc/rtc.c\<close>, whose periodic interrupt drives the
  scheduler, and the programmable interval timer, \<open>drivers/pit.c\<close>. Both are programmed through
  ports, so what they do is the sequence of port events they cause.
\<close>

section \<open>Real-time clock\<close>

definition InitializeRTC :: "'z machine_scheme \<Rightarrow> 'z machine_scheme" where
  "InitializeRTC s =
     (let s = emit Cli s;
          s = outb 0x70 0x8B s;
          (current, s) = inb 0x71 s;
          s = outb 0x70 0x8B s;
          s = outb 0x71 (current OR 0x40) s;
          rate = 15;
          s = outb 0x70 0x8A s;
          (current2, s) = inb 0x71 s;
          s = outb 0x70 0x8A s;
          s = outb 0x71 ((current2 AND 0xF0) OR rate) s
      in emit Sti s)"

definition RTC_Check :: "'z machine_scheme \<Rightarrow> 'z machine_scheme" where
  "RTC_Check s = (let s = outb 0x70 0x0C s; (_, s) = inb 0x71 s in s)"

section \<open>Programmable interval timer\<close>

text \<open>The macro \<open>DIVISOR\<close> is \<open>(uint8_t)11931\<close>; in \<open>DIVISOR >> 8\<close> it is promoted to \<open>int\<close>.\<close>

definition DIVISOR :: u8 where "DIVISOR = 11931"

definition InitializePIT :: "'z machine_scheme \<Rightarrow> 'z machine_scheme" where
  "InitializePIT s =
     (let s = emit Cli s;
          s = outb 0x48 (0x00 OR 0x06 OR 0x30 OR 0x00) s;
          s = io_wait s;
          s = outb 0x40 DIVISOR s;
          s = io_wait s;
          s = outb 0x40 (ucast (drop_bit 8 (ucast DIVISOR :: i32))) s;
          s = io_wait s
      in emit Sti s)"

text \<open>The tick counter is an \<open>int\<close>: past its range the increment has no meaning.\<close>

record timers = paging +
  tensMsSinceBoot :: int

definition PITDriver :: "'z timers_scheme \<Rightarrow> (unit, 'z timers_scheme) res" where
  "PITDriver s =
     (if tensMsSinceBoot s < 2 ^ 31 - 1
      then Inr ((), s\<lparr>tensMsSinceBoot := tensMsSinceBoot s + 1\<rparr>)
      else Inl (Undefined, s))"

section \<open>Properties\<close>

lemma RTC_Check_state [simp]:
  "mem (RTC_Check s) = mem s" "device (RTC_Check s) = device s"
  by (simp_all add: RTC_Check_def port_defs Let_def)

lemma RTC_Check_trace: "RTC_Check s = s\<lparr>trace := trace (RTC_Check s)\<rparr>"
  by (simp add: RTC_Check_def port_defs Let_def)

text \<open>
  \<open>InitializeRTC\<close> turns the periodic interrupt (bit 6 of register B) on, sets the rate bits
  of register A to 15, leaves the other bits of both registers as the device reported them,
  and ends with interrupts enabled.
\<close>

theorem InitializeRTC_programs:
  "\<exists>b a. trace (InitializeRTC s) = trace s @ [Cli, OutB 0x70 0x8B, InB 0x71 b, OutB 0x70 0x8B, OutB 0x71 (b OR 0x40),
      OutB 0x70 0x8A, InB 0x71 a, OutB 0x70 0x8A, OutB 0x71 ((a AND 0xF0) OR 0x0F), Sti] \<and>
    mem (InitializeRTC s) = mem s"
  by (simp add: InitializeRTC_def port_defs Let_def)

text \<open>
  The reload value the PIT gets is the low byte of 11931 with a zero high byte, 0x009B,
  not 11931; and the mode byte goes to port 0x48, so the command port 0x43 is never written.
\<close>

theorem InitializePIT_divisor:
  "trace (InitializePIT s) = trace s @ [Cli, OutB 0x48 0x36, OutB 0x80 0, OutB 0x40 0x9B, OutB 0x80 0,
      OutB 0x40 0, OutB 0x80 0, Sti]"
  by (simp add: InitializePIT_def port_defs Let_def DIVISOR_def drop_bit_eq_div)

end
