(* ===== verification/Scheduler.thy ===== *)
theory Scheduler
  imports Timers
begin

text \<open>
  The round-robin scheduler, \<open>multitasking/scheduler.c\<close> and \<open>scheduler.h\<close>, with the virtual memory
  manager \<open>mm/vmm/vmm.c\<close>. A \<open>struct ProcessFrame\<close> of 224 bytes lives in memory; the static
  list head \<open>prochead\<close> is such a structure at an address the linker chose.
\<close>

section \<open>State\<close>

record sched = timers +
  highest_pid :: u8
  schedulingStarted :: bool
  prochead :: addr
  current :: addr

text \<open>
  The fields of \<open>struct ProcessFrame\<close>: \<open>pid\<close> at 0, \<open>processName[32]\<close> at 1, the packed \<open>registers\<close>
  (160 bytes) at 33, \<open>quanta\<close> at 193, \<open>cr3\<close> at 200, \<open>invalid\<close> at 208, \<open>next\<close> at 216.
\<close>

definition pf_pid :: "memory \<Rightarrow> addr \<Rightarrow> u8" where "pf_pid m f = m f"
definition pf_name :: "addr \<Rightarrow> addr" where "pf_name f = f + 1"
definition pf_regs :: "addr \<Rightarrow> addr" where "pf_regs f = f + 33"
definition pf_quanta :: "memory \<Rightarrow> addr \<Rightarrow> u8" where "pf_quanta m f = m (f + 193)"
definition pf_cr3 :: "memory \<Rightarrow> addr \<Rightarrow> addr" where "pf_cr3 m f = load64 m (f + 200)"
definition pf_invalid :: "memory \<Rightarrow> addr \<Rightarrow> bool" where "pf_invalid m f \<longleftrightarrow> m (f + 208) \<noteq> 0"
definition pf_next :: "memory \<Rightarrow> addr \<Rightarrow> addr" where "pf_next m f = load64 m (f + 216)"

definition set_quanta :: "addr \<Rightarrow> u8 \<Rightarrow> memory \<Rightarrow> memory" where "set_quanta f q m = m(f + 193 := q)"
definition set_invalid :: "addr \<Rightarrow> memory \<Rightarrow> memory" where "set_invalid f m = m(f + 208 := 1)"
definition set_pf_next :: "addr \<Rightarrow> addr \<Rightarrow> memory \<Rightarrow> memory" where "set_pf_next f p m = store64 m (f + 216) p"

text \<open>The fields of \<open>struct Registers\<close> that a new task gets.\<close>

definition reg_rip :: "addr \<Rightarrow> addr" where "reg_rip r = r + 120"
definition reg_cs :: "addr \<Rightarrow> addr" where "reg_cs r = r + 128"
definition reg_flags :: "addr \<Rightarrow> addr" where "reg_flags r = r + 136"
definition reg_rsp :: "addr \<Rightarrow> addr" where "reg_rsp r = r + 144"
definition reg_ss :: "addr \<Rightarrow> addr" where "reg_ss r = r + 152"

text \<open>The string at an address, as \<open>printf\<close> reads it.\<close>

definition read_str :: "memory \<Rightarrow> addr \<Rightarrow> u8 list option" where
  "read_str m p = map_option (\<lambda>n. map (\<lambda>i. m (p + of_nat i)) [0..<n]) (strlen m p)"

section \<open>Ending a task\<close>

text \<open>
  The search of \<open>TerminateTask\<close>: the field \<open>pid\<close> of the next frame is read before the frame is
  compared with the null pointer.
\<close>

partial_function (option) terminate_loop ::
    "u8 \<Rightarrow> addr \<Rightarrow> 'z machine_scheme \<Rightarrow> (unit, 'z machine_scheme) res option" where
  "terminate_loop pid prev_frame s =
     (let current_frame = pf_next (mem s) prev_frame in
      if current_frame = 0 then Some (Inl (NullDeref, s))
      else if pf_pid (mem s) current_frame = pid
      then Some (Inr ((), s\<lparr>mem := set_pf_next prev_frame (pf_next (mem s) current_frame) (mem s)\<rparr>))
      else terminate_loop pid current_frame s)"

definition TerminateTask :: "u8 \<Rightarrow> 'z sched_scheme \<Rightarrow> (unit, 'z sched_scheme) res" where
  "TerminateTask pid s =
     bindR (printf (lit (''[DEBUG] Task termination requested for PID %d.'' @ newline)) [Num (ucast pid)] s) (\<lambda>_ s.
     let s = emit Cli s in
     case terminate_loop pid (prochead s) s of None \<Rightarrow> Inl (Endless, s) | Some r \<Rightarrow> r)"

text \<open>\<open>ProcessExit\<close> marks the running task and spins until the next timer tick.\<close>

definition ProcessExit :: "'z sched_scheme \<Rightarrow> (unit, 'z sched_scheme) res" where
  "ProcessExit s =
     (let s = emit Cli s in
      if current s = 0 then Inl (NullDeref, s)
      else Inl (Endless, emit Sti (s\<lparr>mem := set_invalid (current s) (mem s)\<rparr>)))"

definition CommonExceptionHandler :: "string \<Rightarrow> 'z sched_scheme \<Rightarrow> (unit, 'z sched_scheme) res" where
  "CommonExceptionHandler exceptionType s =
     (let s = emit Cli s in
      if schedulingStarted s
      then if current s = 0 then panic exceptionType s
           else (case read_str (mem s) (pf_name (current s)) of
               None \<Rightarrow> Inl (Undefined, s)
             | Some name \<Rightarrow>
                 bindR (printf (lit (''(!) The process \"%s\" with PID %d has been terminated due to an exception (%s).'' @ newline))
                          [Str name, Num (ucast (pf_pid (mem s) (current s))), Str (lit exceptionType)] s) (\<lambda>_ s.
                 Inl (Endless, emit Hlt (emit Sti (s\<lparr>mem := set_invalid (current s) (mem s)\<rparr>)))))
      else panic exceptionType s)"

section \<open>Switching tasks\<close>

text \<open>
  The end of \<open>TaskSwitch\<close>: give the processor to the next task when the quantum is used up,
  charge one tick, and load the registers of the task that runs on.
\<close>

definition switch_tail :: "addr \<Rightarrow> 'z sched_scheme \<Rightarrow> (unit, 'z sched_scheme) res" where
  "switch_tail stack s =
     (let s = (if pf_quanta (mem s) (current s) = 0
               then let m = set_quanta (current s) 10 (mem s)
                    in s\<lparr>mem := m,
                         current := (if pf_next m (current s) \<noteq> 0 then pf_next m (current s) else pf_next m (prochead s))\<rparr>
               else s) in
      if current s = 0 then Inl (NullDeref, s)
      else
        let m = set_quanta (current s) (pf_quanta (mem s) (current s) - 1) (mem s)
        in Inr ((), s\<lparr>mem := memcpy m stack (pf_regs (current s)) 160\<rparr>))"

definition TaskSwitch :: "addr \<Rightarrow> 'z sched_scheme \<Rightarrow> (unit, 'z sched_scheme) res" where
  "TaskSwitch stack s =
     (let s = RTC_Check s in
      if (current s = 0 \<or> current s = prochead s) \<and> pf_next (mem s) (prochead s) = 0 then Inr ((), s)
      else
        let s = (if current s = 0 \<or> current s = prochead s
                 then s\<lparr>current := pf_next (mem s) (prochead s)\<rparr>
                 else s\<lparr>mem := memcpy (mem s) (pf_regs (current s)) stack 160\<rparr>)
        in if pf_invalid (mem s) (current s)
           then bindR (TerminateTask (pf_pid (mem s) (current s)) s) (\<lambda>_ s.
             let s = (if pf_next (mem s) (current s) \<noteq> 0 then s\<lparr>current := pf_next (mem s) (current s)\<rparr> else s)
             in if pf_next (mem s) (prochead s) \<noteq> 0
                then switch_tail stack (s\<lparr>current := pf_next (mem s) (prochead s)\<rparr>)
                else Inr ((), s\<lparr>current := prochead s\<rparr>))
           else switch_tail stack s)"

definition TaskSwitch_Stage2 :: "'z sched_scheme \<Rightarrow> 'z sched_scheme" where
  "TaskSwitch_Stage2 s =
     (if current s \<noteq> 0 \<and> current s \<noteq> prochead s \<and> pf_cr3 (mem s) (current s) \<noteq> 0 \<and> pf_quanta (mem s) (current s) \<noteq> 0
      then cr3load (pf_cr3 (mem s) (current s)) s else s)"

section \<open>Adding a task\<close>

text \<open>The copy of the literal \<open>"Process"\<close>: its bytes and a terminator.\<close>

definition copy_literal :: "u8 list \<Rightarrow> addr \<Rightarrow> memory \<Rightarrow> memory" where
  "copy_literal bs dest m =
     (\<lambda>x. if unat (x - dest) \<le> length bs then (bs @ [0]) ! unat (x - dest) else m x)"

definition set_name :: "addr \<Rightarrow> addr \<Rightarrow> memory \<Rightarrow> memory option" where
  "set_name frame taskName m =
     (case strlen m taskName of
        None \<Rightarrow> None
      | Some n \<Rightarrow> if 32 < n then Some (copy_literal (lit ''Process'') (pf_name frame) m)
                 else strcpy m (pf_name frame) taskName)"

definition IntAddTask :: "addr \<Rightarrow> addr \<Rightarrow> addr \<Rightarrow> bool \<Rightarrow> 'z sched_scheme \<Rightarrow> (unit, 'z sched_scheme) res" where
  "IntAddTask taskName start endp kern s =
     (let s = emit Cli s in
      bindR (malloc 224 s) (\<lambda>frame s.
      if frame = 0 then Inl (NullDeref, s)
      else
        let s = s\<lparr>mem := (mem s)(frame := highest_pid s), highest_pid := highest_pid s + 1\<rparr> in
        case set_name frame taskName (mem s) of
          None \<Rightarrow> Inl (Undefined, s)
        | Some m \<Rightarrow>
            let m = set_quanta frame 10 m;
                m = store64 m (reg_cs (pf_regs frame)) 0x08;
                m = store64 m (reg_rip (pf_regs frame)) start;
                m = store64 m (reg_ss (pf_regs frame)) 0x10
            in bindR (CreateProcessPML4 start endp kern (s\<lparr>mem := m\<rparr>)) (\<lambda>p s.
               bindR (PageAlloc (s\<lparr>mem := store64 (mem s) (frame + 200) p\<rparr>)) (\<lambda>st s.
               let m = store64 (mem s) (reg_rsp (pf_regs frame)) st;
                   m = store64 m (reg_flags (pf_regs frame)) 0x202;
                   m = set_pf_next frame (pf_next m (prochead s)) m;
                   m = set_pf_next (prochead s) frame m
               in Inr ((), emit Sti (s\<lparr>mem := m\<rparr>))))))"

definition AddTask :: "addr \<Rightarrow> addr \<Rightarrow> addr \<Rightarrow> 'z sched_scheme \<Rightarrow> (unit, 'z sched_scheme) res" where
  "AddTask taskName start endp s = IntAddTask taskName start endp False s"

definition KeAddTask :: "addr \<Rightarrow> addr \<Rightarrow> addr \<Rightarrow> 'z sched_scheme \<Rightarrow> (unit, 'z sched_scheme) res" where
  "KeAddTask taskName start endp s = IntAddTask taskName start endp True s"

definition MarkSchedulingActive :: "'z sched_scheme \<Rightarrow> 'z sched_scheme" where
  "MarkSchedulingActive s = s\<lparr>schedulingStarted := True\<rparr>"

text \<open>\<open>GetCurrentProcess\<close> returns a copy of the frame: its 224 bytes.\<close>

definition GetCurrentProcess :: "'z sched_scheme \<Rightarrow> (u8 list, 'z sched_scheme) res" where
  "GetCurrentProcess s =
     (if current s = 0 then Inl (NullDeref, s)
      else Inr (map (\<lambda>i. mem s (current s + of_nat i)) [0..<224], s))"

section \<open>Virtual memory manager\<close>

text \<open>\<open>process.cr3\<close> is the pointer field at offset 200 of the copy.\<close>

definition AllocatePage :: "'z sched_scheme \<Rightarrow> (addr, 'z sched_scheme) res" where
  "AllocatePage s =
     bindR (GetCurrentProcess s) (\<lambda>process s.
     bindR (PageAlloc s) (\<lambda>page s.
     bindR (MapMemory (load64 (\<lambda>x. process ! unat x) 200) page page PS_4K True s) (\<lambda>_ s.
     Inr (page, s))))"

definition AllocateBlock :: "u64 \<Rightarrow> 'z sched_scheme \<Rightarrow> addr \<times> 'z sched_scheme" where
  "AllocateBlock n s = (0, s)"

section \<open>The list of tasks\<close>

interpretation frames: intrusive_list 216 224
  by unfold_locales simp_all

text \<open>A saved context: the 160 bytes of a \<open>struct Registers\<close>.\<close>

definition ctx :: "memory \<Rightarrow> addr \<Rightarrow> u8 list" where
  "ctx m a = map (\<lambda>i. m (a + of_nat i)) [0..<160]"

text \<open>The frames \<open>fs\<close> are linked from \<open>prochead\<close> and do not overlap each other or \<open>prochead\<close>.\<close>

definition frames_apart :: "addr list \<Rightarrow> bool" where
  "frames_apart fs \<longleftrightarrow> distinct fs \<and> (\<forall>f \<in> set fs. \<forall>g \<in> set fs. f \<noteq> g \<longrightarrow> bytes f 224 \<inter> bytes g 224 = {})"

definition tasks :: "'z sched_scheme \<Rightarrow> addr list \<Rightarrow> bool" where
  "tasks s fs \<longleftrightarrow> prochead s \<noteq> 0 \<and> chain 216 (mem s) (pf_next (mem s) (prochead s)) fs \<and> frames_apart (prochead s # fs)"

text \<open>
  The invariant while tasks run: none is marked invalid, and every task but the running one
  has its full quantum of 10 ticks.
\<close>

definition running :: "'z sched_scheme \<Rightarrow> addr list \<Rightarrow> bool" where
  "running s fs \<longleftrightarrow> tasks s fs \<and> (\<forall>f \<in> set fs. \<not> pf_invalid (mem s) f) \<and>
     (\<forall>f \<in> set fs. if f = current s then pf_quanta (mem s) f \<le> 10 else pf_quanta (mem s) f = 10)"

definition stack_ok :: "'z sched_scheme \<Rightarrow> addr list \<Rightarrow> addr \<Rightarrow> bool" where
  "stack_ok s fs stack \<longleftrightarrow> (\<forall>f \<in> set (prochead s # fs). bytes stack 160 \<inter> bytes f 224 = {})"

lemma pf_next_nth:
  assumes "tasks s fs" and "i < length fs"
  shows "pf_next (mem s) (fs ! i) = (if Suc i < length fs then fs ! Suc i else 0)"
  using chain_nth [of 216 "mem s" _ fs i] assms by (auto simp: tasks_def pf_next_def)

subsection \<open>Fields and writes\<close>

lemma field_in_frame: "i + n \<le> 224 \<Longrightarrow> bytes (f + of_nat i) n \<subseteq> bytes f 224"
  by (rule subrange) simp_all

text \<open>Two memories that agree on the fields of a frame behind the registers, and on its pid.\<close>

definition same_links :: "memory \<Rightarrow> memory \<Rightarrow> addr \<Rightarrow> bool" where
  "same_links m' m f \<longleftrightarrow> pf_pid m' f = pf_pid m f \<and> pf_cr3 m' f = pf_cr3 m f \<and> pf_invalid m' f = pf_invalid m f \<and>
     pf_next m' f = pf_next m f"

lemma same_linksI:
  assumes "\<And>x. x \<in> bytes f 224 \<Longrightarrow> x \<notin> bytes (f + 33) 161 \<Longrightarrow> m' x = m x"
  shows "same_links m' m f"
proof -
  have b: "m' x = m x" if "x \<in> bytes (f + of_nat i) n" "194 \<le> i" "i + n \<le> 224" for x i n
  proof (rule assms)
    show "x \<in> bytes f 224" using field_in_frame [of i n f] that by blast
    show "x \<notin> bytes (f + 33) 161" using fields_disjoint [of 33 161 i n f] that by auto
  qed
  have p: "m' f = m f"
  proof (rule assms)
    have "bytes f 33 \<inter> bytes (f + 33) 161 = {}" using fields_disjoint [of 0 33 33 161 f] by simp
    then show "f \<notin> bytes (f + 33) 161" by (metis base_in_bytes disjoint_iff zero_less_numeral)
  qed simp
  have "m' (f + 208) = m (f + 208)" using b [of "f + 208" 208 1] by simp
  moreover have "load64 m' (f + 200) = load64 m (f + 200)"
    by (rule load_le_cong) (use b [of _ 200 8] in auto)
  moreover have "load64 m' (f + 216) = load64 m (f + 216)"
    by (rule load_le_cong) (use b [of _ 216 8] in auto)
  ultimately show ?thesis using p by (simp add: same_links_def pf_pid_def pf_cr3_def pf_invalid_def pf_next_def)
qed

lemma ctx_cong: "(\<And>x. x \<in> bytes a 160 \<Longrightarrow> m' x = m x) \<Longrightarrow> ctx m' a = ctx m a"
  unfolding ctx_def by (rule map_cong) (auto simp: offset_in_bytes)

lemma ctx_memcpy:
  assumes "bytes d 160 \<inter> bytes a 160 = {}"
  shows "ctx (memcpy m d a 160) d = ctx m a"
    and "x \<notin> bytes d 160 \<Longrightarrow> memcpy m d a 160 x = m x"
proof -
  have cp: "memcpy m d a 160 x = (if x \<in> bytes d 160 then m (a + (x - d)) else m x)" for x
    using memcpy_apply [of d 160 a m x] assms by simp
  show "x \<notin> bytes d 160 \<Longrightarrow> memcpy m d a 160 x = m x" by (simp add: cp)
  have "memcpy m d a 160 (d + of_nat i) = m (a + of_nat i)" if "i < 160" for i
    using that offset_in_bytes [of i 160 d] by (simp add: cp)
  then show "ctx (memcpy m d a 160) d = ctx m a" by (simp add: ctx_def)
qed

text \<open>The list of tasks depends on the links only.\<close>

lemma tasks_links:
  assumes "tasks s fs" and "prochead s' = prochead s" and "\<And>f. f \<in> set (prochead s # fs) \<Longrightarrow> same_links (mem s') (mem s) f"
  shows "tasks s' fs"
proof -
  have "chain 216 (mem s') p fs = chain 216 (mem s) p fs" for p
    by (rule chain_cong) (use assms(3) in \<open>auto simp: same_links_def pf_next_def\<close>)
  with assms show ?thesis by (auto simp: tasks_def same_links_def)
qed

text \<open>
  One frame charged and two copies: the memory after \<open>TaskSwitch\<close> for the tasks \<open>c\<close> (running
  before) and \<open>d\<close> (running after), where \<open>q\<close> is the quantum left to \<open>d\<close>.
\<close>

definition switched :: "addr \<Rightarrow> addr \<Rightarrow> addr \<Rightarrow> bool \<Rightarrow> u8 \<Rightarrow> memory \<Rightarrow> memory" where
  "switched stack c d reset q m =
     (let m = memcpy m (pf_regs c) stack 160;
          m = (if reset then set_quanta c 10 m else m)
      in memcpy (set_quanta d q m) stack (pf_regs d) 160)"

text \<open>Where the quantum and the registers of a frame lie among those of others.\<close>

lemma quanta_not_in_regs:
  assumes "frames_apart fs" and "f \<in> set fs" and "g \<in> set fs"
  shows "f + 193 \<notin> bytes (pf_regs g) 160"
proof (cases "f = g")
  case True
  have "bytes (f + 33) 160 \<inter> bytes (f + 193) 1 = {}" using fields_disjoint [of 33 160 193 1 f] by simp
  with True show ?thesis by (metis base_in_bytes disjoint_iff pf_regs_def zero_less_one)
next
  case False
  have "f + 193 \<in> bytes f 224" using offset_in_bytes [of 193 224 f] by simp
  moreover have "bytes (g + 33) 160 \<subseteq> bytes g 224" using field_in_frame [of 33 160 g] by simp
  ultimately show ?thesis using assms False unfolding frames_apart_def pf_regs_def by blast
qed

lemma regs_in_frame: "bytes (pf_regs f) 160 \<subseteq> bytes f 224"
  using field_in_frame [of 33 160 f] by (simp add: pf_regs_def)

lemma regs_apart:
  "frames_apart fs \<Longrightarrow> f \<in> set fs \<Longrightarrow> g \<in> set fs \<Longrightarrow> f \<noteq> g \<Longrightarrow> bytes (pf_regs f) 160 \<inter> bytes (pf_regs g) 160 = {}"
  using regs_in_frame [of f] regs_in_frame [of g] unfolding frames_apart_def by blast

lemma same_links_outside:
  assumes apart: "frames_apart fs" and f: "f \<in> set fs"
    and same: "\<And>x. x \<in> bytes f 224 \<Longrightarrow> (\<And>g. g \<in> set fs \<Longrightarrow> x \<notin> bytes (g + 33) 161) \<Longrightarrow> m' x = m x"
  shows "same_links m' m f"
proof (rule same_linksI, rule same)
  fix x g assume x: "x \<in> bytes f 224" "x \<notin> bytes (f + 33) 161" and g: "g \<in> set fs"
  show "x \<notin> bytes (g + 33) 161"
  proof (cases "g = f")
    case False
    then have "bytes f 224 \<inter> bytes g 224 = {}" using apart f g unfolding frames_apart_def by blast
    with x(1) field_in_frame [of 33 161 g] show ?thesis by auto
  qed (use x in simp)
qed

lemma charged_bytes:
  "g + 193 \<in> bytes (g + 33) 161" "x \<in> bytes (pf_regs g) 160 \<Longrightarrow> x \<in> bytes (g + 33) 161"
  using offset_in_bytes [of 160 161 "g + 33"] bytes_mono [of 160 161 "g + 33"] by (auto simp: pf_regs_def algebra_simps)

lemma switched_effect:
  fixes reset :: bool and q :: u8 and m :: memory
  assumes apart: "frames_apart fs" and st: "\<And>f. f \<in> set fs \<Longrightarrow> bytes stack 160 \<inter> bytes f 224 = {}"
    and c: "c \<in> set fs" and d: "d \<in> set fs"
  defines "m' \<equiv> switched stack c d reset q m"
  shows "f \<in> set fs \<Longrightarrow> same_links m' m f"
    and "f \<in> set fs \<Longrightarrow> pf_quanta m' f = (if f = d then q else if f = c \<and> reset then 10 else pf_quanta m f)"
    and "f \<in> set fs \<Longrightarrow> ctx m' (pf_regs f) = (if f = c then ctx m stack else ctx m (pf_regs f))"
    and "ctx m' stack = (if d = c then ctx m stack else ctx m (pf_regs d))"
proof -
  define m1 where "m1 = memcpy m (pf_regs c) stack 160"
  define m3 where "m3 = set_quanta d q (if reset then set_quanta c 10 m1 else m1)"
  have m': "m' = memcpy m3 stack (pf_regs d) 160" by (simp add: m'_def switched_def m1_def m3_def)
  have stf: "bytes stack 160 \<inter> bytes (pf_regs f) 160 = {}" if "f \<in> set fs" for f
    using st [OF that] regs_in_frame [of f] by blast
  have 1: "ctx m1 (pf_regs c) = ctx m stack" "\<And>x. x \<notin> bytes (pf_regs c) 160 \<Longrightarrow> m1 x = m x"
    unfolding m1_def using ctx_memcpy [where d = "pf_regs c" and a = stack and m = m] stf [OF c] by (simp_all add: Int_commute)
  have 3: "m3 x = (if x = d + 193 then q else if reset \<and> x = c + 193 then 10 else m1 x)" for x
    by (simp add: m3_def set_quanta_def)
  have 4: "ctx m' stack = ctx m3 (pf_regs d)" "\<And>x. x \<notin> bytes stack 160 \<Longrightarrow> m' x = m3 x"
    unfolding m' using ctx_memcpy [where d = stack and a = "pf_regs d" and m = m3] stf [OF d] by simp_all
  have ctx3: "ctx m3 (pf_regs f) = (if f = c then ctx m stack else ctx m (pf_regs f))" if f: "f \<in> set fs" for f
  proof -
    have "ctx m3 (pf_regs f) = ctx m1 (pf_regs f)"
      using quanta_not_in_regs [OF apart d f] quanta_not_in_regs [OF apart c f] by (intro ctx_cong) (auto simp: 3)
    also have "\<dots> = (if f = c then ctx m stack else ctx m (pf_regs f))"
    proof (cases "f = c")
      case False
      have "ctx m1 (pf_regs f) = ctx m (pf_regs f)"
        using regs_apart [OF apart f c False] by (intro ctx_cong 1(2)) blast
      with False show ?thesis by simp
    qed (use 1 in simp)
    finally show ?thesis .
  qed
  show "ctx m' stack = (if d = c then ctx m stack else ctx m (pf_regs d))" using 4(1) ctx3 [OF d] by auto
  fix f assume f: "f \<in> set fs"
  have out: "x \<notin> bytes stack 160" if "x \<in> bytes f 224" for x using st [OF f] that by blast
  show "ctx m' (pf_regs f) = (if f = c then ctx m stack else ctx m (pf_regs f))"
    unfolding ctx3 [OF f, symmetric] using regs_in_frame [of f] out by (intro ctx_cong 4(2)) blast
  have "f + 193 \<in> bytes f 224" using offset_in_bytes [of 193 224 f] by simp
  then show "pf_quanta m' f = (if f = d then q else if f = c \<and> reset then 10 else pf_quanta m f)"
    using 4(2) [OF out] 1(2) quanta_not_in_regs [OF apart f c] by (auto simp: pf_quanta_def 3)
  show "same_links m' m f"
  proof (rule same_links_outside [OF apart f])
    fix x assume x: "x \<in> bytes f 224" and w: "\<And>g. g \<in> set fs \<Longrightarrow> x \<notin> bytes (g + 33) 161"
    have "x \<noteq> d + 193" "x \<noteq> c + 193" "x \<notin> bytes (pf_regs c) 160"
      using w [OF d] w [OF c] charged_bytes by metis+
    then show "m' x = m x" using 4(2) [OF out [OF x]] 1(2) by (simp add: 3)
  qed
qed

section \<open>One tick\<close>

lemma RTC_Check_sched [simp]: "prochead (RTC_Check s) = prochead s" "current (RTC_Check s) = current s"
  by (simp_all add: RTC_Check_def port_defs Let_def)

definition next_index :: "addr list \<Rightarrow> nat \<Rightarrow> nat" where
  "next_index fs i = Suc i mod length fs"

lemma TaskSwitch_tick:
  assumes run: "running s fs" and st: "stack_ok s fs stack" and i: "i < length fs" and cur: "current s = fs ! i"
  defines "q \<equiv> pf_quanta (mem s) (fs ! i)"
  defines "j \<equiv> (if q = 0 then next_index fs i else i)"
  shows "TaskSwitch stack s = Inr ((), (RTC_Check s)\<lparr>
    mem := switched stack (fs ! i) (fs ! j) (q = 0) (if q = 0 then 9 else q - 1) (mem s), current := fs ! j\<rparr>)"
proof -
  let ?c = "fs ! i" and ?R = "prochead s # fs"
  have tk: "tasks s fs" and inv: "\<not> pf_invalid (mem s) ?c" using run i by (auto simp: running_def)
  then have apart: "frames_apart ?R" and ph: "prochead s \<noteq> 0" and ch: "chain 216 (mem s) (pf_next (mem s) (prochead s)) fs"
    by (simp_all add: tasks_def)
  have cin: "?c \<in> set fs" using i by (rule nth_mem)
  have "prochead s \<notin> set fs" using apart by (simp add: frames_apart_def)
  with cin chain_nonzero [OF ch cin] have c: "?c \<in> set fs" "?c \<noteq> 0" "?c \<noteq> prochead s" by metis+
  have disj: "bytes (pf_regs ?c) 160 \<inter> bytes stack 160 = {}"
    using st c(1) regs_in_frame [of ?c] unfolding stack_ok_def by (auto simp: Int_commute)
  define m1 where "m1 = memcpy (mem s) (pf_regs ?c) stack 160"
  have out1: "m1 x = mem s x" if "x \<notin> bytes (pf_regs ?c) 160" for x
    unfolding m1_def by (rule ctx_memcpy(2) [OF disj that])
  have l1: "same_links m1 (mem s) f" if "f \<in> set ?R" for f
  proof (rule same_links_outside [OF apart that])
    fix x assume "\<And>g. g \<in> set ?R \<Longrightarrow> x \<notin> bytes (g + 33) 161"
    with c(1) have "x \<notin> bytes (?c + 33) 161" by simp
    then show "m1 x = mem s x" using charged_bytes(2) out1 by blast
  qed
  have q1: "pf_quanta m1 ?c = q"
    using out1 [of "?c + 193"] quanta_not_in_regs [OF apart, of ?c ?c] c(1) by (simp add: pf_quanta_def q_def)
  define m2 where "m2 = set_quanta ?c 10 m1"
  have l2: "same_links m2 m1 f" if "f \<in> set ?R" for f
  proof (rule same_links_outside [OF apart that])
    fix x assume "\<And>g. g \<in> set ?R \<Longrightarrow> x \<notin> bytes (g + 33) 161"
    with c(1) have "x \<noteq> ?c + 193" using charged_bytes(1) [of ?c] by auto
    then show "m2 x = m1 x" by (simp add: m2_def set_quanta_def)
  qed
  have nx: "pf_next m2 f = pf_next (mem s) f" if "f \<in> set ?R" for f
    using l1 [OF that] l2 [OF that] by (simp add: same_links_def)
  have succ: "(if pf_next m2 ?c \<noteq> 0 then pf_next m2 ?c else pf_next m2 (prochead s)) = fs ! next_index fs i"
  proof (cases "Suc i < length fs")
    case True
    then have "fs ! Suc i \<noteq> 0" using chain_nonzero [OF ch] by simp
    with True show ?thesis using nx [of ?c] c(1) pf_next_nth [OF tk i] by (simp add: next_index_def)
  next
    case False
    then have l: "Suc i = length fs" using i by simp
    have "pf_next (mem s) (prochead s) = fs ! 0" using chain_head [OF ch] i by (cases fs) auto
    with l show ?thesis using nx [of ?c] nx [of "prochead s"] c(1) pf_next_nth [OF tk i] by (simp add: next_index_def)
  qed
  have d: "fs ! j \<in> set fs" using i by (auto simp: j_def next_index_def intro!: nth_mem mod_less_divisor)
  then have dnz: "fs ! j \<noteq> 0" using chain_nonzero [OF ch] by simp
  have q2: "pf_quanta m2 (fs ! next_index fs i) = 10"
  proof (cases "fs ! next_index fs i = ?c")
    case True
    then show ?thesis by (simp add: m2_def set_quanta_def pf_quanta_def)
  next
    case False
    have n: "fs ! next_index fs i \<in> set fs" using i by (auto simp: next_index_def intro!: nth_mem mod_less_divisor)
    have "pf_quanta (mem s) (fs ! next_index fs i) = 10" using run n False cur by (auto simp: running_def)
    moreover have "fs ! next_index fs i + 193 \<notin> bytes (pf_regs ?c) 160"
      using quanta_not_in_regs [OF apart, of "fs ! next_index fs i" ?c] n c(1) by simp
    ultimately show ?thesis using False out1 by (simp add: m2_def set_quanta_def pf_quanta_def)
  qed
  have inv1: "\<not> pf_invalid m1 ?c" using l1 [of ?c] c(1) inv by (simp add: same_links_def)
  have "TaskSwitch stack s = switch_tail stack ((RTC_Check s)\<lparr>mem := m1\<rparr>)"
    using c(2,3) inv1 by (simp add: TaskSwitch_def cur m1_def Let_def)
  also have "\<dots> = Inr ((), (RTC_Check s)\<lparr>
    mem := switched stack ?c (fs ! j) (q = 0) (if q = 0 then 9 else q - 1) (mem s), current := fs ! j\<rparr>)"
  proof (cases "q = 0")
    case True
    have "switch_tail stack ((RTC_Check s)\<lparr>mem := m1\<rparr>) = Inr ((), (RTC_Check s)\<lparr>
        mem := memcpy (set_quanta (fs ! j) (pf_quanta m2 (fs ! j) - 1) m2) stack (pf_regs (fs ! j)) 160, current := fs ! j\<rparr>)"
      unfolding switch_tail_def using True q1 succ dnz
      by (cases "pf_next m2 ?c = 0") (simp_all add: cur m2_def [symmetric] j_def Let_def)
    with True q2 show ?thesis by (simp add: switched_def j_def m2_def m1_def)
  next
    case False
    with c(2) q1 show ?thesis by (simp add: switch_tail_def switched_def j_def m1_def cur Let_def)
  qed
  finally show ?thesis .
qed

text \<open>The same with its effect on the tasks: the invariant, the quanta and the saved contexts.\<close>

lemma TaskSwitch_running:
  assumes run: "running s fs" and st: "stack_ok s fs stack" and i: "i < length fs" and cur: "current s = fs ! i"
  defines "q \<equiv> pf_quanta (mem s) (fs ! i)"
  defines "j \<equiv> (if q = 0 then next_index fs i else i)"
  shows "\<exists>s'. TaskSwitch stack s = Inr ((), s') \<and> running s' fs \<and> prochead s' = prochead s \<and> current s' = fs ! j \<and> j < length fs \<and>
    pf_quanta (mem s') (fs ! j) = (if q = 0 then 9 else q - 1) \<and>
    ctx (mem s') stack = (if fs ! j = fs ! i then ctx (mem s) stack else ctx (mem s) (pf_regs (fs ! j))) \<and>
    (\<forall>f \<in> set fs. ctx (mem s') (pf_regs f) = (if f = fs ! i then ctx (mem s) stack else ctx (mem s) (pf_regs f)))"
proof -
  let ?R = "prochead s # fs" and ?q = "if q = 0 then 9 else q - 1 :: u8"
  define m where "m = switched stack (fs ! i) (fs ! j) (q = 0) ?q (mem s)"
  let ?s = "(RTC_Check s)\<lparr>mem := m, current := fs ! j\<rparr>"
  note tick = TaskSwitch_tick [OF run st i cur, folded q_def, folded j_def, folded m_def]
  have apart: "frames_apart ?R" using run by (simp add: running_def tasks_def)
  have jl: "j < length fs" using i by (auto simp: j_def next_index_def intro!: mod_less_divisor)
  have ij: "fs ! i \<in> set ?R" "fs ! j \<in> set ?R" using i jl by simp_all
  have stR: "bytes stack 160 \<inter> bytes f 224 = {}" if "f \<in> set ?R" for f using st that unfolding stack_ok_def by blast
  have eff: "same_links m (mem s) f"
    "pf_quanta m f = (if f = fs ! j then ?q else if f = fs ! i \<and> q = 0 then 10 else pf_quanta (mem s) f)"
    "ctx m (pf_regs f) = (if f = fs ! i then ctx (mem s) stack else ctx (mem s) (pf_regs f))" if "f \<in> set ?R" for f
    unfolding m_def by (rule switched_effect [OF apart _ ij]; use stR that in blast)+
  have eff4: "ctx m stack = (if fs ! j = fs ! i then ctx (mem s) stack else ctx (mem s) (pf_regs (fs ! j)))"
    unfolding m_def by (rule switched_effect [OF apart _ ij]; use stR in blast)
  have "tasks ?s fs" by (rule tasks_links [of s]) (use run eff(1) in \<open>auto simp: running_def\<close>)
  moreover have "\<not> pf_invalid m f" if "f \<in> set fs" for f
    using run eff(1) [of f] that by (auto simp: running_def same_links_def)
  moreover have "if f = fs ! j then pf_quanta m f \<le> 10 else pf_quanta m f = 10" if f: "f \<in> set fs" for f
  proof -
    have "q \<le> 10" using run i cur by (auto simp: running_def q_def)
    then have le: "?q \<le> 10" by (auto simp: word_le_nat_alt unat_minus_one split: if_splits)
    have full: "pf_quanta (mem s) f = 10" if "f \<noteq> fs ! i" using run f that cur by (auto simp: running_def)
    have e: "pf_quanta m f = (if f = fs ! j then ?q else if f = fs ! i \<and> q = 0 then 10 else pf_quanta (mem s) f)"
      by (rule eff(2)) (use f in simp)
    show ?thesis
    proof (cases "f = fs ! j")
      case True
      with e le show ?thesis by simp
    next
      case False
      then have "f = fs ! i \<Longrightarrow> q = 0" by (auto simp: j_def split: if_splits)
      with False e full show ?thesis by (cases "f = fs ! i") simp_all
    qed
  qed
  ultimately have "running ?s fs" unfolding running_def by simp
  moreover have "ctx m (pf_regs f) = (if f = fs ! i then ctx (mem s) stack else ctx (mem s) (pf_regs f))" if "f \<in> set fs" for f
    using eff(3) [of f] that by simp
  moreover have "pf_quanta m (fs ! j) = ?q" using eff(2) [OF ij(2)] by simp
  ultimately show ?thesis using tick jl eff4 by (intro exI [of _ ?s]) simp
qed

text \<open>A sequence of ticks, each interrupting on its own stack.\<close>

fun ticks :: "addr list \<Rightarrow> 'z sched_scheme \<Rightarrow> (unit, 'z sched_scheme) res" where
  "ticks [] s = Inr ((), s)"
| "ticks (st # sts) s = bindR (TaskSwitch st s) (\<lambda>_ s. ticks sts s)"

lemma ticks_append: "ticks (a @ b) s = bindR (ticks a s) (\<lambda>_ s. ticks b s)"
  by (induction a arbitrary: s) (auto simp: bindR_def split: sum.splits)

lemma stack_ok_prochead: "prochead s' = prochead s \<Longrightarrow> stack_ok s' fs st = stack_ok s fs st"
  by (simp add: stack_ok_def)

text \<open>A task with quantum \<open>q\<close> runs for \<open>q\<close> more ticks; the tick after that goes to the next.\<close>

lemma quantum_runs_out:
  assumes "running s fs" and "i < length fs" and "current s = fs ! i"
    and "unat (pf_quanta (mem s) (fs ! i)) = n" and "length sts = Suc n" and "\<forall>st \<in> set sts. stack_ok s fs st"
  shows "\<exists>s'. ticks sts s = Inr ((), s') \<and> running s' fs \<and> prochead s' = prochead s \<and>
    current s' = fs ! next_index fs i \<and> pf_quanta (mem s') (fs ! next_index fs i) = 9"
  using assms
proof (induction n arbitrary: s sts)
  case 0
  then obtain st where st: "sts = [st]" by (cases sts) auto
  have q: "pf_quanta (mem s) (fs ! i) = 0" using "0.prems"(4) by (simp add: unat_eq_0)
  have "stack_ok s fs st" using "0.prems"(6) st by simp
  from TaskSwitch_running [OF "0.prems"(1) this "0.prems"(2,3)] q show ?case by (auto simp: st)
next
  case (Suc n)
  then obtain st sts' where st: "sts = st # sts'" by (cases sts) auto
  have q: "pf_quanta (mem s) (fs ! i) \<noteq> 0" using Suc.prems(4) by auto
  have "stack_ok s fs st" using Suc.prems(6) st by simp
  from TaskSwitch_running [OF Suc.prems(1) this Suc.prems(2,3)] q obtain s1 where
    s1: "TaskSwitch st s = Inr ((), s1)" "running s1 fs" "prochead s1 = prochead s" "current s1 = fs ! i"
    "pf_quanta (mem s1) (fs ! i) = pf_quanta (mem s) (fs ! i) - 1" by auto
  have "unat (pf_quanta (mem s1) (fs ! i)) = n" using s1(5) q Suc.prems(4) by (simp add: unat_minus_one)
  moreover have "\<forall>t \<in> set sts'. stack_ok s1 fs t" using Suc.prems(6) st stack_ok_prochead [OF s1(3)] by simp
  ultimately obtain s' where "ticks sts' s1 = Inr ((), s')" "running s' fs" "prochead s' = prochead s1"
    "current s' = fs ! next_index fs i" "pf_quanta (mem s') (fs ! next_index fs i) = 9"
    using Suc.IH [OF s1(2) Suc.prems(2) s1(4), of sts'] Suc.prems(5) st by auto
  with s1 st show ?case by auto
qed

lemma rounds:
  assumes "running s fs" and "i < length fs" and "current s = fs ! i" and "pf_quanta (mem s) (fs ! i) = 9"
    and "length sts = 10 * k" and "\<forall>st \<in> set sts. stack_ok s fs st"
  shows "\<exists>s'. ticks sts s = Inr ((), s') \<and> running s' fs \<and> prochead s' = prochead s \<and>
    current s' = fs ! ((i + k) mod length fs) \<and> pf_quanta (mem s') (fs ! ((i + k) mod length fs)) = 9"
  using assms
proof (induction k arbitrary: s i sts)
  case 0
  then show ?case by simp
next
  case (Suc k)
  let ?a = "take 10 sts" and ?b = "drop 10 sts"
  have sub: "set ?a \<subseteq> set sts" "set ?b \<subseteq> set sts" by (rule set_take_subset, rule set_drop_subset)
  have "unat (9 :: u8) = 9" by simp
  with quantum_runs_out [OF Suc.prems(1-3), of 9 ?a] Suc.prems(4-6) sub obtain s1 where
    s1: "ticks ?a s = Inr ((), s1)" "running s1 fs" "prochead s1 = prochead s"
    "current s1 = fs ! next_index fs i" "pf_quanta (mem s1) (fs ! next_index fs i) = 9" by auto
  have "next_index fs i < length fs" using Suc.prems(2) by (auto simp: next_index_def intro!: mod_less_divisor)
  moreover have "\<forall>t \<in> set ?b. stack_ok s1 fs t" using Suc.prems(6) sub(2) stack_ok_prochead [OF s1(3)] by auto
  ultimately obtain s' where s': "ticks ?b s1 = Inr ((), s')" "running s' fs" "prochead s' = prochead s1"
    "current s' = fs ! ((next_index fs i + k) mod length fs)" "pf_quanta (mem s') (fs ! ((next_index fs i + k) mod length fs)) = 9"
    using Suc.IH [OF s1(2) _ s1(4,5), of ?b] Suc.prems(5) by auto
  have "(next_index fs i + k) mod length fs = (i + Suc k) mod length fs" by (simp add: next_index_def mod_add_left_eq)
  moreover have "ticks sts s = bindR (ticks ?a s) (\<lambda>_ s. ticks ?b s)" by (metis append_take_drop_id ticks_append)
  ultimately show ?case using s1 s' by auto
qed

section \<open>Unlinking a task\<close>

lemma terminate_loop_finds:
  assumes "chain 216 (mem s) (pf_next (mem s) prev) (as @ f # bs)" and "\<forall>a \<in> set as. pf_pid (mem s) a \<noteq> pid" and "pf_pid (mem s) f = pid"
  shows "terminate_loop pid prev s =
    Some (Inr ((), s\<lparr>mem := set_pf_next (last (prev # as)) (pf_next (mem s) f) (mem s)\<rparr>))"
  using assms
proof (induction as arbitrary: prev)
  case Nil
  then show ?case by (subst terminate_loop.simps) (auto simp: Let_def)
next
  case (Cons a as)
  then have a: "pf_next (mem s) prev = a" "a \<noteq> 0" "pf_pid (mem s) a \<noteq> pid" by auto
  have "terminate_loop pid prev s = terminate_loop pid a s"
    using a by (subst terminate_loop.simps) (simp add: Let_def)
  also have "\<dots> = Some (Inr ((), s\<lparr>mem := set_pf_next (last (a # as)) (pf_next (mem s) f) (mem s)\<rparr>))"
    using Cons.prems by (intro Cons.IH) (auto simp: pf_next_def)
  finally show ?case by simp
qed

lemma terminate_loop_misses:
  assumes "chain 216 (mem s) (pf_next (mem s) prev) fs" and "\<forall>f \<in> set fs. pf_pid (mem s) f \<noteq> pid"
  shows "terminate_loop pid prev s = Some (Inl (NullDeref, s))"
  using assms
proof (induction fs arbitrary: prev)
  case Nil
  then show ?case by (subst terminate_loop.simps) simp
next
  case (Cons f fs)
  then have f: "pf_next (mem s) prev = f" "f \<noteq> 0" "pf_pid (mem s) f \<noteq> pid" by auto
  have "terminate_loop pid prev s = terminate_loop pid f s"
    using f by (subst terminate_loop.simps) (simp add: Let_def)
  also have "\<dots> = Some (Inl (NullDeref, s))"
    using Cons.prems by (intro Cons.IH) (auto simp: pf_next_def)
  finally show ?case .
qed

lemma frames_apart_subset: "frames_apart fs \<Longrightarrow> distinct gs \<Longrightarrow> set gs \<subseteq> set fs \<Longrightarrow> frames_apart gs"
  unfolding frames_apart_def by (meson subsetD)

lemma frames_apartD: "frames_apart fs \<Longrightarrow> f \<in> set fs \<Longrightarrow> g \<in> set fs \<Longrightarrow> f \<noteq> g \<Longrightarrow> bytes f 224 \<inter> bytes g 224 = {}"
  by (simp add: frames_apart_def)

lemma frames_apart_sorted:
  assumes "frames_apart fs"
  shows "sorted_wrt (\<lambda>a b. bytes a 224 \<inter> bytes b 224 = {}) fs"
  unfolding sorted_wrt_iff_nth_less
proof (intro allI impI)
  fix i j assume ij: "i < j" "j < length fs"
  have "distinct fs" using assms by (simp add: frames_apart_def)
  with ij have "fs ! i \<noteq> fs ! j" by (simp add: nth_eq_iff_index_eq)
  with ij show "bytes (fs ! i) 224 \<inter> bytes (fs ! j) 224 = {}" by (intro frames_apartD [OF assms]) simp_all
qed

text \<open>Unlinking keeps the rest of the list and every byte outside one link field.\<close>

lemma tasks_unlink:
  assumes tk: "tasks s (as @ f # bs)"
  defines "y \<equiv> last (prochead s # as)"
  defines "s' \<equiv> s\<lparr>mem := set_pf_next y (pf_next (mem s) f) (mem s)\<rparr>"
  shows "tasks s' (as @ bs)" and "x \<notin> bytes (y + 216) 8 \<Longrightarrow> mem s' x = mem s x" and "y \<in> set (prochead s # as)"
proof -
  from tk have apart: "frames_apart (prochead s # as @ f # bs)" and ph: "prochead s \<noteq> 0"
    and ch: "chain 216 (mem s) (prochead s) (prochead s # as @ f # bs)" by (auto simp: tasks_def pf_next_def)
  obtain ys where ys: "prochead s # as = ys @ [y]" unfolding y_def by (metis append_butlast_last_id list.discI)
  then have list: "prochead s # as @ f # bs = ys @ y # f # bs" "prochead s # as @ bs = ys @ y # bs" by simp_all
  have mem': "mem s' = store64 (mem s) (y + of_nat 216) (load64 (mem s) (f + of_nat 216))"
    by (simp add: s'_def set_pf_next_def pf_next_def)
  have "chain 216 (mem s') (prochead s) (ys @ y # bs)"
    unfolding mem' using ch frames_apart_sorted [OF apart] unfolding list by (intro frames.chain_unlink) simp_all
  then have ch': "chain 216 (mem s') (prochead s) (prochead s # as @ bs)" unfolding list .
  have "distinct (prochead s # as @ bs)" using apart by (simp add: frames_apart_def)
  then have "frames_apart (prochead s # as @ bs)" by (rule frames_apart_subset [OF apart]) auto
  with ch' ph show "tasks s' (as @ bs)" by (simp add: tasks_def pf_next_def s'_def)
  show "x \<notin> bytes (y + 216) 8 \<Longrightarrow> mem s' x = mem s x" by (simp add: mem' store_le_outside)
  show "y \<in> set (prochead s # as)" unfolding y_def by (rule last_in_set) simp
qed

lemma terminate_message:
  assumes "serial_ready s"
  shows "\<exists>es. printf (lit (''[DEBUG] Task termination requested for PID %d.'' @ newline)) [Num (ucast (pid :: u8))] s =
    Inr ((), s\<lparr>trace := trace s @ es\<rparr>)"
proof -
  obtain out where "render (lit (''[DEBUG] Task termination requested for PID %d.'' @ newline)) [Num (ucast pid)] = Some out"
    by simp
  with assms show ?thesis by (rule printf_returns)
qed

lemma TerminateTask_unlinks:
  assumes tk: "tasks s (as @ f # bs)" and ser: "serial_ready s"
    and pid: "\<forall>a \<in> set as. pf_pid (mem s) a \<noteq> pid" "pf_pid (mem s) f = pid"
  shows "\<exists>t. TerminateTask pid s = Inr ((), s\<lparr>trace := t @ [Cli],
    mem := set_pf_next (last (prochead s # as)) (pf_next (mem s) f) (mem s)\<rparr>)"
proof -
  from terminate_message [OF ser] obtain es where
    "printf (lit (''[DEBUG] Task termination requested for PID %d.'' @ newline)) [Num (ucast pid)] s = Inr ((), s\<lparr>trace := trace s @ es\<rparr>)" by blast
  moreover have "terminate_loop pid (prochead s) (s\<lparr>trace := t\<rparr>) =
      Some (Inr ((), s\<lparr>trace := t, mem := set_pf_next (last (prochead s # as)) (pf_next (mem s) f) (mem s)\<rparr>))" for t
    using terminate_loop_finds [of "s\<lparr>trace := t\<rparr>" "prochead s" as f bs pid] tk pid by (simp add: tasks_def)
  ultimately have "TerminateTask pid s = Inr ((), s\<lparr>trace := (trace s @ es) @ [Cli],
      mem := set_pf_next (last (prochead s # as)) (pf_next (mem s) f) (mem s)\<rparr>)"
    by (simp add: TerminateTask_def Let_def emit_def)
  then show ?thesis by blast
qed

section \<open>The end of a task\<close>

text \<open>Bytes of link fields and of registers are different bytes.\<close>

lemma link_not_regs:
  assumes "frames_apart fs" and "f \<in> set fs" and "g \<in> set fs"
  shows "bytes (f + 216) 8 \<inter> bytes (g + 33) 161 = {}"
proof (cases "f = g")
  case True
  then show ?thesis using fields_disjoint [of 33 161 216 8 g] by (simp add: Int_commute)
next
  case False
  with frames_apartD [OF assms] field_in_frame [of 216 8 f] field_in_frame [of 33 161 g] show ?thesis by auto
qed

text \<open>The tail of \<open>TaskSwitch\<close> for a task whose quantum is not used up.\<close>

lemma switch_tail_continue:
  assumes tk: "tasks s fs" and g: "g \<in> set fs" "current s = g" and q: "pf_quanta (mem s) g \<noteq> 0" and st: "stack_ok s fs stack"
  shows "\<exists>s'. switch_tail stack s = Inr ((), s') \<and> tasks s' fs \<and> current s' = g \<and> ctx (mem s') stack = ctx (mem s) (pf_regs g)"
proof -
  let ?R = "prochead s # fs"
  have apart: "frames_apart ?R" using tk by (simp add: tasks_def)
  have "g \<noteq> 0" using tk g chain_nonzero [of 216 "mem s" "pf_next (mem s) (prochead s)" fs g] by (simp add: tasks_def)
  let ?m3 = "set_quanta g (pf_quanta (mem s) g - 1) (mem s)"
  let ?m4 = "memcpy ?m3 stack (pf_regs g) 160"
  have ret: "switch_tail stack s = Inr ((), s\<lparr>mem := ?m4\<rparr>)"
    using q g(2) \<open>g \<noteq> 0\<close> by (simp add: switch_tail_def Let_def)
  have gR: "g \<in> set ?R" using g by simp
  have disj: "bytes stack 160 \<inter> bytes (pf_regs g) 160 = {}"
    using st gR regs_in_frame [of g] unfolding stack_ok_def by blast
  have "ctx ?m3 (pf_regs g) = ctx (mem s) (pf_regs g)"
    using quanta_not_in_regs [OF apart gR gR] by (intro ctx_cong) (auto simp: set_quanta_def)
  then have c: "ctx ?m4 stack = ctx (mem s) (pf_regs g)" using ctx_memcpy(1) [OF disj] by simp
  have "same_links ?m4 (mem s) f" if f: "f \<in> set ?R" for f
  proof (rule same_links_outside [OF apart f])
    fix x assume x: "x \<in> bytes f 224" "\<And>h. h \<in> set ?R \<Longrightarrow> x \<notin> bytes (h + 33) 161"
    have "x \<noteq> g + 193" using x(2) [OF gR] charged_bytes(1) by auto
    moreover have "x \<notin> bytes stack 160" using st f x(1) unfolding stack_ok_def by blast
    ultimately show "?m4 x = mem s x" using ctx_memcpy(2) [OF disj] by (simp add: set_quanta_def)
  qed
  then have "tasks (s\<lparr>mem := ?m4\<rparr>) fs" by (intro tasks_links [OF tk]) simp_all
  with ret c g(2) show ?thesis by auto
qed

lemma TaskSwitch_reaps_task:
  assumes tk: "tasks s (as @ f # bs)" and cur: "current s = f" and inv: "pf_invalid (mem s) f"
    and pid: "\<forall>a \<in> set as. pf_pid (mem s) a \<noteq> pf_pid (mem s) f" and ser: "serial_ready s"
    and st: "stack_ok s (as @ f # bs) stack" and g: "as @ bs = g # gs" "pf_quanta (mem s) g \<noteq> 0"
  shows "\<exists>s'. TaskSwitch stack s = Inr ((), s') \<and> tasks s' (as @ bs) \<and> current s' = g \<and>
    ctx (mem s') stack = ctx (mem s) (pf_regs g)"
proof -
  let ?R = "prochead s # as @ f # bs"
  have apart: "frames_apart ?R" and ph: "prochead s \<noteq> 0" using tk by (simp_all add: tasks_def)
  have f: "f \<in> set ?R" "f \<noteq> 0" "f \<noteq> prochead s"
    using tk chain_nonzero [of 216 "mem s" _ "as @ f # bs" f] apart by (auto simp: tasks_def frames_apart_def)
  have gin: "g \<in> set ?R" "g \<noteq> f"
  proof -
    have "g \<in> set (as @ bs)" by (simp add: g(1))
    then show "g \<in> set ?R" "g \<noteq> f" using apart by (auto simp: frames_apart_def)
  qed
  define m1 where "m1 = memcpy (mem s) (pf_regs f) stack 160"
  have disj: "bytes (pf_regs f) 160 \<inter> bytes stack 160 = {}"
    using st f(1) regs_in_frame [of f] unfolding stack_ok_def by blast
  have out1: "m1 x = mem s x" if "x \<notin> bytes (f + 33) 161" for x
    unfolding m1_def using that charged_bytes(2) by (intro ctx_memcpy(2) [OF disj]) blast
  have l1: "same_links m1 (mem s) h" if "h \<in> set ?R" for h
    by (rule same_links_outside [OF apart that]) (use out1 f(1) in blast)
  let ?s1 = "(RTC_Check s)\<lparr>mem := m1\<rparr>"
  have tk1: "tasks ?s1 (as @ f # bs)" by (rule tasks_links [OF tk]) (use l1 in simp_all)
  have ser1: "serial_ready ?s1" using ser by (simp add: serial_ready_def)
  have pids: "pf_pid m1 h = pf_pid (mem s) h" if "h \<in> set ?R" for h using l1 [OF that] by (simp add: same_links_def)
  let ?y = "last (prochead s # as)" and ?p = "pf_pid m1 f"
  have "\<forall>a \<in> set as. pf_pid (mem ?s1) a \<noteq> ?p" using pid pids f(1) by simp
  from TerminateTask_unlinks [OF tk1 ser1 this] obtain t where
    tt: "TerminateTask ?p ?s1 = Inr ((), ?s1\<lparr>trace := t @ [Cli], mem := set_pf_next ?y (pf_next m1 f) m1\<rparr>)" by auto
  let ?s2 = "?s1\<lparr>trace := t @ [Cli], mem := set_pf_next ?y (pf_next m1 f) m1\<rparr>"
  have u: "tasks (?s1\<lparr>mem := set_pf_next ?y (pf_next m1 f) m1\<rparr>) (as @ bs)"
    "\<And>x. x \<notin> bytes (?y + 216) 8 \<Longrightarrow> set_pf_next ?y (pf_next m1 f) m1 x = m1 x" "?y \<in> set ?R"
    using tasks_unlink [OF tk1] by auto
  have tk2: "tasks ?s2 (as @ bs)" using u(1) by (simp add: tasks_def)
  have out2: "mem ?s2 x = mem s x" if "x \<in> bytes (g + 33) 161" for x
  proof -
    have "x \<notin> bytes (?y + 216) 8" using link_not_regs [OF apart u(3) gin(1)] that by blast
    moreover have "x \<notin> bytes (f + 33) 161"
      using frames_apartD [OF apart gin(1) f(1) gin(2)] field_in_frame [of 33 161 g] field_in_frame [of 33 161 f] that by auto
    ultimately show ?thesis using u(2) out1 by simp
  qed
  have head: "pf_next (mem ?s2) (prochead s) = g" "g \<noteq> 0"
    using tk2 g(1) chain_head [of 216 "mem ?s2" "pf_next (mem ?s2) (prochead s)" "as @ bs"]
      chain_nonzero [of 216 "mem ?s2" "pf_next (mem ?s2) (prochead s)" "as @ bs" g] by (auto simp: tasks_def)
  have q2: "pf_quanta (mem ?s2) g \<noteq> 0" using out2 [OF charged_bytes(1)] g(2) by (simp add: pf_quanta_def)
  have inv1: "pf_invalid m1 f" using l1 [OF f(1)] inv by (simp add: same_links_def)
  have "TaskSwitch stack s = switch_tail stack (?s2\<lparr>current := g\<rparr>)"
    using f(2,3) inv1 tt head cur by (simp add: TaskSwitch_def m1_def Let_def)
  moreover have "\<exists>s'. switch_tail stack (?s2\<lparr>current := g\<rparr>) = Inr ((), s') \<and> tasks s' (as @ bs) \<and> current s' = g \<and>
      ctx (mem s') stack = ctx (mem (?s2\<lparr>current := g\<rparr>)) (pf_regs g)"
  proof (rule switch_tail_continue)
    show "tasks (?s2\<lparr>current := g\<rparr>) (as @ bs)" using tk2 by (simp add: tasks_def)
    show "g \<in> set (as @ bs)" by (simp add: g(1))
    have "stack_ok s (as @ bs) stack" using st by (simp add: stack_ok_def)
    then show "stack_ok (?s2\<lparr>current := g\<rparr>) (as @ bs) stack" by (simp add: stack_ok_def)
  qed (use q2 in simp_all)
  moreover have "ctx (mem ?s2) (pf_regs g) = ctx (mem s) (pf_regs g)"
    using out2 charged_bytes(2) by (intro ctx_cong) blast
  ultimately show ?thesis by auto
qed

text \<open>Marking a task leaves links, pids, quanta and contexts alone.\<close>

lemma set_invalid_frame:
  assumes apart: "frames_apart fs" and f: "f \<in> set fs" and h: "h \<in> set fs"
  shows "pf_next (set_invalid f m) h = pf_next m h" and "pf_pid (set_invalid f m) h = pf_pid m h"
    and "pf_quanta (set_invalid f m) h = pf_quanta m h" and "ctx (set_invalid f m) (pf_regs h) = ctx m (pf_regs h)"
proof -
  have away: "f + 208 \<notin> bytes (h + of_nat i) n" if "i + n \<le> 224" "i + n \<le> 208 \<or> 209 \<le> i" for i n
  proof (cases "f = h")
    case True
    have "bytes (h + of_nat i) n \<inter> bytes (h + of_nat 208) 1 = {}"
      using fields_disjoint [of i n 208 1 h] fields_disjoint [of 208 1 i n h] that by (auto simp: Int_commute)
    moreover have "h + 208 \<in> bytes (h + of_nat 208) 1" by simp
    ultimately show ?thesis using True by blast
  next
    case False
    have "f + 208 \<in> bytes f 224" using offset_in_bytes [of 208 224 f] by simp
    with frames_apartD [OF apart f h False] field_in_frame [OF that(1), of h] show ?thesis by blast
  qed
  have same: "set_invalid f m x = m x" if "x \<in> bytes (h + of_nat i) n" "i + n \<le> 224" "i + n \<le> 208 \<or> 209 \<le> i" for x i n
    using away [OF that(2,3)] that(1) by (auto simp: set_invalid_def)
  show "pf_next (set_invalid f m) h = pf_next m h"
    unfolding pf_next_def by (rule load_le_cong) (use same [of _ 216 8] in auto)
  show "pf_pid (set_invalid f m) h = pf_pid m h" using same [of h 0 1] by (simp add: pf_pid_def)
  show "pf_quanta (set_invalid f m) h = pf_quanta m h" using same [of "h + 193" 193 1] by (simp add: pf_quanta_def)
  show "ctx (set_invalid f m) (pf_regs h) = ctx m (pf_regs h)"
    using same [of _ 33 160] by (intro ctx_cong) (auto simp: pf_regs_def)
qed

text \<open>A task marked invalid while it runs is taken off the list by the next tick.\<close>

lemma marked_task_reaped:
  assumes tk: "tasks s (as @ f # bs)" and pid: "\<forall>a \<in> set as. pf_pid (mem s) a \<noteq> pf_pid (mem s) f"
    and ser: "serial_ready s" and st: "stack_ok s (as @ f # bs) stack" and rest: "as @ bs = g # gs" and q: "pf_quanta (mem s) g \<noteq> 0"
    and s1: "mem s1 = set_invalid f (mem s)" "prochead s1 = prochead s" "current s1 = f" "device s1 = device s"
  shows "\<exists>s2. TaskSwitch stack s1 = Inr ((), s2) \<and> tasks s2 (as @ bs) \<and> current s2 = g \<and> ctx (mem s2) stack = ctx (mem s) (pf_regs g)"
proof -
  let ?R = "prochead s # as @ f # bs"
  have apart: "frames_apart ?R" using tk by (simp add: tasks_def)
  have f: "f \<in> set ?R" by simp
  have "g \<in> set (as @ bs)" by (simp add: rest)
  then have g: "g \<in> set ?R" by auto
  note keep = set_invalid_frame [OF apart f, where m = "mem s"]
  have "chain 216 (mem s1) p (as @ f # bs) = chain 216 (mem s) p (as @ f # bs)" for p
    by (rule chain_cong) (use keep(1) s1(1) in \<open>auto simp: pf_next_def\<close>)
  then have "tasks s1 (as @ f # bs)" using tk keep(1) [of "prochead s"] s1(1,2) by (simp add: tasks_def)
  moreover have "pf_invalid (mem s1) f" by (simp add: s1(1) pf_invalid_def set_invalid_def)
  moreover have "\<forall>a \<in> set as. pf_pid (mem s1) a \<noteq> pf_pid (mem s1) f" using pid keep(2) s1(1) by simp
  moreover have "serial_ready s1" using ser s1(4) by (simp add: serial_ready_def)
  moreover have "stack_ok s1 (as @ f # bs) stack" using st s1(2) by (simp add: stack_ok_def)
  moreover have "pf_quanta (mem s1) g \<noteq> 0" using q keep(3) [OF g] s1(1) by simp
  ultimately show ?thesis using TaskSwitch_reaps_task [OF _ s1(3) _ _ _ _ rest] keep(4) [OF g] s1(1) by simp
qed

section \<open>A small system\<close>

text \<open>Two tasks, the first of which runs and has nine ticks left.\<close>

definition demo_frames_mem :: memory where
  "demo_frames_mem = (store64 (store64 (\<lambda>_. 0) 0x3020D8 0x300000) 0x3000D8 0x301000)
     (0x300000 := 1, 0x301000 := 2, 0x3000C1 := 9, 0x3010C1 := 10)"

definition demo_sched :: sched where
  "demo_sched = \<lparr>mem = demo_frames_mem, trace = [], device = (\<lambda>_ _. 0x20), fbSetup = False, FrameList = 0, LargestMemSegSize = 0,
     head_next = 0, pml4 = 0, GlobalPagingInfo = GlobalPagingInfo demo_paging0, tensMsSinceBoot = 0,
     highest_pid = 3, schedulingStarted = True, prochead = 0x302000, current = 0x300000\<rparr>"

lemma demo_frames:
  "pf_next demo_frames_mem 0x302000 = 0x300000" "pf_next demo_frames_mem 0x300000 = 0x301000"
  "pf_next demo_frames_mem 0x301000 = 0" "pf_quanta demo_frames_mem 0x300000 = 9" "pf_quanta demo_frames_mem 0x301000 = 10"
  "\<not> pf_invalid demo_frames_mem 0x300000" "\<not> pf_invalid demo_frames_mem 0x301000"
  "pf_pid demo_frames_mem 0x300000 = 1" "pf_pid demo_frames_mem 0x301000 = 2"
proof -
  show "pf_next demo_frames_mem 0x302000 = 0x300000" "pf_next demo_frames_mem 0x300000 = 0x301000"
    "pf_next demo_frames_mem 0x301000 = 0"
    by (simp_all add: demo_frames_mem_def pf_next_def load_upd_away load_store_away load_zero)
qed (simp_all add: demo_frames_mem_def pf_quanta_def pf_invalid_def pf_pid_def store_le_def)

lemma demo_apart: "frames_apart [0x302000, 0x300000, 0x301000]"
proof -
  have d: "bytes 0x300000 224 \<inter> bytes 0x301000 224 = {}" "bytes 0x300000 224 \<inter> bytes 0x302000 224 = {}"
    "bytes 0x301000 224 \<inter> bytes 0x302000 224 = {}" by (rule bytes_disjoint; simp)+
  note d' = d [THEN trans [OF Int_commute]]
  show ?thesis unfolding frames_apart_def by (simp add: d d')
qed

lemma demo_running: "running demo_sched [0x300000, 0x301000]" "stack_ok demo_sched [0x300000, 0x301000] 0x400000"
proof -
  show "running demo_sched [0x300000, 0x301000]"
    using demo_frames demo_apart by (simp add: running_def tasks_def demo_sched_def pf_next_def)
  have "bytes f 224 \<inter> bytes 0x400000 160 = {}" if "f \<in> {0x302000, 0x300000, 0x301000}" for f
    by (rule bytes_disjoint) (use that in auto)
  then show "stack_ok demo_sched [0x300000, 0x301000] 0x400000" by (simp add: stack_ok_def demo_sched_def Int_commute)
qed

lemma demo_sched_serial: "serial_ready demo_sched"
  by (simp add: demo_sched_def serial_ready_def)

section \<open>Properties\<close>

text \<open>
  C2: a timer tick saves the interrupted context exactly in the frame of the task that ran,
  charges one tick of its quantum or, when that is used up, passes the processor to the next
  task in the list and gives the old one a full quantum; it restores the context of the
  task that runs on and leaves the saved contexts of all others alone.
\<close>

theorem TaskSwitch_round_robin:
  assumes "running s fs" and "stack_ok s fs stack" and "i < length fs" and "current s = fs ! i"
  shows "\<exists>s' j. TaskSwitch stack s = Inr ((), s') \<and> running s' fs \<and>
    j = (if pf_quanta (mem s) (fs ! i) = 0 then next_index fs i else i) \<and> current s' = fs ! j \<and>
    pf_quanta (mem s') (fs ! j) = (if pf_quanta (mem s) (fs ! i) = 0 then 9 else pf_quanta (mem s) (fs ! i) - 1) \<and>
    ctx (mem s') stack = (if fs ! j = fs ! i then ctx (mem s) stack else ctx (mem s) (pf_regs (fs ! j))) \<and>
    (\<forall>f \<in> set fs. ctx (mem s') (pf_regs f) = (if f = fs ! i then ctx (mem s) stack else ctx (mem s) (pf_regs f)))"
  using TaskSwitch_running [OF assms] by blast

theorem TaskSwitch_round_robin_witness:
  "\<exists>s'. TaskSwitch 0x400000 demo_sched = Inr ((), s') \<and> current s' = 0x300000 \<and> pf_quanta (mem s') 0x300000 = 8"
  using TaskSwitch_round_robin [OF demo_running, of 0] by (auto simp: demo_sched_def demo_frames)

text \<open>
  C11: the scheduler is fair: while no task is added or ends, every task gets exactly ten
  ticks before the processor moves on to the next one, round and round the list.
\<close>

theorem round_robin_fair:
  assumes "running s fs" and "i < length fs" and "current s = fs ! i" and "pf_quanta (mem s) (fs ! i) = 9"
    and "length sts = 10 * k" and "\<forall>st \<in> set sts. stack_ok s fs st"
  shows "\<exists>s'. ticks sts s = Inr ((), s') \<and> running s' fs \<and> current s' = fs ! ((i + k) mod length fs)"
  using rounds [OF assms] by blast

theorem round_robin_fair_witness:
  "\<exists>s'. ticks (replicate 10 0x400000) demo_sched = Inr ((), s') \<and> current s' = 0x301000"
  using round_robin_fair [OF demo_running(1), of 0 "replicate 10 0x400000" 1] demo_running(2)
  by (auto simp: demo_sched_def demo_frames)

text \<open>
  C31: a task that calls \<open>ProcessExit\<close> spins, and the next timer tick takes it off the list,
  keeps all other tasks and resumes the first of them with its saved context.
\<close>

theorem ProcessExit_reaped:
  assumes "tasks s (as @ f # bs)" and "current s = f" and "\<forall>a \<in> set as. pf_pid (mem s) a \<noteq> pf_pid (mem s) f"
    and "serial_ready s" and "stack_ok s (as @ f # bs) stack" and "as @ bs = g # gs" and "pf_quanta (mem s) g \<noteq> 0"
  shows "\<exists>s1 s2. ProcessExit s = Inl (Endless, s1) \<and> TaskSwitch stack s1 = Inr ((), s2) \<and> tasks s2 (as @ bs) \<and>
    current s2 = g \<and> ctx (mem s2) stack = ctx (mem s) (pf_regs g)"
proof -
  have "f \<noteq> 0" using assms(1) chain_nonzero [of 216 "mem s" "pf_next (mem s) (prochead s)" "as @ f # bs" f] by (simp add: tasks_def)
  then obtain s1 where s1: "ProcessExit s = Inl (Endless, s1)" "mem s1 = set_invalid f (mem s)" "prochead s1 = prochead s"
    "current s1 = f" "device s1 = device s" using assms(2) by (simp add: ProcessExit_def emit_def Let_def)
  from marked_task_reaped [OF assms(1,3-7) s1(2-5)] s1(1) show ?thesis by blast
qed

theorem ProcessExit_reaped_witness:
  "\<exists>s1 s2. ProcessExit demo_sched = Inl (Endless, s1) \<and> TaskSwitch 0x400000 s1 = Inr ((), s2) \<and>
     tasks s2 [0x301000] \<and> current s2 = 0x301000"
  using ProcessExit_reaped [of demo_sched "[]" "0x300000" "[0x301000]" "0x400000" "0x301000" "[]"] demo_running demo_sched_serial
  by (auto simp: running_def demo_sched_def demo_frames)

text \<open>
  The page table of the running task is loaded only while its quantum is not zero, so in
  the last of its ten ticks a task runs on the page table of the kernel.
\<close>

theorem last_tick_kernel_tables:
  assumes "running s fs" and "stack_ok s fs stack" and "i < length fs" and "current s = fs ! i"
    and "pf_quanta (mem s) (fs ! i) = 1"
  shows "\<exists>s'. TaskSwitch stack s = Inr ((), s') \<and> current s' = fs ! i \<and> TaskSwitch_Stage2 s' = s'"
  using TaskSwitch_running [OF assms(1-4)] assms(5) by (auto simp: TaskSwitch_Stage2_def)

definition demo_last_tick :: sched where
  "demo_last_tick = demo_sched\<lparr>mem := set_quanta 0x300000 1 demo_frames_mem\<rparr>"

theorem last_tick_kernel_tables_witness:
  "\<exists>s'. TaskSwitch 0x400000 demo_last_tick = Inr ((), s') \<and> current s' = 0x300000 \<and> TaskSwitch_Stage2 s' = s'"
proof -
  have "same_links (set_quanta 0x300000 1 demo_frames_mem) demo_frames_mem f" if "f \<in> set [0x302000, 0x300000, 0x301000]" for f
  proof (rule same_links_outside [OF demo_apart that])
    fix x assume "\<And>h. h \<in> set [0x302000, 0x300000, 0x301000] \<Longrightarrow> x \<notin> bytes (h + 33) 161"
    then have "x \<noteq> 0x300000 + 193" using charged_bytes(1) [of "0x300000"] by (metis list.set_intros)
    then show "set_quanta 0x300000 1 demo_frames_mem x = demo_frames_mem x" by (simp add: set_quanta_def)
  qed
  then have links: "\<forall>f \<in> set (prochead demo_sched # [0x300000, 0x301000]). same_links (mem demo_last_tick) (mem demo_sched) f"
    by (simp add: demo_last_tick_def demo_sched_def)
  have "tasks demo_sched [0x300000, 0x301000]" using demo_running(1) unfolding running_def by blast
  then have "tasks demo_last_tick [0x300000, 0x301000]"
    by (rule tasks_links [OF _ _ bspec [OF links]]) (simp_all add: demo_last_tick_def)
  then have "running demo_last_tick [0x300000, 0x301000]"
    using demo_frames by (simp add: running_def demo_last_tick_def demo_sched_def pf_invalid_def pf_quanta_def set_quanta_def)
  moreover have "stack_ok demo_last_tick [0x300000, 0x301000] 0x400000"
    using demo_running(2) by (simp add: stack_ok_def demo_last_tick_def)
  ultimately show ?thesis
    using last_tick_kernel_tables [of demo_last_tick "[0x300000, 0x301000]" "0x400000" 0]
    by (simp add: demo_last_tick_def demo_sched_def pf_quanta_def set_quanta_def)
qed

text \<open>
  C33: \<open>TerminateTask\<close> unlinks the first task with the given pid and no other; it returns with
  interrupts disabled, since the \<open>sti\<close> behind its loop is never reached.
\<close>

theorem TerminateTask_removes:
  assumes "tasks s (as @ f # bs)" and "serial_ready s"
    and "\<forall>a \<in> set as. pf_pid (mem s) a \<noteq> pid" and "pf_pid (mem s) f = pid"
  shows "\<exists>s'. TerminateTask pid s = Inr ((), s') \<and> tasks s' (as @ bs) \<and> last (trace s') = Cli"
proof -
  from TerminateTask_unlinks [OF assms] obtain t where t: "TerminateTask pid s = Inr ((), s\<lparr>trace := t @ [Cli],
    mem := set_pf_next (last (prochead s # as)) (pf_next (mem s) f) (mem s)\<rparr>)" by blast
  have "tasks (s\<lparr>mem := set_pf_next (last (prochead s # as)) (pf_next (mem s) f) (mem s)\<rparr>) (as @ bs)"
    by (rule tasks_unlink(1) [OF assms(1)])
  then have "tasks (s\<lparr>trace := t @ [Cli], mem := set_pf_next (last (prochead s # as)) (pf_next (mem s) f) (mem s)\<rparr>) (as @ bs)"
    by (simp add: tasks_def)
  with t show ?thesis by auto
qed

theorem TerminateTask_removes_witness:
  "\<exists>s'. TerminateTask 2 demo_sched = Inr ((), s') \<and> tasks s' [0x300000]"
  using TerminateTask_removes [of demo_sched "[0x300000]" "0x301000" "[]" 2] demo_running(1) demo_sched_serial
  by (auto simp: running_def demo_sched_def demo_frames)

text \<open>
  For a pid that no task has, \<open>TerminateTask\<close> dereferences a null pointer: it reads the pid
  of the next frame before it tests the frame against null.
\<close>

theorem TerminateTask_missing:
  assumes "tasks s fs" and "serial_ready s" and "\<forall>f \<in> set fs. pf_pid (mem s) f \<noteq> pid"
  shows "\<exists>s'. TerminateTask pid s = Inl (NullDeref, s')"
proof -
  from terminate_message [OF assms(2)] obtain es where
    p: "printf (lit (''[DEBUG] Task termination requested for PID %d.'' @ newline)) [Num (ucast pid)] s = Inr ((), s\<lparr>trace := trace s @ es\<rparr>)" by blast
  have "terminate_loop pid (prochead s) (s\<lparr>trace := t\<rparr>) = Some (Inl (NullDeref, s\<lparr>trace := t\<rparr>))" for t
    by (rule terminate_loop_misses) (use assms in \<open>auto simp: tasks_def\<close>)
  with p show ?thesis by (simp add: TerminateTask_def Let_def emit_def)
qed

theorem TerminateTask_missing_witness: "\<exists>s'. TerminateTask 7 demo_sched = Inl (NullDeref, s')"
  using TerminateTask_missing [of demo_sched "[0x300000, 0x301000]" 7] demo_running(1) demo_sched_serial
  by (auto simp: running_def demo_sched_def demo_frames)

text \<open>
  A task name of exactly 32 characters passes the length test of \<open>IntAddTask\<close>, but its
  terminator is the 33rd byte: it is written over the first byte of the saved registers.
\<close>

theorem task_name_overflow:
  assumes "cstr_at m taskName name" and "length name = 32"
    and "bytes (pf_name frame) 33 \<inter> bytes taskName 33 = {}"
  shows "\<exists>m'. set_name frame taskName m = Some m' \<and> m' (pf_regs frame) = 0"
proof -
  have r: "pf_regs frame - pf_name frame = 32" by (simp add: pf_regs_def pf_name_def)
  have "strlen m taskName = Some 32" using strlen_cstr [OF assms(1)] assms(2) by simp
  moreover have "strcpy m (pf_name frame) taskName = Some (\<lambda>x.
      if x \<in> bytes (pf_name frame) 33 then (name @ [0]) ! unat (x - pf_name frame) else m x)"
    using strcpy_cstr [OF assms(1), of "pf_name frame"] assms(2,3) by simp
  ultimately show ?thesis using assms(2) by (simp add: set_name_def in_bytes_iff r nth_append)
qed

theorem task_name_overflow_witness:
  "\<exists>m'. set_name 0x1000 0x2000 (\<lambda>x. if x \<in> bytes 0x2000 32 then 65 else if x \<in> bytes 0x1000 224 then 7 else 0) = Some m' \<and>
    m' 0x1021 = 0"
proof -
  let ?m = "(\<lambda>x. if x \<in> bytes 0x2000 32 then 65 else if x \<in> bytes 0x1000 224 then 7 else 0) :: memory"
  have "cstr_at ?m 0x2000 (replicate 32 65)"
    using offset_in_bytes [of _ 32 "0x2000"] by (auto simp: cstr_at_def in_bytes_iff)
  moreover have "bytes (pf_name 0x1000) 33 \<inter> bytes 0x2000 33 = {}"
    by (rule bytes_disjoint) (simp_all add: pf_name_def)
  ultimately show ?thesis using task_name_overflow [of ?m "0x2000" "replicate 32 65" "0x1000"] by (simp add: pf_regs_def)
qed

end
