(* ===== verification/Spinlock.thy ===== *)
theory Spinlock
  imports Scheduler
begin

text \<open>
  The spinlock, \<open>multitasking/spinlock.c\<close> and \<open>spinlock.h\<close>. The lock is one atomic byte that
  several tasks share. The meaning of the two functions for a task on its own comes first;
  then any number of tasks call them, in any interleaving of their atomic steps.
\<close>

section \<open>The functions\<close>

definition INIT_SPINLOCK :: u8 where "INIT_SPINLOCK = 0"

text \<open>\<open>atomic_exchange\<close> stores the new byte and returns the old one in one step.\<close>

definition atomic_exchange :: "addr \<Rightarrow> u8 \<Rightarrow> 'z machine_scheme \<Rightarrow> u8 \<times> 'z machine_scheme" where
  "atomic_exchange lock v s = (mem s lock, s\<lparr>mem := (mem s)(lock := v)\<rparr>)"

partial_function (option) spinlock_acquire :: "addr \<Rightarrow> 'z machine_scheme \<Rightarrow> 'z machine_scheme option" where
  "spinlock_acquire lock s =
     (let (old, s) = atomic_exchange lock 1 s in
      if old \<noteq> 0 then spinlock_acquire lock (emit Hlt s) else Some s)"

definition spinlock_release :: "addr \<Rightarrow> 'z machine_scheme \<Rightarrow> 'z machine_scheme" where
  "spinlock_release lock s = s\<lparr>mem := (mem s)(lock := 0)\<rparr>"

lemma spinlock_acquire_free:
  "mem s lock = 0 \<Longrightarrow> spinlock_acquire lock s = Some (s\<lparr>mem := (mem s)(lock := 1)\<rparr>)"
  by (subst spinlock_acquire.simps) (simp add: atomic_exchange_def)

text \<open>On a lock that is taken and that nobody releases, \<open>spinlock_acquire\<close> does not return.\<close>

lemma spinlock_acquire_taken:
  assumes "mem s lock \<noteq> 0"
  shows "spinlock_acquire lock s = None"
proof -
  have "mem s lock = 0" if "spinlock_acquire lock s = Some s'" for s'
    by (rule spinlock_acquire.raw_induct [of "\<lambda>l s s'. mem s l = 0", OF _ that])
      (fastforce simp: atomic_exchange_def split: if_splits)
  with assms show ?thesis by (cases "spinlock_acquire lock s") auto
qed

section \<open>Interleavings\<close>

text \<open>
  Where a task stands: outside, about to do the exchange in the condition of the loop, at the
  \<open>hlt\<close> in its body, or past \<open>spinlock_acquire\<close> and before \<open>spinlock_release\<close>. All tasks share the
  machine. A step of one of them is one atomic step of the two functions, or other work
  that leaves the lock byte alone.
\<close>

datatype pc = Outside | Exchanging | Halted | Holding

type_synonym 'z conf = "'z machine_scheme \<times> (nat \<Rightarrow> pc)"

inductive lock_step :: "addr \<Rightarrow> nat \<Rightarrow> 'z conf \<Rightarrow> 'z conf \<Rightarrow> bool" for lock i where
  call_acquire: "ps i = Outside \<Longrightarrow> lock_step lock i (s, ps) (s, ps(i := Exchanging))"
| exchange: "ps i = Exchanging \<Longrightarrow> atomic_exchange lock 1 s = (old, s') \<Longrightarrow>
    lock_step lock i (s, ps) (s', ps(i := if old \<noteq> 0 then Halted else Holding))"
| halt: "ps i = Halted \<Longrightarrow> lock_step lock i (s, ps) (emit Hlt s, ps(i := Exchanging))"
| release: "ps i = Holding \<Longrightarrow> lock_step lock i (s, ps) (spinlock_release lock s, ps(i := Outside))"
| work: "ps i \<in> {Outside, Holding} \<Longrightarrow> mem s' lock = mem s lock \<Longrightarrow> lock_step lock i (s, ps) (s', ps)"

inductive lock_run :: "addr \<Rightarrow> 'z conf \<Rightarrow> 'z conf \<Rightarrow> bool" for lock where
  idle: "lock_run lock c c"
| step: "lock_run lock c c' \<Longrightarrow> lock_step lock i c' c'' \<Longrightarrow> lock_run lock c c''"

declare lock_run.idle [simp, intro]

inductive_cases lock_stepE: "lock_step lock i (s, ps) c"
inductive_simps holder_step: "lock_step lock i (s, ps(i := Holding)) c"

text \<open>All tasks are outside and the lock byte has its initial value.\<close>

definition lock_start :: "addr \<Rightarrow> 'z conf \<Rightarrow> bool" where
  "lock_start lock c \<longleftrightarrow> mem (fst c) lock = INIT_SPINLOCK \<and> (\<forall>i. snd c i = Outside)"

text \<open>The byte is one exactly when a task holds the lock, and never two do.\<close>

definition lock_inv :: "addr \<Rightarrow> 'z conf \<Rightarrow> bool" where
  "lock_inv lock c \<longleftrightarrow>
     (mem (fst c) lock = 0 \<and> (\<forall>i. snd c i \<noteq> Holding)) \<or>
     (mem (fst c) lock = 1 \<and> (\<exists>i. \<forall>j. snd c j = Holding \<longleftrightarrow> j = i))"

lemma lock_inv_start: "lock_start lock c \<Longrightarrow> lock_inv lock c"
  by (simp add: lock_inv_def lock_start_def INIT_SPINLOCK_def)

text \<open>A step that neither gives nor takes the lock keeps the set of holders.\<close>

lemma lock_inv_move:
  assumes "lock_inv lock (s, ps)" and "ps i \<noteq> Holding" and "p \<noteq> Holding" and "mem s' lock = mem s lock"
  shows "lock_inv lock (s', ps(i := p))"
proof -
  have "(ps(i := p)) j = Holding \<longleftrightarrow> ps j = Holding" for j using assms(2,3) by auto
  with assms(1,4) show ?thesis by (simp add: lock_inv_def)
qed

lemma lock_step_inv:
  assumes "lock_step lock i c c'" and "lock_inv lock c"
  shows "lock_inv lock c'"
  using assms
proof (induction rule: lock_step.induct)
  case (call_acquire ps s)
  then show ?case by (intro lock_inv_move [of lock s ps]) simp_all
next
  case (exchange ps s old s')
  show ?case
  proof (cases "old = 0")
    case True
    with exchange show ?thesis by (auto simp: lock_inv_def atomic_exchange_def)
  next
    case False
    then have "mem s' lock = mem s lock" using exchange by (auto simp: lock_inv_def atomic_exchange_def)
    with exchange False show ?thesis by (auto intro!: lock_inv_move [of lock s ps])
  qed
next
  case (halt ps s)
  then show ?case by (intro lock_inv_move [of lock s ps]) simp_all
next
  case (release ps s)
  then have "ps j \<noteq> Holding" if "j \<noteq> i" for j using that by (auto simp: lock_inv_def)
  then show ?case by (simp add: lock_inv_def spinlock_release_def)
next
  case (work ps s s')
  then show ?case by (simp add: lock_inv_def)
qed

lemma lock_run_inv: "lock_run lock c c' \<Longrightarrow> lock_inv lock c \<Longrightarrow> lock_inv lock c'"
  by (induction rule: lock_run.induct) (auto intro: lock_step_inv)

lemma lock_run_trans: "lock_run lock c' c'' \<Longrightarrow> lock_run lock c c' \<Longrightarrow> lock_run lock c c''"
  by (induction rule: lock_run.induct) (auto intro: lock_run.step)

lemma lock_run_step: "lock_step lock i c c' \<Longrightarrow> lock_run lock c c'"
  by (rule lock_run.step [OF lock_run.idle])

text \<open>From the exchange or the \<open>hlt\<close>, a task gets a lock that is free by its own steps alone.\<close>

lemma waiting_gets_free_lock:
  assumes "ps i \<in> {Exchanging, Halted}" and "mem s lock = 0"
  shows "\<exists>s' ps'. lock_run lock (s, ps) (s', ps') \<and> ps' i = Holding"
proof -
  have get: "lock_run lock (t, qs) ((t\<lparr>mem := (mem t)(lock := 1)\<rparr>), qs(i := Holding))"
    if "qs i = Exchanging" "mem t lock = 0" for t :: "'a machine_scheme" and qs
    using lock_step.exchange [of qs i lock t 0 "t\<lparr>mem := (mem t)(lock := 1)\<rparr>"] that
    by (simp add: atomic_exchange_def lock_run_step)
  show ?thesis
  proof (cases "ps i = Exchanging")
    case True
    with get [of ps s] assms(2) show ?thesis by (metis fun_upd_same)
  next
    case False
    then have "lock_run lock (s, ps) (emit Hlt s, ps(i := Exchanging))"
      using assms(1) by (auto intro: lock_run_step lock_step.halt)
    moreover have "(ps(i := Exchanging)) i = Exchanging" "mem (emit Hlt s) lock = 0" using assms(2) by simp_all
    ultimately show ?thesis using get by (metis fun_upd_same lock_run_trans)
  qed
qed

text \<open>A concrete run for the witnesses: task 1 has the lock and task 2 waits for it.\<close>

definition demo_machine :: machine where
  "demo_machine = \<lparr>mem = (\<lambda>_. 0), trace = [], device = (\<lambda>_ _. 0)\<rparr>"

definition demo_contended :: "unit conf" where
  "demo_contended = (demo_machine\<lparr>mem := (\<lambda>_. 0)(16 := 1)\<rparr>, (\<lambda>_. Outside)(1 := Holding, 2 := Exchanging))"

lemma demo_contended_run: "lock_run 16 (demo_machine, \<lambda>_. Outside) demo_contended"
proof -
  let ?ps = "(\<lambda>_. Outside) :: nat \<Rightarrow> pc"
  have 1: "lock_step 16 1 (demo_machine, ?ps) (demo_machine, ?ps(1 := Exchanging))"
    by (rule lock_step.call_acquire) simp
  have 2: "lock_step 16 1 (demo_machine, ?ps(1 := Exchanging)) (demo_machine\<lparr>mem := (\<lambda>_. 0)(16 := 1)\<rparr>, ?ps(1 := Holding))"
    using lock_step.exchange [of "?ps(1 := Exchanging)" 1 16 demo_machine 0 "demo_machine\<lparr>mem := (\<lambda>_. 0)(16 := 1)\<rparr>"]
    by (simp add: atomic_exchange_def demo_machine_def)
  have 3: "lock_step 16 2 (demo_machine\<lparr>mem := (\<lambda>_. 0)(16 := 1)\<rparr>, ?ps(1 := Holding)) demo_contended"
    unfolding demo_contended_def by (rule lock_step.call_acquire) simp
  from 1 2 3 show ?thesis by (blast intro: lock_run.intros)
qed

lemma demo_start: "lock_start 16 (demo_machine, \<lambda>_. Outside)"
  by (simp add: lock_start_def demo_machine_def INIT_SPINLOCK_def)

section \<open>Properties\<close>

text \<open>
  C8: in every interleaving of any number of tasks that start outside a lock made by
  \<open>INIT_SPINLOCK\<close>, at most one task is between \<open>spinlock_acquire\<close> and \<open>spinlock_release\<close>.
\<close>

theorem spinlock_mutual_exclusion:
  assumes "lock_start lock c" and "lock_run lock c (s, ps)" and "ps i = Holding" and "ps j = Holding"
  shows "i = j"
proof -
  have "lock_inv lock (s, ps)" using lock_run_inv [OF assms(2) lock_inv_start [OF assms(1)]] .
  with assms(3,4) show ?thesis by (auto simp: lock_inv_def)
qed

theorem spinlock_mutual_exclusion_witness:
  "{j. snd demo_contended j = Holding} = {1}"
proof -
  have run: "lock_run 16 (demo_machine, \<lambda>_. Outside) (fst demo_contended, snd demo_contended)"
    using demo_contended_run by simp
  have "snd demo_contended 1 = Holding" by (simp add: demo_contended_def)
  then show ?thesis using spinlock_mutual_exclusion [OF demo_start run] by blast
qed

text \<open>
  C34: no task is locked out by a lock nobody holds: whenever a task waits and no task is
  in its critical section, the waiting task can enter by its own steps alone; and once the
  holder releases the lock, any waiting task can be the next to hold it.
\<close>

theorem spinlock_no_lockout:
  assumes "lock_start lock c" and "lock_run lock c (s, ps)" and "ps i \<in> {Exchanging, Halted}"
  shows "((\<forall>k. ps k \<noteq> Holding) \<longrightarrow> (\<exists>s' ps'. lock_run lock (s, ps) (s', ps') \<and> ps' i = Holding)) \<and>
    (\<forall>h. ps h = Holding \<longrightarrow>
       (\<exists>s' ps'. lock_run lock (spinlock_release lock s, ps(h := Outside)) (s', ps') \<and> ps' i = Holding))"
proof (intro conjI allI impI)
  have inv: "lock_inv lock (s, ps)" using lock_run_inv [OF assms(2) lock_inv_start [OF assms(1)]] .
  assume "\<forall>k. ps k \<noteq> Holding"
  then have "mem s lock = 0" using inv by (auto simp: lock_inv_def)
  then show "\<exists>s' ps'. lock_run lock (s, ps) (s', ps') \<and> ps' i = Holding"
    using waiting_gets_free_lock [of ps i s lock] assms(3) by blast
next
  fix h assume "ps h = Holding"
  then have "(ps(h := Outside)) i \<in> {Exchanging, Halted}" using assms(3) by auto
  then show "\<exists>s' ps'. lock_run lock (spinlock_release lock s, ps(h := Outside)) (s', ps') \<and> ps' i = Holding"
    by (rule waiting_gets_free_lock) (simp add: spinlock_release_def)
qed

theorem spinlock_no_lockout_witness:
  "\<exists>s' ps'. lock_run 16 (spinlock_release 16 (fst demo_contended), (snd demo_contended)(1 := Outside)) (s', ps') \<and> ps' 2 = Holding"
proof -
  have run: "lock_run 16 (demo_machine, \<lambda>_. Outside) (fst demo_contended, snd demo_contended)"
    using demo_contended_run by simp
  have "snd demo_contended 2 \<in> {Exchanging, Halted}" "snd demo_contended 1 = Holding" by (simp_all add: demo_contended_def)
  with spinlock_no_lockout [OF demo_start run, of 2] show ?thesis by blast
qed

end
