(* ===== verification/LargeHeap.thy ===== *)
theory LargeHeap
  imports Heap
begin

text \<open>
  Requests of a page and more, \<open>CombineBlocks\<close> of \<open>mm/heapalloc/heap.c\<close>: what the pages of the
  allocator have to look like for the combined block to be one, what \<open>malloc\<close> returns then, and what
  it returns when the pages are not adjacent.
\<close>

section \<open>The free pages in the order they are handed out\<close>

definition free_list :: "'z allocator_scheme \<Rightarrow> addr list" where
  "free_list s = map fst (filter snd (frame_table s))"

lemma set_free_list: "set (free_list s) = free_pages s"
  by (force simp: free_list_def free_pages_def)

lemma distinct_free_list: "alloc_ok s \<Longrightarrow> distinct (free_list s)"
  by (simp add: free_list_def alloc_ok_def table_ok_def distinct_map_filter)

lemma first_free_filter:
  "first_free xs = Some k \<Longrightarrow> xs ! k = (p, True) \<Longrightarrow> map fst (filter snd xs) = p # map fst (filter snd (xs[k := (p, False)]))"
proof (induction xs arbitrary: k)
  case (Cons x xs)
  then show ?case by (cases x) (auto split: if_splits)
qed simp

lemma PageAlloc_next:
  assumes "alloc_ok s" and "free_list s = p # ps"
  shows "\<exists>s'. PageAlloc s = Inr (p, s') \<and> free_list s' = ps"
proof -
  have "free_pages s \<noteq> {}" using assms(2) set_free_list [of s] by auto
  with pages.alloc_returns [OF assms(1)] obtain q s' where ret: "PageAlloc s = Inr (q, s')" by blast
  from PageAlloc_effect [OF assms(1) ret] obtain k where k: "first_free (frame_table s) = Some k"
    "frame_table s ! k = (q, True)" "frame_table s' = (frame_table s)[k := (q, False)]" by blast
  from first_free_filter [OF k(1,2)] k(3) assms(2) ret show ?thesis by (auto simp: free_list_def)
qed

text \<open>A page more for the heap, with its place in the order.\<close>

lemma heap_next_page:
  assumes "heap_ok s fr lv" and "free_list s = p # ps"
  shows "\<exists>s'. PageAlloc s = Inr (p, s') \<and> p \<noteq> 0 \<and> free_list s' = ps \<and> heap_ok s' fr lv \<and> head_next s' = head_next s \<and>
    table_bytes s' = table_bytes s \<and> (\<forall>x. x \<notin> bytes p 4096 \<longrightarrow> x \<notin> table_bytes s \<longrightarrow> mem s' x = mem s x)"
proof -
  have inv: "alloc_ok s" using assms(1) by (simp add: heap_ok_def)
  from PageAlloc_next [OF inv assms(2)] obtain s' where s': "PageAlloc s = Inr (p, s')" "free_list s' = ps" by blast
  have "free_pages s \<noteq> {}" using assms(2) set_free_list [of s] by auto
  from heap_new_page [OF assms(1) this] s'(1) have "p \<noteq> 0" "heap_ok s' fr lv" "head_next s' = head_next s"
    "\<forall>x. x \<notin> bytes p 4096 \<longrightarrow> x \<notin> table_bytes s \<longrightarrow> mem s' x = mem s x" by auto
  with s' pages.alloc_inv [OF inv s'(1)] show ?thesis by blast
qed

text \<open>The order survives writes that leave the frame table alone, and requests of less than a page.\<close>

lemma free_list_trace [simp]: "free_list (s\<lparr>trace := t\<rparr>) = free_list s"
  by (simp add: free_list_def frame_table_def nframes_def)

lemma free_list_head [simp]: "free_list (s\<lparr>head_next := h\<rparr>) = free_list s"
  by (simp add: free_list_def frame_table_def nframes_def)

lemma free_list_write:
  assumes "alloc_ok s" and "\<And>x. x \<in> table_bytes s \<Longrightarrow> m x = mem s x"
  shows "free_list (s\<lparr>mem := m\<rparr>) = free_list s"
proof -
  have "frames m (FrameList s) (nframes s) = frames (mem s) (FrameList s) (nframes s)"
    using assms by (intro frames_cong) (simp_all add: table_bytes_def alloc_ok_def table_ok_def frame_table_def)
  then show ?thesis by (simp add: free_list_def frame_table_def)
qed

lemma malloc_page_list:
  assumes "heap_ok s [] lv" and "free_pages s \<noteq> {}" and "unat sz \<le> 4064" and ret: "malloc sz s = Inr (r, s')"
  shows "free_list s' = tl (free_list s)"
proof -
  have inv: "alloc_ok s" using assms(1) by (simp add: heap_ok_def)
  from malloc_page [OF assms(1-3)] ret obtain p s1 where p: "PageAlloc s = Inr (p, s1)" "p \<in> free_pages s"
    "\<forall>x. x \<notin> bytes p 4096 \<longrightarrow> mem s' x = mem s1 x" by auto
  from assms(2) obtain q qs where q: "free_list s = q # qs" using set_free_list [of s] by (cases "free_list s") auto
  from PageAlloc_next [OF inv q] p(1) have s1: "free_list s1 = tl (free_list s)" by (simp add: q)
  from pages.alloc_effect [OF inv p(1)] have inv1: "alloc_ok s1" and tb: "table_bytes s1 = table_bytes s"
    and f1: "s1 = s\<lparr>mem := mem s1\<rparr>" by blast+
  from malloc_frame [OF ret] obtain m h where f: "s' = s\<lparr>mem := m, head_next := h\<rparr>" by blast
  have "m x = mem s1 x" if "x \<in> table_bytes s1" for x
    using p(3) pages.avail_page [OF inv p(2)] that tb f by auto
  from free_list_write [OF inv1 this] have "free_list (s1\<lparr>mem := m\<rparr>\<lparr>head_next := h\<rparr>) = tl (free_list s)" using s1 by simp
  moreover have "s1\<lparr>mem := m\<rparr>\<lparr>head_next := h\<rparr> = s'" unfolding f by (subst f1) simp
  ultimately show ?thesis by simp
qed

lemma malloc_fit_list:
  assumes "heap_ok s fr lv" and "malloc sz s = Inr (r, s')" and "\<forall>x. x \<notin> \<Union> (blk ` set fr) \<longrightarrow> mem s' x = mem s x"
  shows "free_list s' = free_list s"
proof -
  from malloc_frame [OF assms(2)] obtain m h where f: "s' = s\<lparr>mem := m, head_next := h\<rparr>" by blast
  have tab: "m x = mem s x" if x: "x \<in> table_bytes s" for x
  proof -
    have "x \<notin> blk c" if "c \<in> set fr" for c using heap_blockD [OF assms(1), of c] that x by (auto simp: block_ok_def)
    then show ?thesis using assms(3) f by auto
  qed
  have "alloc_ok s" using assms(1) by (simp add: heap_ok_def)
  from free_list_write [OF this tab] have "free_list (s\<lparr>mem := m\<rparr>\<lparr>head_next := h\<rparr>) = free_list s" by simp
  then show ?thesis by (simp add: f)
qed

section \<open>Combining pages\<close>

text \<open>The number of pages \<open>CombineBlocks(size)\<close> counts; it takes one more.\<close>

definition page_count :: "nat \<Rightarrow> nat" where
  "page_count n = (n + 4095) div 4096"

lemma page_count_bounds:
  "n \<le> 4096 * page_count n" "n \<le> 2 ^ 31 - 4096 \<Longrightarrow> page_count n * 4096 < 2 ^ 31"
  "j < page_count n \<longleftrightarrow> 4096 * j < n"
proof -
  show "n \<le> 4096 * page_count n" unfolding page_count_def by linarith
  show "page_count n * 4096 < 2 ^ 31" if "n \<le> 2 ^ 31 - 4096" using that unfolding page_count_def by simp
  show "j < page_count n \<longleftrightarrow> 4096 * j < n" unfolding page_count_def
    by (auto simp: div_less_iff_less_mult less_eq_div_iff_mult_less_eq Suc_le_eq [symmetric])
qed

lemma combine_loop_takes:
  assumes "heap_ok s fr lv" and "free_list s = ps @ qs" and "length ps = page_count (unat sz) - j" and "j \<le> page_count (unat sz)"
    and "unat sz \<le> 2 ^ 31 - 4096"
  shows "\<exists>s'. combine_loop sz q (of_nat (4096 * j)) j s = Some (Inr (Some (page_count (unat sz)), s')) \<and> heap_ok s' fr lv \<and>
    free_list s' = qs \<and> head_next s' = head_next s \<and> table_bytes s' = table_bytes s \<and>
    (\<forall>x. x \<notin> (\<Union>p \<in> set ps. bytes p 4096) \<longrightarrow> x \<notin> table_bytes s \<longrightarrow> mem s' x = mem s x)"
  using assms
proof (induction ps arbitrary: j s)
  case Nil
  then have "j = page_count (unat sz)" by simp
  moreover have "unat (of_nat (4096 * j) :: u64) = 4096 * j"
    using page_count_bounds(2) [OF Nil.prems(5)] \<open>j = _\<close> by (intro unat_of_nat64) simp
  ultimately have "\<not> of_nat (4096 * j) < sz" using page_count_bounds(1) [of "unat sz"] by (simp add: word_less_nat_alt)
  with Nil \<open>j = _\<close> show ?case by (subst combine_loop.simps) auto
next
  case (Cons p ps)
  then have lt: "4096 * j < unat sz" using page_count_bounds(3) [of j "unat sz"] by auto
  then have "unat (of_nat (4096 * j) :: u64) = 4096 * j" using Cons.prems(5) by (intro unat_of_nat64) simp
  with lt have go: "of_nat (4096 * j) < sz" by (simp add: word_less_nat_alt)
  have nx: "(of_nat (4096 * j) :: u64) + 4096 = of_nat (4096 * Suc j)" by simp
  from heap_next_page [OF Cons.prems(1), of p "ps @ qs"] Cons.prems(2) obtain s1 where s1: "PageAlloc s = Inr (p, s1)" "p \<noteq> 0"
    "free_list s1 = ps @ qs" "heap_ok s1 fr lv" "head_next s1 = head_next s" "table_bytes s1 = table_bytes s"
    "\<forall>x. x \<notin> bytes p 4096 \<longrightarrow> x \<notin> table_bytes s \<longrightarrow> mem s1 x = mem s x" by auto
  have eq: "combine_loop sz q (of_nat (4096 * j)) j s = combine_loop sz q (of_nat (4096 * Suc j)) (Suc j) s1"
    unfolding nx [symmetric] using go s1(1,2) by (subst combine_loop.simps) simp
  have len: "length ps = page_count (unat sz) - Suc j" "Suc j \<le> page_count (unat sz)" using Cons.prems(3,4) by auto
  from Cons.IH [OF s1(4,3) len Cons.prems(5)] s1(5-7) show ?case unfolding eq by auto
qed

text \<open>Adjacent pages.\<close>

definition run :: "addr \<Rightarrow> nat \<Rightarrow> addr list" where
  "run p n = map (\<lambda>i. p + of_nat (4096 * i)) [0..<n]"

lemma run_nth: "i < n \<Longrightarrow> p + of_nat (4096 * i) \<in> set (run p n)"
  by (auto simp: run_def)

lemma run_Cons: "0 < n \<Longrightarrow> run p n = p # tl (run p n)"
  by (simp add: run_def upt_rec)

lemma length_run [simp]: "length (run p n) = n"
  by (simp add: run_def)

lemma run_unat:
  assumes "\<And>r. r \<in> set (run p n) \<Longrightarrow> page_ok r" and "i < n"
  shows "unat (p + of_nat (4096 * i)) = unat p + 4096 * i \<and> unat p + 4096 * Suc i \<le> 2 ^ 64"
  using assms(2)
proof (induction i)
  case 0
  then show ?case using page_bound [OF assms(1) [OF run_nth [of 0 n p]]] by simp
next
  case (Suc i)
  let ?q = "p + of_nat (4096 * Suc i)"
  have q: "page_ok ?q" using Suc.prems by (intro assms(1) run_nth)
  from Suc have IH: "unat (p + of_nat (4096 * i)) = unat p + 4096 * i" "unat p + 4096 * Suc i \<le> 2 ^ 64" by auto
  have split: "?q = (p + of_nat (4096 * i)) + 4096" by simp
  have "unat (x + 4096 :: u64) = (unat x + 4096) mod 2 ^ 64" for x by (simp add: unat_word_ariths)
  from this [of "p + of_nat (4096 * i)", folded split, unfolded IH(1)]
  have u: "unat ?q = (unat p + 4096 * Suc i) mod 2 ^ 64" by (simp only: mult_Suc mult_Suc_right ac_simps)
  have "unat ?q \<noteq> 0" using q unfolding page_ok_def unat_eq_0 by (rule conjunct1)
  then have "unat p + 4096 * Suc i \<noteq> 2 ^ 64" unfolding u by (metis mod_self)
  with IH(2) have lt: "unat p + 4096 * Suc i < 2 ^ 64" by linarith
  then have "unat ?q = unat p + 4096 * Suc i" unfolding u by (rule mod_less)
  with page_bound [OF q] show ?case by simp
qed

lemma run_block:
  assumes "\<And>r. r \<in> set (run p n) \<Longrightarrow> page_ok r" and "0 < n"
  shows "unat p + 4096 * n \<le> 2 ^ 64" and "bytes p (4096 * n) = (\<Union>r \<in> set (run p n). bytes r 4096)"
proof -
  have "n - 1 < n" "Suc (n - 1) = n" using assms(2) by auto
  with run_unat [of p n "n - 1", OF assms(1)] show bd: "unat p + 4096 * n \<le> 2 ^ 64" by metis
  have piece: "x \<in> bytes (p + of_nat (4096 * i)) 4096 \<longleftrightarrow> unat p + 4096 * i \<le> unat x \<and> unat x < unat p + 4096 * i + 4096"
    if "i < n" for x i
    using run_unat [OF assms(1) that] by (subst bytes_unat) simp_all
  show "bytes p (4096 * n) = (\<Union>r \<in> set (run p n). bytes r 4096)"
  proof (intro set_eqI iffI)
    fix x assume "x \<in> bytes p (4096 * n)"
    then have x: "unat p \<le> unat x" "unat x < unat p + 4096 * n" using bd by (simp_all add: bytes_unat)
    let ?i = "(unat x - unat p) div 4096"
    have i: "?i < n" "unat p + 4096 * ?i \<le> unat x" "unat x < unat p + 4096 * ?i + 4096" using x by linarith+
    with piece [OF i(1), of x] run_nth [OF i(1), of p] show "x \<in> (\<Union>r \<in> set (run p n). bytes r 4096)" by blast
  next
    fix x assume "x \<in> (\<Union>r \<in> set (run p n). bytes r 4096)"
    then obtain i where i: "i < n" "x \<in> bytes (p + of_nat (4096 * i)) 4096" by (auto simp: run_def)
    with piece [OF i(1), of x] have "unat p \<le> unat x" "unat x < unat p + 4096 * n" by simp_all
    then show "x \<in> bytes p (4096 * n)" using bd by (simp add: bytes_unat)
  qed
qed

section \<open>The combined block\<close>

lemma CombineBlocks_takes:
  assumes ok: "heap_ok s fr lv" and fl: "free_list s = p # ps @ qs" and len: "length ps = page_count (unat sz)"
    and sz: "unat sz \<le> 2 ^ 31 - 4096"
  shows "\<exists>s2. CombineBlocks sz s = Inr (KSTATUS_SUCCESS, CreateNode p (of_nat (page_count (unat sz) * 4096)) s2) \<and>
    heap_ok s2 fr lv \<and> free_list s2 = qs \<and> head_next s2 = head_next s \<and> table_bytes s2 = table_bytes s \<and>
    (\<forall>x. x \<notin> (\<Union>r \<in> set (p # ps). bytes r 4096) \<longrightarrow> x \<notin> table_bytes s \<longrightarrow> mem s2 x = mem s x)"
proof -
  from heap_next_page [OF ok fl] obtain s1 where s1: "PageAlloc s = Inr (p, s1)"
    "free_list s1 = ps @ qs" "heap_ok s1 fr lv" "head_next s1 = head_next s" "table_bytes s1 = table_bytes s"
    "\<forall>x. x \<notin> bytes p 4096 \<longrightarrow> x \<notin> table_bytes s \<longrightarrow> mem s1 x = mem s x" by blast
  from combine_loop_takes [OF s1(3,2), of sz 0 p] len sz obtain s2 where
    s2: "combine_loop sz p 0 0 s1 = Some (Inr (Some (page_count (unat sz)), s2))" "heap_ok s2 fr lv"
    "free_list s2 = qs" "head_next s2 = head_next s1" "table_bytes s2 = table_bytes s1"
    "\<forall>x. x \<notin> (\<Union>r \<in> set ps. bytes r 4096) \<longrightarrow> x \<notin> table_bytes s1 \<longrightarrow> mem s2 x = mem s1 x" by auto
  have "CombineBlocks sz s = Inr (KSTATUS_SUCCESS, CreateNode p (of_nat (page_count (unat sz) * 4096)) s2)"
    using s1(1) s2(1) page_count_bounds(2) [OF sz] by (simp add: CombineBlocks_def)
  with s1(4-6) s2(2-6) show ?thesis by (intro exI [of _ s2]) simp
qed

text \<open>
  With enough adjacent pages in front, the pages that are counted are one block; the page taken last
  is neither free nor part of a block any more.
\<close>

lemma CombineBlocks_adjacent:
  assumes ok: "heap_ok s fr lv" and fl: "free_list s = run p (page_count (unat sz)) @ q # qs" and pos: "0 < page_count (unat sz)"
    and sz: "unat sz \<le> 2 ^ 31 - 4096"
  shows "\<exists>s'. CombineBlocks sz s = Inr (KSTATUS_SUCCESS, s') \<and>
    heap_ok s' ((p, page_count (unat sz) * 4096) # fr) lv \<and> free_pages s' = set qs \<and> head_next s' = p \<and>
    bytes p (page_count (unat sz) * 4096) \<inter> bytes q 4096 = {} \<and> bytes p (page_count (unat sz) * 4096) \<subseteq> (\<Union>r \<in> free_pages s. bytes r 4096) \<and>
    (\<forall>x. x \<notin> (\<Union>r \<in> free_pages s. bytes r 4096) \<longrightarrow> x \<notin> table_bytes s \<longrightarrow> mem s' x = mem s x)"
proof -
  let ?n = "page_count (unat sz)" and ?b = "(p, page_count (unat sz) * 4096)"
  have inv: "alloc_ok s" using ok by (simp add: heap_ok_def)
  have fl': "free_list s = p # (tl (run p ?n) @ [q]) @ qs" using fl run_Cons [OF pos, of p] by simp
  have len: "length (tl (run p ?n) @ [q]) = ?n" using pos by simp
  have fp: "free_pages s = set (run p ?n) \<union> insert q (set qs)" using fl set_free_list [of s] by simp
  have dist: "distinct (run p ?n @ q # qs)" using distinct_free_list [OF inv] fl by simp
  have page: "page_ok r" "bytes r 4096 \<inter> table_bytes s = {}" if "r \<in> free_pages s" for r
    using pages.avail_page [OF inv that] by auto
  have rp: "page_ok r" if "r \<in> set (run p ?n)" for r using that page fp by blast
  note rb = run_block [of p ?n, OF rp pos, unfolded mult.commute [of 4096]]
  have away: "blk ?b \<inter> bytes r 4096 = {}" if r: "r \<in> insert q (set qs)" for r
  proof -
    have "r \<notin> set (run p ?n)" using dist r by auto
    then have "bytes t 4096 \<inter> bytes r 4096 = {}" if "t \<in> set (run p ?n)" for t
      using that r fp by (intro pages_disjoint page) auto
    then show ?thesis using rb(2) by auto
  qed
  from CombineBlocks_takes [OF ok fl' len sz] obtain s2 where
    s2: "CombineBlocks sz s = Inr (KSTATUS_SUCCESS, CreateNode p (of_nat (?n * 4096)) s2)"
    "heap_ok s2 fr lv" "free_list s2 = qs" "table_bytes s2 = table_bytes s"
    "\<forall>x. x \<notin> (\<Union>r \<in> set (p # tl (run p ?n) @ [q]). bytes r 4096) \<longrightarrow> x \<notin> table_bytes s \<longrightarrow> mem s2 x = mem s x" by blast
  have fp2: "free_pages s2 = set qs" using s2(3) set_free_list [of s2] by simp
  have "p \<in> set (run p ?n)" using run_nth [OF pos, of p] by simp
  then have p0: "p \<noteq> 0" using rp by (auto simp: page_ok_def)
  have tab: "blk ?b \<inter> table_bytes s = {}" using rb(2) page(2) fp by auto
  have bok: "block_ok s2 ?b"
    unfolding block_ok_def fst_conv snd_conv fp2 s2(4) using away tab rb(1) p0 pos by auto
  have blocks: "blk ?b \<inter> blk c = {}" if "c \<in> set (fr @ lv)" for c
  proof -
    have "blk c \<inter> bytes r 4096 = {}" if "r \<in> set (run p ?n)" for r
      using heap_blockD [OF ok \<open>c \<in> _\<close>] that fp by (auto simp: block_ok_def)
    then show ?thesis using rb(2) by auto
  qed
  note new = heap_ok_CreateNode [OF s2(2) bok blocks, unfolded fst_conv snd_conv]
  have in_free: "bytes p (?n * 4096) \<subseteq> (\<Union>r \<in> free_pages s. bytes r 4096)" using rb(2) fp by auto
  have "mem (CreateNode p (of_nat (?n * 4096)) s2) x = mem s x"
    if "x \<notin> (\<Union>r \<in> free_pages s. bytes r 4096)" "x \<notin> table_bytes s" for x
  proof -
    have "set (p # tl (run p ?n) @ [q]) = set (run p ?n @ [q])" by (subst (2) run_Cons [OF pos]) simp
    then have "set (p # tl (run p ?n) @ [q]) \<subseteq> free_pages s" using fp by auto
    with that(1) have "x \<notin> (\<Union>r \<in> set (p # tl (run p ?n) @ [q]). bytes r 4096)" by blast
    with s2(5) that(2) new(3) [of x] in_free that(1) show ?thesis by auto
  qed
  with s2(1) new(1,2) fp2 away [of q] in_free show ?thesis
    by (intro exI [of _ "CreateNode p (of_nat (?n * 4096)) s2"]) (simp add: CreateNode_def)
qed

section \<open>Requests of a page and more\<close>

text \<open>The search finds nothing, combines pages and starts again.\<close>

lemma find_loop_combines:
  assumes ok: "heap_ok s fr lv" and none: "first_fit (16 + unat sz) fr = None"
    and sz: "4080 \<le> unat sz" "unat sz \<le> 2 ^ 31 - 4096" and comb: "CombineBlocks sz s = Inr (KSTATUS_SUCCESS, s')"
  shows "find_loop sz Head s = find_loop sz Head s'"
proof -
  let ?xs = "map fst fr"
  let ?cur = "if ?xs = [] then Head else Node (last ?xs)"
  have nofit: "\<not> 16 + sz \<le> hn_size (mem s) x" if "x \<in> set ?xs" for x
    using that fits_iff [OF ok, of _ sz] none sz(2) by (auto simp: first_fit_None)
  from find_loop_walk [of s Head ?xs sz, OF _ nofit] ok
  have w: "find_loop sz Head s = find_loop sz ?cur s" "next_of ?cur s = 0" by (auto simp: heap_ok_def)
  have "4096 \<le> sz + 16" using sz by (simp add: word_le_nat_alt unat_word_ariths)
  then show ?thesis
    unfolding w(1) using w(2) comb
    by (subst find_loop.simps) (simp add: refill_def KSTATUS_SUCCESS_def KSTATUS_FAIL_def)
qed

lemma malloc_combined:
  assumes ok: "heap_ok s fr lv" and none: "first_fit (16 + unat sz) fr = None"
    and sz: "4080 \<le> unat sz" "unat sz \<le> 2 ^ 31 - 4096"
    and room: "page_count (unat sz) * 4096 = 16 + unat sz \<or> 32 + unat sz \<le> page_count (unat sz) * 4096"
    and fl: "free_list s = run p (page_count (unat sz)) @ q # qs"
  shows "\<exists>s'. malloc sz s = Inr (p + 16, s') \<and>
    heap_ok s' (leftover (16 + unat sz) (p, page_count (unat sz) * 4096) @ fr) ((p, 16 + unat sz) # lv) \<and>
    free_pages s' = set qs \<and> (\<forall>c \<in> set (leftover (16 + unat sz) (p, page_count (unat sz) * 4096) @ fr @ (p, 16 + unat sz) # lv). blk c \<inter> bytes q 4096 = {}) \<and>
    bytes p (16 + unat sz) \<subseteq> (\<Union>r \<in> free_pages s. bytes r 4096) \<and>
    (\<forall>x. x \<notin> (\<Union>r \<in> free_pages s. bytes r 4096) \<longrightarrow> x \<notin> table_bytes s \<longrightarrow> x \<notin> \<Union> (blk ` set fr) \<longrightarrow> mem s' x = mem s x)"
proof -
  let ?n = "page_count (unat sz) * 4096"
  have pos: "0 < page_count (unat sz)" using page_count_bounds(1) [of "unat sz"] sz(1) by (cases "page_count (unat sz)") auto
  from CombineBlocks_adjacent [OF ok fl pos sz(2)] obtain s1 where s1: "CombineBlocks sz s = Inr (KSTATUS_SUCCESS, s1)"
    "heap_ok s1 ((p, ?n) # fr) lv" "free_pages s1 = set qs" "bytes p ?n \<inter> bytes q 4096 = {}"
    "bytes p ?n \<subseteq> (\<Union>r \<in> free_pages s. bytes r 4096)"
    "\<forall>x. x \<notin> (\<Union>r \<in> free_pages s. bytes r 4096) \<longrightarrow> x \<notin> table_bytes s \<longrightarrow> mem s1 x = mem s x" by blast
  have fit: "first_fit (16 + unat sz) ((p, ?n) # fr) = Some ((p, ?n), fr)" using room by auto
  have find: "FindAndRemoveNode sz s = FindAndRemoveNode sz s1"
  proof -
    from FindAndRemoveNode_fit [OF s1(2) fit] find_loop_combines [OF ok none sz s1(1)] show ?thesis
      by (auto simp: FindAndRemoveNode_def split: option.splits)
  qed
  from FindAndRemoveNode_fit [OF s1(2) fit] obtain s2 where s2: "FindAndRemoveNode sz s = Inr (p, s2)"
    "heap_ok s2 fr ((p, ?n) # lv)" "free_pages s2 = free_pages s1"
    "\<forall>x. x \<notin> \<Union> (blk ` set ((p, ?n) # fr)) \<longrightarrow> mem s2 x = mem s1 x" unfolding find by auto
  have room': "?n = 16 + unat sz \<or> 32 + unat sz \<le> ?n" using room by simp
  from malloc_found [OF s2(1,2) room'] obtain s3 where s3: "malloc sz s = Inr (p + 16, s3)"
    "heap_ok s3 (leftover (16 + unat sz) (p, ?n) @ fr) ((p, 16 + unat sz) # lv)" "free_pages s3 = free_pages s2"
    "\<forall>x. x \<notin> bytes p ?n \<longrightarrow> mem s3 x = mem s2 x" by blast
  have front: "bytes p (16 + unat sz) \<subseteq> bytes p ?n" using room by (intro bytes_mono) auto
  have nw: "?n < 2 ^ 64" using page_count_bounds(2) [OF sz(2)] by simp
  have rear: "bytes (p + of_nat (16 + unat sz)) (?n - (16 + unat sz)) \<subseteq> bytes p ?n"
    using subrange [of "16 + unat sz" "?n - (16 + unat sz)" ?n p] room nw by auto
  have old: "blk c \<inter> bytes q 4096 = {}" if "c \<in> set (fr @ lv)" for c
    using heap_blockD [OF ok that] fl set_free_list [of s] by (auto simp: block_ok_def)
  have q: "blk c \<inter> bytes q 4096 = {}" if "c \<in> set (leftover (16 + unat sz) (p, ?n) @ fr @ (p, 16 + unat sz) # lv)" for c
  proof -
    from that consider "c \<in> set (fr @ lv)" | "blk c \<subseteq> bytes p ?n"
      using front rear by (auto simp: leftover_def split: if_splits)
    then show ?thesis using old s1(4) by cases blast+
  qed
  have out: "mem s3 x = mem s x" if "x \<notin> (\<Union>r \<in> free_pages s. bytes r 4096)" "x \<notin> table_bytes s" "x \<notin> \<Union> (blk ` set fr)" for x
  proof -
    have "x \<notin> bytes p ?n" using that(1) s1(5) by blast
    then show ?thesis using that s3(4) s2(4) s1(6) by auto
  qed
  from s3(3) s2(3) s1(3) have "free_pages s3 = set qs" by simp
  moreover from front s1(5) have "bytes p (16 + unat sz) \<subseteq> (\<Union>r \<in> free_pages s. bytes r 4096)" by (rule subset_trans)
  ultimately show ?thesis using s3(1,2) by (intro exI [of _ s3] conjI allI impI ballI q out)
qed

text \<open>When the pages that come next serve a request of \<open>n\<close> bytes.\<close>

definition combinable :: "addr list \<Rightarrow> nat \<Rightarrow> bool" where
  "combinable fl n \<longleftrightarrow> 4080 \<le> n \<and> n \<le> 2 ^ 31 - 4096 \<and>
     (page_count n * 4096 = 16 + n \<or> 32 + n \<le> page_count n * 4096) \<and>
     page_count n < length fl \<and> take (page_count n) fl = run (hd fl) (page_count n)"

lemma combinableE:
  assumes "combinable fl n"
  obtains p q qs where "fl = run p (page_count n) @ q # qs"
proof
  from assms have l: "page_count n < length fl" and t: "take (page_count n) fl = run (hd fl) (page_count n)"
    by (simp_all add: combinable_def)
  from id_take_nth_drop [OF l] show "fl = run (hd fl) (page_count n) @ fl ! page_count n # drop (Suc (page_count n)) fl"
    unfolding t .
qed

section \<open>Properties\<close>


lemma demo_free_list: "free_list demo_heap = [0x101000, 0x102000, 0x103000, 0x104000]"
  by (simp add: free_list_def demo_heap_frames demo_table)



text \<open>Two pages are taken from the allocator and the first is given back: the second lies between the free ones.\<close>

lemma demo_gap:
  "\<exists>s :: heap. heap_ok s [] [] \<and> free_list s = [0x101000, 0x103000, 0x104000] \<and> (0x102000 :: addr) \<notin> free_pages s"
proof -
  have step: "\<exists>s'. PageAlloc s = Inr (p, s') \<and> heap_ok s' [] [] \<and> frame_table s' = (frame_table s)[k := (p, False)]"
    if "heap_ok s [] []" "first_free (frame_table s) = Some k" "frame_table s ! k = (p, True)" for s :: heap and p k
  proof -
    have "k < length (frame_table s)" using first_free_Some [OF that(2)] by blast
    then have "(p, True) \<in> set (frame_table s)" using that(3) by (metis nth_mem)
    then have "free_pages s \<noteq> {}" by (auto simp: free_pages_def)
    from heap_new_page [OF that(1) this] obtain q s' where s': "PageAlloc s = Inr (q, s')" "heap_ok s' [] []" by blast
    from PageAlloc_effect [of s q s'] that s' show ?thesis by (auto simp: heap_ok_def)
  qed
  have "first_free (frame_table demo_heap) = Some 0" "frame_table demo_heap ! 0 = (0x101000, True)"
    by (simp_all add: demo_heap_frames demo_table)
  from step [OF demo_heap_ok(1) this] obtain s1 :: heap where s1: "heap_ok s1 [] []"
    "frame_table s1 = [(0x101000, False), (0x102000, True), (0x103000, True), (0x104000, True)]"
    by (auto simp: demo_heap_frames demo_table)
  from step [OF s1(1), of 1 "0x102000"] s1(2) obtain s2 :: heap where s2: "heap_ok s2 [] []"
    "frame_table s2 = [(0x101000, False), (0x102000, False), (0x103000, True), (0x104000, True)]" by auto
  let ?s = "PageFree 0x101000 s2"
  have inv: "alloc_ok s2" using s2(1) by (simp add: heap_ok_def)
  have tab: "frame_table ?s = [(0x101000, True), (0x102000, False), (0x103000, True), (0x104000, True)]"
    using PageFree_table(1) [OF inv, of "0x101000"] s2(2) by (simp add: free_page_def)
  have "heap_ok ?s [] []"
    using pages.free_inv [OF inv, of "0x101000"] s2(1) by (simp add: heap_ok_def blocks_apart_def PageFree_def)
  moreover have "free_list ?s = [0x101000, 0x103000, 0x104000]" "0x102000 \<notin> free_pages ?s"
    by (simp_all add: free_list_def free_pages_def tab)
  ultimately show ?thesis by blast
qed


end
