(* ===== verification/Ramdisk.thy ===== *)
theory Ramdisk
  imports Spinlock LargeHeap
begin

text \<open>
  The ramdisk, \<open>ramdisk/tar.c\<close> and \<open>tar.h\<close>: a tar archive in memory is scanned once and every
  file entered in a linked list of heap-allocated nodes, which the lookup functions search.
\<close>

section \<open>State\<close>

text \<open>\<open>filehead\<close> is the address of the static list head of that name, a \<open>struct FileNode\<close>.\<close>

record ramdisk = sched +
  ramdiskInitialized :: bool
  filehead :: addr

text \<open>
  The fields of \<open>struct FileNode\<close> (120 bytes): \<open>FilePath[100]\<close> at 0, \<open>FileSize\<close> at 100, \<open>FileBegin\<close> at
  104, \<open>next\<close> at 112; and the field \<open>size\<close> of \<open>struct tar_header\<close>.
\<close>

definition fn_path :: "addr \<Rightarrow> addr" where "fn_path n = n"
definition fn_size :: "memory \<Rightarrow> addr \<Rightarrow> u32" where "fn_size m n = load32 m (n + 100)"
definition fn_begin :: "memory \<Rightarrow> addr \<Rightarrow> addr" where "fn_begin m n = load64 m (n + 104)"
definition fn_next :: "memory \<Rightarrow> addr \<Rightarrow> addr" where "fn_next m n = load64 m (n + 112)"

definition th_size :: "addr \<Rightarrow> addr" where "th_size file = file + 124"

section \<open>Operations\<close>

definition InsertEntry :: "addr \<Rightarrow> u32 \<Rightarrow> addr \<Rightarrow> 'z ramdisk_scheme \<Rightarrow> (unit, 'z ramdisk_scheme) res" where
  "InsertEntry FilePath FileSize FileBegin s =
     bindR (malloc 120 s) (\<lambda>node s.
     if node = 0 then Inl (NullDeref, s)
     else
       let m = store64 (mem s) (node + 112) (fn_next (mem s) (filehead s)) in
       case strcpy m (fn_path node) FilePath of
         None \<Rightarrow> Inl (Undefined, s)
       | Some m \<Rightarrow>
           let m = store32 m (node + 100) FileSize;
               m = store64 m (node + 104) FileBegin;
               m = store64 m (filehead s + 112) node
           in Inr ((), s\<lparr>mem := m\<rparr>))"

definition GetRamdiskListing :: "'z ramdisk_scheme \<Rightarrow> addr" where
  "GetRamdiskListing s = (if \<not> ramdiskInitialized s then 0 else filehead s)"

text \<open>The search loop of \<open>RdFileGetFrame\<close>; the outer \<open>None\<close> is a list that does not end.\<close>

partial_function (option) frame_loop :: "addr \<Rightarrow> memory \<Rightarrow> addr \<Rightarrow> (stop + addr) option" where
  "frame_loop path m cur =
     (if fn_next m cur \<noteq> 0
      then (case strncmp m path (fn_path (fn_next m cur)) 100 of
          None \<Rightarrow> Some (Inl Undefined)
        | Some r \<Rightarrow> if r = 0 then Some (Inr (fn_next m cur)) else frame_loop path m (fn_next m cur))
      else Some (Inr 0))"

definition RdFileGetFrame :: "addr \<Rightarrow> 'z ramdisk_scheme \<Rightarrow> (addr, 'z ramdisk_scheme) res" where
  "RdFileGetFrame path s =
     (if \<not> ramdiskInitialized s then Inr (0, s)
      else if path = 0 then Inr (0, s)
      else (case frame_loop path (mem s) (filehead s) of
          None \<Rightarrow> Inl (Endless, s)
        | Some (Inl e) \<Rightarrow> Inl (e, s)
        | Some (Inr n) \<Rightarrow> Inr (n, s)))"

definition RdFileGetStream :: "addr \<Rightarrow> addr \<Rightarrow> i32 \<Rightarrow> 'z ramdisk_scheme \<Rightarrow> (unit, 'z ramdisk_scheme) res" where
  "RdFileGetStream path buffer n s =
     (if \<not> ramdiskInitialized s then Inr ((), s)
      else bindR (RdFileGetFrame path s) (\<lambda>frame s.
        if frame = 0 then Inr ((), s)
        else if fn_begin (mem s) frame = 0 then Inr ((), s)
        else Inr ((), s\<lparr>mem := memcpy (mem s) buffer (fn_begin (mem s) frame) (scast n)\<rparr>)))"

definition RdFileGetSz :: "addr \<Rightarrow> 'z ramdisk_scheme \<Rightarrow> (u32, 'z ramdisk_scheme) res" where
  "RdFileGetSz path s =
     (if \<not> ramdiskInitialized s then Inr (0, s)
      else bindR (RdFileGetFrame path s) (\<lambda>frame s.
        if frame = 0 then Inr (0, s) else Inr (fn_size (mem s) frame, s)))"

text \<open>
  The loop of \<open>DecodeValue\<close>, \<open>j\<close> counting down. A \<open>char\<close> is signed; the difference is an \<open>int\<close> and
  the product and the sum are 32-bit unsigned.
\<close>

fun decode_loop :: "memory \<Rightarrow> addr \<Rightarrow> nat \<Rightarrow> u32 \<Rightarrow> u32 \<Rightarrow> u32" where
  "decode_loop m value 0 ret cnt = ret"
| "decode_loop m value (Suc j) ret cnt =
     decode_loop m value j (ret + (scast (m (value + of_nat j)) - 48) * cnt) (cnt * 8)"

definition DecodeValue :: "memory \<Rightarrow> addr \<Rightarrow> u32" where
  "DecodeValue m value = decode_loop m value 11 0 1"

text \<open>One pass of the loop of \<open>InitializeRamdisk\<close>: the messages and the new entry.\<close>

definition register_file :: "addr \<Rightarrow> 'z ramdisk_scheme \<Rightarrow> (unit, 'z ramdisk_scheme) res" where
  "register_file rdstart s =
     bindR (printf (lit (''Registering file:'' @ newline)) [] s) (\<lambda>_ s.
     case read_str (mem s) rdstart of
       None \<Rightarrow> Inl (Undefined, s)
     | Some path \<Rightarrow>
         bindR (printf (lit (''    - File path: %s'' @ newline)) [Str path] s) (\<lambda>_ s.
         bindR (if DecodeValue (mem s) (th_size rdstart) \<noteq> 0
                then printf (lit (''    - File size: %d bytes'' @ newline)) [Num (ucast (DecodeValue (mem s) (th_size rdstart)))] s
                else printf (lit (''    - File is directory/0 bytes'' @ newline)) [] s) (\<lambda>_ s.
         InsertEntry rdstart (DecodeValue (mem s) (th_size rdstart)) (rdstart + 512) s)))"

partial_function (option) ramdisk_loop :: "addr \<Rightarrow> 'z ramdisk_scheme \<Rightarrow> (unit, 'z ramdisk_scheme) res option" where
  "ramdisk_loop rdstart s =
     (if mem s rdstart \<noteq> 0
      then (case register_file rdstart s of
          Inl e \<Rightarrow> Some (Inl e)
        | Inr (_, s) \<Rightarrow>
            ramdisk_loop (rdstart + ucast (ALIGN_UP (512 + DecodeValue (mem s) (th_size rdstart)) 512)) s)
      else Some (Inr ((), s)))"

definition InitializeRamdisk :: "addr \<Rightarrow> 'z ramdisk_scheme \<Rightarrow> (unit, 'z ramdisk_scheme) res" where
  "InitializeRamdisk ramdiskOffset s =
     (case ramdisk_loop ramdiskOffset s of
        None \<Rightarrow> Inl (Endless, s)
      | Some r \<Rightarrow> bindR r (\<lambda>_ s. Inr ((), s\<lparr>ramdiskInitialized := True\<rparr>)))"

section \<open>Octal numbers\<close>

text \<open>The size field holds a number as eleven octal digits.\<close>

definition octal_at :: "memory \<Rightarrow> addr \<Rightarrow> nat \<Rightarrow> bool" where
  "octal_at m p n \<longleftrightarrow> (\<forall>i < 11. m (p + of_nat i) = of_nat (48 + n div 8 ^ (10 - i) mod 8))"

lemma scast_digit: "d < 80 \<Longrightarrow> (scast (of_nat (48 + d) :: u8) :: u32) - 48 = of_nat d"
proof -
  assume d: "d < 80"
  have "signed_take_bit 7 (int (48 + d)) = int (48 + d)"
    using d by (intro signed_take_bit_int_eq_self) auto
  then have "sint (of_nat (48 + d) :: u8) = int (48 + d)"
    by (simp only: signed_of_nat len_bit0 len_num1) simp
  then have "(scast (of_nat (48 + d) :: u8) :: u32) = of_int (int (48 + d))"
    using of_int_sint [of "of_nat (48 + d) :: u8"] by metis
  then show ?thesis by simp
qed

lemma decode_loop_octal:
  assumes "octal_at m p n" and "j \<le> 11"
  shows "decode_loop m p j (of_nat (n mod 8 ^ (11 - j))) (8 ^ (11 - j)) = of_nat (n mod 8 ^ 11)"
  using assms(2)
proof (induction j)
  case (Suc j)
  let ?k = "10 - j"
  have k: "11 - j = Suc ?k" using Suc.prems by simp
  have d: "(scast (m (p + of_nat j)) :: u32) - 48 = of_nat (n div 8 ^ ?k mod 8)"
    using assms(1) Suc.prems scast_digit [of "n div 8 ^ ?k mod 8"] by (simp add: octal_at_def)
  have "n mod 8 ^ Suc ?k = n mod 8 ^ ?k + 8 ^ ?k * (n div 8 ^ ?k mod 8)"
    unfolding power_Suc2 mod_mult2_eq by (rule add.commute)
  then have "(of_nat (n mod 8 ^ ?k) + of_nat (n div 8 ^ ?k mod 8) * 8 ^ ?k :: u32) = of_nat (n mod 8 ^ (11 - j))"
    by (simp add: k mult.commute)
  moreover have "(8 ^ ?k * 8 :: u32) = 8 ^ (11 - j)" by (simp add: k mult.commute)
  ultimately show ?case using Suc by (simp add: d)
qed simp

lemma DecodeValue_octal: "octal_at m p n \<Longrightarrow> n < 8 ^ 11 \<Longrightarrow> DecodeValue m p = of_nat n"
  using decode_loop_octal [of m p n 11] by (simp add: DecodeValue_def)

section \<open>Nodes from the heap\<close>

text \<open>The memory the page allocator and the free list may write to.\<close>

definition heap_own :: "'z heap_scheme \<Rightarrow> block list \<Rightarrow> addr set" where
  "heap_own s fr = table_bytes s \<union> (\<Union>p \<in> free_pages s. bytes p 4096) \<union> \<Union> (blk ` set fr)"

lemma heap_own_live:
  assumes "heap_ok s fr lv" and "b \<in> set lv"
  shows "blk b \<inter> heap_own s fr = {}"
proof -
  have "blk b \<inter> blk c = {}" if "c \<in> set fr" for c
    using assms that by (intro heap_apartD [OF assms(1)]) (auto simp: heap_ok_def blocks_apart_def)
  moreover have "block_ok s b" using heap_blockD [OF assms(1), of b] assms(2) by simp
  ultimately show ?thesis unfolding heap_own_def block_ok_def by blast
qed

text \<open>
  The free list has room for exactly \<open>k\<close> nodes of 136 bytes, header included: a page has room
  for 30 and leaves 16 bytes over.
\<close>

definition node_room :: "nat \<Rightarrow> block list \<Rightarrow> 'z heap_scheme \<Rightarrow> bool" where
  "node_room k fr s \<longleftrightarrow> fr = [] \<and> k = 30 \<and> free_pages s \<noteq> {} \<or> (\<exists>b. fr = [(b, 16 + 136 * k)])"

lemma malloc_node_room:
  assumes ok: "heap_ok s fr lv" and room: "node_room (Suc k) fr s"
  shows "\<exists>b fr' s'. malloc 120 s = Inr (b + 16, s') \<and> heap_ok s' fr' ((b, 136) # lv) \<and> node_room k fr' s' \<and> fr' \<noteq> [] \<and>
    heap_own s' fr' \<union> bytes b 136 \<subseteq> heap_own s fr \<and> (\<forall>x. x \<notin> heap_own s fr \<longrightarrow> mem s' x = mem s x) \<and>
    (\<exists>p. free_pages s - {p} \<subseteq> free_pages s' \<and> (fr \<noteq> [] \<longrightarrow> free_pages s' = free_pages s)) \<and>
    (\<exists>m h. s' = s\<lparr>mem := m, head_next := h\<rparr>) \<and> free_list s' = (if fr = [] then tl (free_list s) else free_list s)"
proof (cases "fr = []")
  case True
  then have k: "k = 29" and ne: "free_pages s \<noteq> {}" using room by (auto simp: node_room_def)
  from malloc_page [OF ok [unfolded True] ne, of 120] obtain p s' where s': "p \<in> free_pages s" "malloc 120 s = Inr (p + 16, s')"
    "heap_ok s' [(p + 136, 3960)] ((p, 136) # lv)" "free_pages s' = free_pages s - {p}"
    "\<forall>x. x \<notin> bytes p 4096 \<longrightarrow> x \<notin> table_bytes s \<longrightarrow> mem s' x = mem s x" by auto
  from malloc_frame [OF s'(2)] have fr': "\<exists>m h. s' = s\<lparr>mem := m, head_next := h\<rparr>" .
  then have tab: "table_bytes s' = table_bytes s" by (auto simp: table_bytes_def nframes_def)
  have sub: "bytes (p + 136) 3960 \<subseteq> bytes p 4096" "bytes p 136 \<subseteq> bytes p 4096"
    using subrange [of 136 3960 4096 p] bytes_mono [of 136 4096 p] by simp_all
  then have own: "heap_own s' [(p + 136, 3960)] \<union> bytes p 136 \<subseteq> heap_own s fr"
    using s'(1) by (auto simp: heap_own_def tab s'(4))
  have out: "\<forall>x. x \<notin> heap_own s fr \<longrightarrow> mem s' x = mem s x" using s'(1,5) by (auto simp: heap_own_def)
  have nr: "node_room k [(p + 136, 3960)] s'" by (simp add: node_room_def k)
  have fp: "\<exists>q. free_pages s - {q} \<subseteq> free_pages s' \<and> (fr \<noteq> [] \<longrightarrow> free_pages s' = free_pages s)"
    using s'(4) True by blast
  have fl: "free_list s' = (if fr = [] then tl (free_list s) else free_list s)"
    using malloc_page_list [OF ok [unfolded True] ne _ s'(2)] True by simp
  show ?thesis
    by (intro exI [of _ p] exI [of _ "[(p + 136, 3960)]"] exI [of _ s'] conjI s'(2,3) nr own out fp fr' fl) simp
next
  case False
  then obtain b where fr: "fr = [(b, 16 + 136 * Suc k)]" using room by (auto simp: node_room_def)
  have fit: "first_fit (16 + unat (120 :: u64)) fr = Some ((b, 16 + 136 * Suc k), [])" by (simp add: fr)
  from malloc_fit [OF ok fit] obtain s' where s': "malloc 120 s = Inr (b + 16, s')"
    "heap_ok s' [(b + 136, 16 + 136 * k)] ((b, 136) # lv)" "\<forall>x. x \<notin> \<Union> (blk ` set fr) \<longrightarrow> mem s' x = mem s x"
    by (auto simp: leftover_def)
  from malloc_frame [OF s'(1)] have fr': "\<exists>m h. s' = s\<lparr>mem := m, head_next := h\<rparr>" .
  have blk: "block_ok s (b, 16 + 136 * Suc k)" using heap_blockD [OF ok] fr by simp
  have cw: "free_pages s' = free_pages s" "table_bytes s' = table_bytes s"
  proof -
    have "mem s' x = mem s x" if "x \<in> table_bytes s" for x using s'(3) that blk by (auto simp: block_ok_def fr)
    then have "free_pages (s\<lparr>mem := mem s'\<rparr>) = free_pages s \<and> table_bytes (s\<lparr>mem := mem s'\<rparr>) = table_bytes s"
      using pages.client_write [of s "mem s'"] ok by (auto simp: heap_ok_def)
    then show "free_pages s' = free_pages s" "table_bytes s' = table_bytes s"
      using fr' by (auto simp: alloc_defs)
  qed
  have "16 + 136 * Suc k \<le> 2 ^ 64" using block_okD(5) [OF blk] by simp
  then have sub: "bytes (b + 136) (16 + 136 * k) \<subseteq> bytes b (16 + 136 * Suc k)" "bytes b 136 \<subseteq> bytes b (16 + 136 * Suc k)"
    using subrange [of 136 "16 + 136 * k" "16 + 136 * Suc k" b] bytes_mono [of 136 "16 + 136 * Suc k" b] by simp_all
  then have own: "heap_own s' [(b + 136, 16 + 136 * k)] \<union> bytes b 136 \<subseteq> heap_own s fr"
    by (auto simp: heap_own_def cw fr)
  have out: "\<forall>x. x \<notin> heap_own s fr \<longrightarrow> mem s' x = mem s x" using s'(3) by (auto simp: heap_own_def)
  have nr: "node_room k [(b + 136, 16 + 136 * k)] s'" by (simp add: node_room_def)
  have fl: "free_list s' = (if fr = [] then tl (free_list s) else free_list s)"
    using malloc_fit_list [OF ok s'(1,3)] False by simp
  show ?thesis
    by (intro exI [of _ b] exI [of _ "[(b + 136, 16 + 136 * k)]"] exI [of _ s'] conjI s'(1,2) nr own out fr' fl)
      (simp_all add: cw False)
qed

text \<open>With no room left for another node, the allocation dereferences a null pointer.\<close>

lemma malloc_no_room:
  assumes "heap_ok s fr lv" and "node_room 0 fr s" and "free_pages s \<noteq> {}"
  shows "\<exists>s'. malloc 120 s = Inl (NullDeref, s')"
proof -
  from assms(2) obtain b where "fr = [(b, 16)]" by (auto simp: node_room_def)
  then have "find_loop 120 Head s \<noteq> None \<and> (\<exists>s'. find_loop 120 Head s = Some (Inl (NullDeref, s')))"
    using find_loop_miss_null [OF assms(1), of 120] assms(3) by auto
  then show ?thesis by (auto simp: malloc_def int_alloc_def FindAndRemoveNode_def)
qed

section \<open>The list of files\<close>

interpretation file_nodes: intrusive_list 112 120
  by unfold_locales simp_all

text \<open>An entry of the list: path, size and address of the contents.\<close>

type_synonym entry = "u8 list \<times> u32 \<times> addr"

fun fnode :: "memory \<Rightarrow> addr \<Rightarrow> entry \<Rightarrow> bool" where
  "fnode m n (path, sz, beg) \<longleftrightarrow>
     cstr_at m (fn_path n) path \<and> length path < 100 \<and> fn_size m n = sz \<and> fn_begin m n = beg"

definition listing :: "'z ramdisk_scheme \<Rightarrow> addr list \<Rightarrow> entry list \<Rightarrow> bool" where
  "listing s ns es \<longleftrightarrow> chain 112 (mem s) (fn_next (mem s) (filehead s)) ns \<and> list_all2 (fnode (mem s)) ns es"

lemma node_fields: "bytes (n + 100) 4 \<subseteq> bytes n 120" "bytes (n + 104) 8 \<subseteq> bytes n 120" "bytes (n + 112) 8 \<subseteq> bytes n 120"
  using subrange [of 100 4 120 n] subrange [of 104 8 120 n] subrange [of 112 8 120 n] by simp_all

lemma fnode_cong:
  assumes "\<And>x. x \<in> bytes n 120 \<Longrightarrow> m' x = m x"
  shows "fnode m' n e = fnode m n e"
proof -
  obtain path sz beg where e: "e = (path, sz, beg)" by (cases e)
  have "fn_size m' n = fn_size m n"
    unfolding fn_size_def by (rule load_le_cong) (use assms node_fields(1) [of n] in \<open>auto dest: subsetD\<close>)
  moreover have "fn_begin m' n = fn_begin m n"
    unfolding fn_begin_def by (rule load_le_cong) (use assms node_fields(2) [of n] in \<open>auto dest: subsetD\<close>)
  moreover have "cstr_at m' n path = cstr_at m n path" if "length path < 100"
    using that assms bytes_mono [of "Suc (length path)" 120 n] by (intro cstr_at_cong) auto
  ultimately show ?thesis by (auto simp: e fn_path_def)
qed

lemma listing_cong:
  assumes "\<And>n x. n \<in> set ns \<Longrightarrow> x \<in> bytes n 120 \<Longrightarrow> mem s' x = mem s x"
    and "fn_next (mem s') (filehead s') = fn_next (mem s) (filehead s)"
  shows "listing s' ns es = listing s ns es"
proof -
  have "fnode (mem s') n e = fnode (mem s) n e" if "n \<in> set ns" for n e
    by (rule fnode_cong) (rule assms(1) [OF that])
  then have "list_all2 (fnode (mem s')) ns es = list_all2 (fnode (mem s)) ns es"
    by (intro list.rel_cong) simp_all
  moreover have "chain 112 (mem s') p ns = chain 112 (mem s) p ns" for p
    by (rule file_nodes.chain_frame) (rule assms(1))
  ultimately show ?thesis by (simp add: listing_def assms(2))
qed

text \<open>Filling in a node.\<close>

lemma node_filled:
  assumes cstr: "cstr_at m path name" and len: "length name < 100"
    and apart: "bytes path (Suc (length name)) \<inter> bytes n 120 = {}"
  shows "\<exists>m2. strcpy (store64 m (n + 112) nxt) (fn_path n) path = Some m2 \<and>
    (let m4 = store64 (store32 m2 (n + 100) sz) (n + 104) beg
     in fnode m4 n (name, sz, beg) \<and> fn_next m4 n = nxt \<and> (\<forall>x. x \<notin> bytes n 120 \<longrightarrow> m4 x = m x))"
proof -
  let ?m1 = "store64 m (n + 112) nxt" and ?k = "Suc (length name)"
  let ?m2 = "\<lambda>x. if x \<in> bytes n ?k then (name @ [0]) ! unat (x - n) else ?m1 x"
  let ?m4 = "store64 (store32 ?m2 (n + 100) sz) (n + 104) beg"
  have sub: "bytes n ?k \<subseteq> bytes n 100" "bytes n 100 \<subseteq> bytes n 120" using len by (simp_all add: bytes_mono)
  have d: "bytes n 100 \<inter> bytes (n + 100) 4 = {}" "bytes n 100 \<inter> bytes (n + 104) 8 = {}" "bytes n 100 \<inter> bytes (n + 112) 8 = {}"
    "bytes (n + 100) 4 \<inter> bytes (n + 104) 8 = {}" "bytes (n + 100) 4 \<inter> bytes (n + 112) 8 = {}" "bytes (n + 104) 8 \<inter> bytes (n + 112) 8 = {}"
    using fields_disjoint [of 0 100 100 4 n] fields_disjoint [of 0 100 104 8 n] fields_disjoint [of 0 100 112 8 n]
      fields_disjoint [of 100 4 104 8 n] fields_disjoint [of 100 4 112 8 n] fields_disjoint [of 104 8 112 8 n] by simp_all
  have "cstr_at ?m1 path name = cstr_at m path name"
    by (rule cstr_at_cong) (use apart node_fields(3) [of n] len in \<open>auto intro!: store_le_outside\<close>)
  moreover have "bytes (fn_path n) ?k \<inter> bytes path ?k = {}"
    unfolding fn_path_def by (rule disjoint_mono [of "bytes n 120" "bytes path ?k"]) (use apart subset_trans [OF sub] in \<open>auto simp: Int_commute\<close>)
  ultimately have cpy: "strcpy ?m1 (fn_path n) path = Some ?m2"
    using strcpy_cstr [of ?m1 path name n] cstr len unfolding fn_path_def by simp
  have outside: "?m4 x = m x" if "x \<notin> bytes n 120" for x
  proof -
    have "x \<notin> bytes (n + 100) 4" "x \<notin> bytes (n + 104) 8" "x \<notin> bytes (n + 112) 8" "x \<notin> bytes n ?k"
      using that sub node_fields [of n] by (meson subsetD)+
    then show ?thesis by (simp add: store_le_outside)
  qed
  have path: "cstr_at ?m4 n name"
  proof -
    have low: "?m4 x = ?m2 x" if "x \<in> bytes n ?k" for x
    proof -
      have "x \<notin> bytes (n + 104) 8" "x \<notin> bytes (n + 100) 4"
        using that disjoint_mono [OF d(2) sub(1) subset_refl] disjoint_mono [OF d(1) sub(1) subset_refl] by (simp_all add: disjoint_iff)
      then show ?thesis by (simp add: store_le_outside)
    qed
    have "?m4 (n + of_nat i) = (name @ [0]) ! i" if "i \<le> length name" for i
      using low [of "n + of_nat i"] that len offset_in_bytes [of i ?k n] by (simp add: unat_of_nat64)
    then show ?thesis using cstr by (auto simp: cstr_at_def nth_append dest: spec [of _ "length name"])
  qed
  have "fn_size ?m4 n = sz" "fn_begin ?m4 n = beg"
    using d(4) by (simp_all add: fn_size_def fn_begin_def load_store_other Int_commute)
  moreover have "fn_next ?m4 n = load64 ?m2 (n + 112)"
    using d(5,6) by (simp add: fn_next_def load_store_other)
  moreover have "load64 ?m2 (n + 112) = load64 ?m1 (n + 112)"
    by (rule load_le_cong) (use disjoint_mono [OF d(3) sub(1) subset_refl] in auto)
  ultimately show ?thesis using cpy path len outside by (auto simp: Let_def fn_path_def)
qed

text \<open>
  The invariant of the scan: the nodes are live heap blocks, the list holds the entries, and
  all memory the heap writes to, nodes included, lies inside \<open>area\<close>, away from the list head.
\<close>

abbreviation node_block :: "addr \<Rightarrow> block" where
  "node_block n \<equiv> (n - 16, 136)"

definition rd_inv :: "addr set \<Rightarrow> 'z ramdisk_scheme \<Rightarrow> block list \<Rightarrow> addr list \<Rightarrow> entry list \<Rightarrow> block list \<Rightarrow> bool" where
  "rd_inv area s fr ns es lv \<longleftrightarrow> heap_ok s fr (map node_block ns @ lv) \<and> listing s ns es \<and>
     heap_own s fr \<subseteq> area \<and> (\<forall>b \<in> set (map node_block ns @ lv). blk b \<subseteq> area) \<and> bytes (filehead s) 120 \<inter> area = {}"

lemma node_in_block: "bytes n 120 \<subseteq> blk (node_block n)"
  using subrange [of 16 120 136 "n - 16"] by simp

lemma listing_push:
  assumes "listing s ns es" and "fnode (mem s') n e" and "n \<noteq> 0" and "fn_next (mem s') n = fn_next (mem s) (filehead s)"
    and "fn_next (mem s') (filehead s') = n" and "\<And>k x. k \<in> set ns \<Longrightarrow> x \<in> bytes k 120 \<Longrightarrow> mem s' x = mem s x"
  shows "listing s' (n # ns) (e # es)"
proof -
  have "fnode (mem s') k d = fnode (mem s) k d" if "k \<in> set ns" for k d
    by (rule fnode_cong) (rule assms(6) [OF that])
  then have "list_all2 (fnode (mem s')) ns es = list_all2 (fnode (mem s)) ns es"
    by (intro list.rel_cong) simp_all
  moreover have "chain 112 (mem s') p ns = chain 112 (mem s) p ns" for p
    by (rule file_nodes.chain_frame) (rule assms(6))
  ultimately show ?thesis using assms(1-5) by (simp add: listing_def fn_next_def)
qed

lemma InsertEntry_effect:
  assumes inv: "rd_inv area s fr ns es lv" and room: "node_room (Suc k) fr s"
    and cstr: "cstr_at (mem s) path name" and len: "length name < 100"
    and away: "bytes path (Suc (length name)) \<inter> area = {}"
  shows "\<exists>n fr' s'. InsertEntry path sz beg s = Inr ((), s') \<and> rd_inv area s' fr' (n # ns) ((name, sz, beg) # es) lv \<and>
    node_room k fr' s' \<and> fr' \<noteq> [] \<and>
    (\<forall>x. x \<notin> area \<longrightarrow> x \<notin> bytes (filehead s) 120 \<longrightarrow> mem s' x = mem s x) \<and>
    (\<exists>p. free_pages s - {p} \<subseteq> free_pages s' \<and> (fr \<noteq> [] \<longrightarrow> free_pages s' = free_pages s)) \<and>
    (\<exists>m h. s' = s\<lparr>mem := m, head_next := h\<rparr>) \<and> free_list s' = (if fr = [] then tl (free_list s) else free_list s)"
proof -
  let ?lv = "map node_block ns @ lv"
  have ok: "heap_ok s fr ?lv" and list: "listing s ns es" and own: "heap_own s fr \<subseteq> area"
    and live: "\<And>b. b \<in> set ?lv \<Longrightarrow> blk b \<subseteq> area" and head: "bytes (filehead s) 120 \<inter> area = {}"
    using inv by (simp_all add: rd_inv_def)
  from malloc_node_room [OF ok room] obtain b fr' s1 where s1: "malloc 120 s = Inr (b + 16, s1)"
    "heap_ok s1 fr' ((b, 136) # ?lv)" "node_room k fr' s1" "fr' \<noteq> []" "heap_own s1 fr' \<union> bytes b 136 \<subseteq> heap_own s fr"
    "\<And>x. x \<notin> heap_own s fr \<Longrightarrow> mem s1 x = mem s x"
    and pg: "\<exists>p. free_pages s - {p} \<subseteq> free_pages s1 \<and> (fr \<noteq> [] \<longrightarrow> free_pages s1 = free_pages s)"
    and fr1: "\<exists>m h. s1 = s\<lparr>mem := m, head_next := h\<rparr>"
    and fl1: "free_list s1 = (if fr = [] then tl (free_list s) else free_list s)" by blast
  have fh: "filehead s1 = filehead s" using fr1 by auto
  let ?n = "b + 16"
  have nb: "bytes ?n 120 \<subseteq> bytes b 136" using node_in_block [of ?n] by simp
  have na: "bytes ?n 120 \<subseteq> area" using nb s1(5) own by blast
  have same1: "mem s1 x = mem s x" if "x \<in> A" "A \<inter> area = {}" for x A using that own s1(6) by blast
  have cstr1: "cstr_at (mem s1) path name"
    using cstr cstr_at_cong [of path name "mem s1" "mem s"] same1 [OF _ away] len by simp
  have apart: "bytes path (Suc (length name)) \<inter> bytes ?n 120 = {}" by (rule disjoint_mono [OF away subset_refl na])
  from node_filled [OF cstr1 len apart, of "fn_next (mem s1) (filehead s1)" sz beg] obtain m2 m4 where
    cpy: "strcpy (store64 (mem s1) (?n + 112) (fn_next (mem s1) (filehead s1))) (fn_path ?n) path = Some m2"
    and m4: "m4 = store64 (store32 m2 (?n + 100) sz) (?n + 104) beg" "fnode m4 ?n (name, sz, beg)"
      "fn_next m4 ?n = fn_next (mem s1) (filehead s1)" "\<And>x. x \<notin> bytes ?n 120 \<Longrightarrow> m4 x = mem s1 x"
    by (auto simp: Let_def)
  define m5 where "m5 = store64 m4 (filehead s1 + 112) ?n"
  let ?s' = "s1\<lparr>mem := m5\<rparr>"
  have b0: "block_ok s1 (b, 136)" using heap_blockD [OF s1(2)] by simp
  have "unat ?n = unat b + 16" using block_okD(2) [OF b0] by (simp add: unat_plus_if_size word_size)
  then have n0: "?n \<noteq> 0" by (metis add_is_0 unat_0 zero_neq_numeral)
  have ins: "InsertEntry path sz beg s = Inr ((), ?s')"
    using s1(1) n0 cpy by (simp add: InsertEntry_def Let_def m4(1) m5_def)
  have link: "bytes (filehead s1 + 112) 8 \<subseteq> bytes (filehead s) 120" using node_fields(3) fh by simp
  have m5: "m5 x = m4 x" if "x \<in> A" "A \<subseteq> area" for x A
    using disjoint_mono [OF head link that(2)] that(1) unfolding m5_def by (auto intro: store_le_outside)
  have own1: "heap_own s1 fr' \<subseteq> area" "bytes b 136 \<subseteq> area" using s1(5) own by blast+
  have "blk c \<subseteq> area" if "c \<in> set fr'" for c using that own1(1) unfolding heap_own_def by blast
  then have blocks: "blk c \<subseteq> area" if "c \<in> set (fr' @ (b, 136) # ?lv)" for c
    using that live own1(2) by (metis Un_iff fst_conv set_ConsD set_append snd_conv)
  have tab: "table_bytes s1 \<subseteq> area" using own1(1) unfolding heap_own_def by blast
  have h4: "heap_ok (s1\<lparr>mem := m4\<rparr>) fr' ((b, 136) # ?lv)" and fp4: "free_pages (s1\<lparr>mem := m4\<rparr>) = free_pages s1"
    using heap_ok_write [OF s1(2), of m4] m4(4) by simp_all
  have tb: "table_bytes (s1\<lparr>mem := m\<rparr>) = table_bytes s1" for m by (simp add: table_bytes_def nframes_def)
  have m5t: "m5 x = m4 x" if "x \<in> table_bytes s1" for x by (rule m5 [OF that tab])
  have h5: "heap_ok ?s' fr' (map node_block (?n # ns) @ lv)"
    using heap_ok_frame [OF h4 subset_refl, of m5] h4 m5t m5 [OF _ blocks] by (auto simp: tb heap_ok_def blocks_apart_def)
  have fp5: "free_pages ?s' = free_pages s1"
    using pages.client_write [of "s1\<lparr>mem := m4\<rparr>" m5] h4 m5t fp4 by (simp add: tb heap_ok_def)
  have "alloc_ok s1" using s1(2) by (simp add: heap_ok_def)
  moreover have "m5 x = mem s1 x" if "x \<in> table_bytes s1" for x
    using m5t [OF that] m4(4) [of x] block_okD(4) [OF b0] nb that by auto
  ultimately have fl5: "free_list ?s' = (if fr = [] then tl (free_list s) else free_list s)"
    using free_list_write [of s1 m5] fl1 by simp
  have own5: "heap_own ?s' fr' = heap_own s1 fr'" by (simp add: heap_own_def fp5 tb)
  have nodes: "m5 x = mem s x" if k: "k \<in> set ns" and x: "x \<in> bytes k 120" for k x
  proof -
    have xb: "x \<in> blk (node_block k)" using node_in_block x by blast
    have kl: "node_block k \<in> set ?lv" using k by simp
    have "blk (b, 136) \<inter> blk (node_block k) = {}"
      using s1(2) kl by (intro heap_apartD [OF s1(2)]) (auto simp: heap_ok_def blocks_apart_def)
    then have "x \<notin> bytes ?n 120" using xb nb by auto
    then have "m4 x = mem s1 x" by (rule m4(4))
    moreover have "m5 x = m4 x" by (rule m5 [OF xb live [OF kl]])
    moreover have "mem s1 x = mem s x" using s1(6) heap_own_live [OF ok kl] xb by blast
    ultimately show ?thesis by simp
  qed
  have same_head: "fn_next (mem s1) (filehead s1) = fn_next (mem s) (filehead s)"
    unfolding fn_next_def fh by (rule load_le_cong) (use same1 [OF _ head] node_fields(3) in auto)
  have "fnode m5 ?n (name, sz, beg)" by (rule iffD2 [OF fnode_cong m4(2)]) (rule m5 [OF _ na])
  moreover have "fn_next m5 ?n = fn_next m4 ?n"
    using file_nodes.link_unchanged [of ?n m5 m4] m5 [OF _ na] by (simp add: fn_next_def)
  ultimately have "listing ?s' (?n # ns) ((name, sz, beg) # es)"
    using m4(3) same_head n0 nodes by (intro listing_push [OF list]) (simp_all add: fn_next_def m5_def)
  then have inv': "rd_inv area ?s' fr' (?n # ns) ((name, sz, beg) # es) lv"
    using h5 own1 live head fh by (simp add: rd_inv_def own5)
  have room': "node_room k fr' ?s'" using s1(3,4) by (simp add: node_room_def)
  have out: "\<forall>x. x \<notin> area \<longrightarrow> x \<notin> bytes (filehead s) 120 \<longrightarrow> mem ?s' x = mem s x"
  proof (intro allI impI)
    fix x assume x: "x \<notin> area" "x \<notin> bytes (filehead s) 120"
    then have "m5 x = m4 x" using link unfolding m5_def by (intro store_le_outside) blast
    also have "m4 x = mem s1 x" using x(1) na by (intro m4(4)) blast
    also have "mem s1 x = mem s x" using x(1) own by (intro s1(6)) blast
    finally show "mem ?s' x = mem s x" by simp
  qed
  have fr5: "\<exists>m h. ?s' = s\<lparr>mem := m, head_next := h\<rparr>" using heap_frame_mem [of s s1 m5] fr1 unfolding heap_frame_def by blast
  show ?thesis
    by (rule exI [of _ ?n], rule exI [of _ fr'], rule exI [of _ ?s'])
      (use ins inv' room' s1(4) out pg fr5 fl5 in \<open>simp add: fp5\<close>)
qed

section \<open>Lookup\<close>

lemma same_first_100:
  assumes "length ys < 100"
  shows "take 100 xs = take 100 ys \<longleftrightarrow> xs = (ys :: 'a list)"
proof
  assume eq: "take 100 xs = take 100 ys"
  then have "length (take 100 xs) < 100" using assms by simp
  then have "length xs < 100" by (simp add: min_def split: if_splits)
  with eq assms show "xs = ys" by simp
qed simp

lemma frame_loop_finds:
  assumes "chain 112 m (fn_next m cur) ns" and "list_all2 (fnode m) ns es" and "cstr_at m path name"
  shows "\<exists>n. frame_loop path m cur = Some (Inr n) \<and>
    (case find (\<lambda>e. fst e = name) es of None \<Rightarrow> n = 0 | Some e \<Rightarrow> n \<noteq> 0 \<and> n \<in> set ns \<and> fnode m n e)"
  using assms(1,2)
proof (induction ns arbitrary: cur es)
  case Nil
  then show ?case by (subst frame_loop.simps) simp
next
  case (Cons n ns)
  from Cons.prems(2) obtain e es' where es: "es = e # es'" "fnode m n e" "list_all2 (fnode m) ns es'"
    by (auto simp: list_all2_Cons1)
  have nx: "fn_next m cur = n" "n \<noteq> 0" "chain 112 m (fn_next m n) ns" using Cons.prems(1) by (simp_all add: fn_next_def)
  have e: "cstr_at m (fn_path n) (fst e)" "length (fst e) < 100" using es(2) by (cases e; simp)+
  from strncmp_loop_cstr [OF assms(3) e(1), of 0 100] obtain r where
    "strncmp m path (fn_path n) 100 = Some r" "r = 0 \<longleftrightarrow> name = fst e"
    using same_first_100 [OF e(2), of name] by (auto simp: strncmp_def)
  then show ?case
    using Cons.IH [OF nx(3) es(3)] nx(1,2) es(1,2)
    by (subst frame_loop.simps) (auto split: option.splits)
qed

lemma RdFileGetFrame_finds:
  assumes "listing s ns es" and "ramdiskInitialized s" and "path \<noteq> 0" and "cstr_at (mem s) path name"
  shows "\<exists>n. RdFileGetFrame path s = Inr (n, s) \<and>
    (case find (\<lambda>e. fst e = name) es of None \<Rightarrow> n = 0 | Some e \<Rightarrow> n \<noteq> 0 \<and> fnode (mem s) n e)"
  using frame_loop_finds [of "mem s" "filehead s" ns es path name] assms
  by (auto simp: listing_def RdFileGetFrame_def split: option.splits)

section \<open>Archives\<close>

text \<open>
  A file of an archive is a path and its contents. Each takes a header of 512 bytes and the
  contents filled up to a multiple of 512; a zero byte ends the archive.
\<close>

type_synonym tar_file = "u8 list \<times> u8 list"

definition tar_span :: "nat \<Rightarrow> nat" where
  "tar_span n = 512 + (n + 511) div 512 * 512"

fun tar_len :: "tar_file list \<Rightarrow> nat" where
  "tar_len [] = 1"
| "tar_len ((path, data) # fs) = tar_span (length data) + tar_len fs"

fun tar_at :: "memory \<Rightarrow> addr \<Rightarrow> tar_file list \<Rightarrow> bool" where
  "tar_at m a [] \<longleftrightarrow> m a = 0"
| "tar_at m a ((path, data) # fs) \<longleftrightarrow>
     path \<noteq> [] \<and> length path < 100 \<and> length data + 1023 < 2 ^ 32 \<and>
     cstr_at m a path \<and> octal_at m (th_size a) (length data) \<and>
     (\<forall>i < length data. m (a + 512 + of_nat i) = data ! i) \<and>
     tar_at m (a + of_nat (tar_span (length data))) fs"

fun tar_entries :: "addr \<Rightarrow> tar_file list \<Rightarrow> entry list" where
  "tar_entries a [] = []"
| "tar_entries a ((path, data) # fs) =
     (path, of_nat (length data), a + 512) # tar_entries (a + of_nat (tar_span (length data))) fs"

lemma tar_span_bounds: "512 + n \<le> tar_span n" "tar_span n < 1024 + n"
  using round_up_bounds [of 512 n] by (simp_all add: tar_span_def)

lemma tar_span_ALIGN_UP:
  assumes "n + 1023 < 2 ^ 32"
  shows "(ucast (ALIGN_UP (512 + of_nat n :: u32) 512) :: u64) = of_nat (tar_span n)"
proof -
  have u: "unat (512 + of_nat n :: u32) = 512 + n"
    using assms by (simp add: unat_plus_if_size word_size unat_of_nat)
  have "unat (ALIGN_UP (512 + of_nat n :: u32) 512) = (512 + n + 511) div 512 * 512"
    using unat_ALIGN_UP [of 512 "512 + of_nat n :: u32"] assms u by simp
  also have "512 + n + 511 = 512 + (n + 511)" by simp
  also have "(512 + (n + 511)) div 512 * 512 = tar_span n" unfolding tar_span_def by (subst div_add_self1) simp_all
  finally show ?thesis by (metis of_nat_unat)
qed

lemma octal_at_cong: "(\<And>x. x \<in> bytes p 11 \<Longrightarrow> m' x = m x) \<Longrightarrow> octal_at m' p n = octal_at m p n"
  using offset_in_bytes [of _ 11 p] by (simp add: octal_at_def)

lemma header_bytes:
  assumes "length path < 100" and "tar_span (length data) + k \<le> 2 ^ 64"
  shows "bytes a (Suc (length path)) \<subseteq> bytes a (tar_span (length data) + k)"
    "bytes (th_size a) 11 \<subseteq> bytes a (tar_span (length data) + k)"
    "bytes (a + 512) (length data) \<subseteq> bytes a (tar_span (length data) + k)"
    "bytes (a + of_nat (tar_span (length data))) k \<subseteq> bytes a (tar_span (length data) + k)"
  using assms tar_span_bounds [of "length data"] bytes_mono [of "Suc (length path)" "tar_span (length data) + k" a]
    subrange [of 124 11 "tar_span (length data) + k" a] subrange [of 512 "length data" "tar_span (length data) + k" a]
    subrange [of "tar_span (length data)" k "tar_span (length data) + k" a]
  by (simp_all add: th_size_def)

lemma tar_at_cong:
  assumes "\<And>x. x \<in> bytes a (tar_len fs) \<Longrightarrow> m' x = m x" and "tar_len fs \<le> 2 ^ 64" and "tar_at m a fs"
  shows "tar_at m' a fs"
  using assms
proof (induction fs arbitrary: a)
  case (Cons f fs)
  obtain path data where f: "f = (path, data)" by (cases f)
  note now = Cons.prems(3) [unfolded f tar_at.simps]
  have sub: "bytes a (Suc (length path)) \<subseteq> bytes a (tar_len (f # fs))" "bytes (th_size a) 11 \<subseteq> bytes a (tar_len (f # fs))"
    "bytes (a + 512) (length data) \<subseteq> bytes a (tar_len (f # fs))"
    "bytes (a + of_nat (tar_span (length data))) (tar_len fs) \<subseteq> bytes a (tar_len (f # fs))"
    using header_bytes [of path data "tar_len fs" a] now Cons.prems(2) by (simp_all add: f)
  have same: "m' x = m x" if "x \<in> A" "A \<subseteq> bytes a (tar_len (f # fs))" for x A using Cons.prems(1) that by blast
  have "cstr_at m' a path" using now cstr_at_cong [of a path m' m] same [OF _ sub(1)] by simp
  moreover have "octal_at m' (th_size a) (length data)" using now octal_at_cong [of "th_size a" m' m] same [OF _ sub(2)] by simp
  moreover have "m' (a + 512 + of_nat i) = data ! i" if "i < length data" for i
    using now same [OF _ sub(3)] offset_in_bytes [of i "length data" "a + 512"] that by simp
  moreover have "tar_at m' (a + of_nat (tar_span (length data))) fs"
    by (rule Cons.IH) (use now Cons.prems(2) same [OF _ sub(4)] in \<open>auto simp: f\<close>)
  ultimately show ?case using now by (simp add: f)
qed simp

section \<open>The scan\<close>

lemma read_str_cstr: "cstr_at m p xs \<Longrightarrow> length xs < 2 ^ 31 \<Longrightarrow> read_str m p = Some xs"
  by (simp add: read_str_def strlen_cstr) (auto simp: cstr_at_def intro: nth_equalityI)

text \<open>Messages change the trace only.\<close>

lemma alloc_trace [simp]:
  "free_pages (s\<lparr>trace := t\<rparr>) = free_pages s" "table_bytes (s\<lparr>trace := t\<rparr>) = table_bytes s" "alloc_ok (s\<lparr>trace := t\<rparr>) = alloc_ok s"
  by (simp_all add: alloc_defs)

lemma heap_trace [simp]: "heap_ok (s\<lparr>trace := t\<rparr>) fr lv = heap_ok s fr lv" "heap_own (s\<lparr>trace := t\<rparr>) fr = heap_own s fr"
  by (simp_all add: heap_ok_def block_ok_def heap_own_def)

lemma rd_trace [simp]: "node_room k fr (s\<lparr>trace := t\<rparr>) = node_room k fr s"
  "rd_inv area (s\<lparr>trace := t\<rparr>) fr ns es lv = rd_inv area s fr ns es lv"
  by (simp_all add: node_room_def rd_inv_def listing_def)

text \<open>The messages about a file, and what is left to do after them.\<close>

lemma register_file_messages:
  assumes ready: "serial_ready s" and str: "cstr_at (mem s) a path" and len: "length path < 100"
  shows "\<exists>t. register_file a s = InsertEntry a (DecodeValue (mem s) (th_size a)) (a + 512) (s\<lparr>trace := t\<rparr>)"
proof -
  have said: "\<exists>t'. printf f args (s\<lparr>trace := t\<rparr>) = Inr ((), s\<lparr>trace := t'\<rparr>)" if "render f args = Some out" for f args out t
    using printf_returns [of "s\<lparr>trace := t\<rparr>" f args out] ready that by auto
  note p1 = said [OF render_plain, of "lit (''Registering file:'' @ newline)" "[]"]
  have "render (lit (''    - File path: %s'' @ newline)) [Str path] = Some (lit ''    - File path: '' @ path @ [10])" by simp
  note p2 = said [OF this]
  have "\<exists>out. render (lit (''    - File size: %d bytes'' @ newline)) [Num v] = Some out" for v by simp
  then have p3: "\<exists>t'. printf (lit (''    - File size: %d bytes'' @ newline)) [Num v] (s\<lparr>trace := t\<rparr>) = Inr ((), s\<lparr>trace := t'\<rparr>)" for v t
    using said by blast
  note p4 = said [OF render_plain, of "lit (''    - File is directory/0 bytes'' @ newline)" "[]"]
  obtain t1 where t1: "printf (lit (''Registering file:'' @ newline)) [] s = Inr ((), s\<lparr>trace := t1\<rparr>)"
    using p1 [of "trace s"] by auto
  obtain t2 where t2: "printf (lit (''    - File path: %s'' @ newline)) [Str path] (s\<lparr>trace := t1\<rparr>) = Inr ((), s\<lparr>trace := t2\<rparr>)"
    using p2 [of t1] by blast
  obtain t3 where "printf (lit (''    - File size: %d bytes'' @ newline)) [Num (ucast (DecodeValue (mem s) (th_size a)))] (s\<lparr>trace := t2\<rparr>) =
      Inr ((), s\<lparr>trace := t3\<rparr>)" using p3 by blast
  moreover obtain t4 where "printf (lit (''    - File is directory/0 bytes'' @ newline)) [] (s\<lparr>trace := t2\<rparr>) = Inr ((), s\<lparr>trace := t4\<rparr>)"
    using p4 [of t2] by auto
  moreover have "read_str (mem s) a = Some path" using read_str_cstr [OF str] len by simp
  ultimately show ?thesis
    unfolding register_file_def t1 bindR_Inr using t2
    by (cases "DecodeValue (mem s) (th_size a) = 0") auto
qed

text \<open>The rest of an archive is out of the way of the memory that registering a file writes to.\<close>

definition archive_safe :: "addr set \<Rightarrow> 'z ramdisk_scheme \<Rightarrow> addr \<Rightarrow> tar_file list \<Rightarrow> bool" where
  "archive_safe area s a fs \<longleftrightarrow> tar_at (mem s) a fs \<and> tar_len fs \<le> 2 ^ 64 \<and>
     bytes a (tar_len fs) \<inter> (area \<union> bytes (filehead s) 120) = {}"

lemma archive_safe_keep:
  assumes "archive_safe area s a fs" and "\<And>x. x \<notin> area \<Longrightarrow> x \<notin> bytes (filehead s) 120 \<Longrightarrow> mem s' x = mem s x"
    and "filehead s' = filehead s"
  shows "archive_safe area s' a fs"
proof -
  have "mem s' x = mem s x" if "x \<in> bytes a (tar_len fs)" for x
    using that assms(1) by (intro assms(2)) (auto simp: archive_safe_def)
  then show ?thesis using assms(1,3) tar_at_cong [of a fs "mem s'" "mem s"] by (simp add: archive_safe_def)
qed

lemma archive_safe_Cons:
  assumes "archive_safe area s a ((path, data) # fs)"
  shows "path \<noteq> []" "length path < 100" "cstr_at (mem s) a path" "bytes a (Suc (length path)) \<inter> area = {}"
    "DecodeValue (mem s) (th_size a) = of_nat (length data)"
    "ucast (ALIGN_UP (512 + DecodeValue (mem s) (th_size a)) 512) = (of_nat (tar_span (length data)) :: u64)"
    "archive_safe area s (a + of_nat (tar_span (length data))) fs" "mem s a \<noteq> 0"
proof -
  show 1: "path \<noteq> []" "length path < 100" "cstr_at (mem s) a path" using assms by (simp_all add: archive_safe_def)
  have sub: "bytes a (Suc (length path)) \<subseteq> bytes a (tar_len ((path, data) # fs))"
    "bytes (a + of_nat (tar_span (length data))) (tar_len fs) \<subseteq> bytes a (tar_len ((path, data) # fs))"
    using header_bytes [OF 1(2), of data "tar_len fs" a] assms by (simp_all add: archive_safe_def)
  have away: "bytes a (tar_len ((path, data) # fs)) \<inter> (area \<union> bytes (filehead s) 120) = {}"
    using assms by (simp add: archive_safe_def)
  show "bytes a (Suc (length path)) \<inter> area = {}" by (rule disjoint_mono [OF away sub(1)]) simp
  have "bytes (a + of_nat (tar_span (length data))) (tar_len fs) \<inter> (area \<union> bytes (filehead s) 120) = {}"
    by (rule disjoint_mono [OF away sub(2)]) simp
  then show "archive_safe area s (a + of_nat (tar_span (length data))) fs"
    using assms by (simp add: archive_safe_def)
  have len: "length data + 1023 < 2 ^ 32" using assms by (simp add: archive_safe_def)
  then show dec: "DecodeValue (mem s) (th_size a) = of_nat (length data)"
    using assms by (intro DecodeValue_octal) (simp_all add: archive_safe_def)
  show "ucast (ALIGN_UP (512 + DecodeValue (mem s) (th_size a)) 512) = (of_nat (tar_span (length data)) :: u64)"
    unfolding dec using len by (rule tar_span_ALIGN_UP)
  show "mem s a \<noteq> 0" using cstr_at_zero_iff [OF 1(3), of 0] 1(1) by simp
qed

lemma register_file_effect:
  assumes inv: "rd_inv area s fr ns es lv" and room: "node_room (Suc k) fr s" and ready: "serial_ready s"
    and arch: "archive_safe area s a ((path, data) # fs)"
  shows "\<exists>n fr' s'. register_file a s = Inr ((), s') \<and>
    rd_inv area s' fr' (n # ns) ((path, of_nat (length data), a + 512) # es) lv \<and> node_room k fr' s' \<and> fr' \<noteq> [] \<and>
    (\<forall>x. x \<notin> area \<longrightarrow> x \<notin> bytes (filehead s) 120 \<longrightarrow> mem s' x = mem s x) \<and>
    (\<exists>p. free_pages s - {p} \<subseteq> free_pages s' \<and> (fr \<noteq> [] \<longrightarrow> free_pages s' = free_pages s)) \<and>
    serial_ready s' \<and> filehead s' = filehead s \<and> archive_safe area s' a ((path, data) # fs) \<and>
    free_list s' = (if fr = [] then tl (free_list s) else free_list s) \<and>
    (\<exists>m h t. s' = s\<lparr>mem := m, head_next := h, trace := t\<rparr>)"
proof -
  note h = archive_safe_Cons [OF arch]
  obtain t where reg: "register_file a s = InsertEntry a (of_nat (length data)) (a + 512) (s\<lparr>trace := t\<rparr>)"
    using register_file_messages [OF ready h(3,2)] h(5) by auto
  let ?s = "s\<lparr>trace := t\<rparr>"
  have "rd_inv area ?s fr ns es lv" "node_room (Suc k) fr ?s" "cstr_at (mem ?s) a path" using inv room h(3) by simp_all
  from InsertEntry_effect [OF this h(2,4), of "of_nat (length data)" "a + 512"] obtain n fr' s' where
    ins: "InsertEntry a (of_nat (length data)) (a + 512) ?s = Inr ((), s')"
    and s': "rd_inv area s' fr' (n # ns) ((path, of_nat (length data), a + 512) # es) lv" "node_room k fr' s'" "fr' \<noteq> []"
      "\<forall>x. x \<notin> area \<longrightarrow> x \<notin> bytes (filehead ?s) 120 \<longrightarrow> mem s' x = mem ?s x"
      "\<exists>p. free_pages ?s - {p} \<subseteq> free_pages s' \<and> (fr \<noteq> [] \<longrightarrow> free_pages s' = free_pages ?s)"
    and fr5: "\<exists>m h. s' = ?s\<lparr>mem := m, head_next := h\<rparr>"
    and fl5: "free_list s' = (if fr = [] then tl (free_list ?s) else free_list ?s)" by blast
  have vars: "serial_ready s'" "filehead s' = filehead s" using fr5 ready by (auto simp: serial_ready_def)
  have "archive_safe area s' a ((path, data) # fs)" by (rule archive_safe_keep [OF arch]) (use s'(4) vars(2) in auto)
  moreover obtain m h where "s' = ?s\<lparr>mem := m, head_next := h\<rparr>" using fr5 by blast
  then have "s' = s\<lparr>mem := m, head_next := h, trace := t\<rparr>" by simp
  then have "\<exists>m h t. s' = s\<lparr>mem := m, head_next := h, trace := t\<rparr>" by blast
  ultimately show ?thesis using ins s'(1-3) s'(4,5) [simplified] vars fl5 [unfolded free_list_trace] unfolding reg
    by - (rule exI [of _ n], rule exI [of _ fr'], rule exI [of _ s'], intro conjI; (assumption | simp))
qed

lemma ramdisk_loop_effect:
  assumes "rd_inv area s fr ns es lv" and "node_room k fr s" and "serial_ready s"
    and "archive_safe area s a fs" and "length fs \<le> k"
  shows "\<exists>fr' ns' s'. ramdisk_loop a s = Some (Inr ((), s')) \<and>
    rd_inv area s' fr' ns' (rev (tar_entries a fs) @ es) lv \<and> filehead s' = filehead s \<and>
    node_room (k - length fs) fr' s' \<and> serial_ready s' \<and>
    (\<forall>x. x \<notin> area \<longrightarrow> x \<notin> bytes (filehead s) 120 \<longrightarrow> mem s' x = mem s x) \<and>
    free_list s' = (if fr = [] \<and> fs \<noteq> [] then tl (free_list s) else free_list s) \<and>
    (\<exists>m h t. s' = s\<lparr>mem := m, head_next := h, trace := t\<rparr>)"
  using assms
proof (induction fs arbitrary: a s fr ns es k)
  case Nil
  then have "ramdisk_loop a s = Some (Inr ((), s))"
    by (subst ramdisk_loop.simps) (simp add: archive_safe_def)
  moreover have "\<exists>m h t. s = s\<lparr>mem := m, head_next := h, trace := t\<rparr>"
    by (rule exI [of _ "mem s"], rule exI [of _ "head_next s"], rule exI [of _ "trace s"]) simp
  ultimately show ?case using Nil by auto
next
  case (Cons f fs)
  obtain path data where f: "f = (path, data)" by (cases f)
  obtain k' where k: "k = Suc k'" using Cons.prems(5) by (cases k) simp_all
  note arch = Cons.prems(4) [unfolded f]
  let ?e = "(path, of_nat (length data), a + 512) :: entry" and ?a = "a + of_nat (tar_span (length data))"
  from register_file_effect [OF Cons.prems(1) Cons.prems(2) [unfolded k] Cons.prems(3) arch] obtain n fr1 s1 where
    s1: "register_file a s = Inr ((), s1)" "rd_inv area s1 fr1 (n # ns) (?e # es) lv" "node_room k' fr1 s1"
    "\<forall>x. x \<notin> area \<longrightarrow> x \<notin> bytes (filehead s) 120 \<longrightarrow> mem s1 x = mem s x"
    "serial_ready s1" "filehead s1 = filehead s" "archive_safe area s1 a ((path, data) # fs)"
    "fr1 \<noteq> []" "free_list s1 = (if fr = [] then tl (free_list s) else free_list s)"
    and u1: "\<exists>m h t. s1 = s\<lparr>mem := m, head_next := h, trace := t\<rparr>" by blast
  have step: "ramdisk_loop a s = ramdisk_loop ?a s1"
    by (subst ramdisk_loop.simps) (simp add: archive_safe_Cons(8) [OF arch] s1(1) archive_safe_Cons(6) [OF s1(7)])
  from Cons.IH [OF s1(2,3,5) archive_safe_Cons(7) [OF s1(7)]] Cons.prems(5) obtain fr' ns' s' where
    "ramdisk_loop ?a s1 = Some (Inr ((), s'))" "rd_inv area s' fr' ns' (rev (tar_entries ?a fs) @ ?e # es) lv"
    "filehead s' = filehead s1" "node_room (k' - length fs) fr' s'" "serial_ready s'"
    "\<forall>x. x \<notin> area \<longrightarrow> x \<notin> bytes (filehead s1) 120 \<longrightarrow> mem s' x = mem s1 x"
    "free_list s' = (if fr1 = [] \<and> fs \<noteq> [] then tl (free_list s1) else free_list s1)"
    and u2: "\<exists>m h t. s' = s1\<lparr>mem := m, head_next := h, trace := t\<rparr>"
    unfolding k by fastforce
  moreover have "\<exists>m h t. s' = s\<lparr>mem := m, head_next := h, trace := t\<rparr>" using u1 u2 by (elim exE) (simp, blast)
  ultimately show ?case using s1(4,6,8,9) step by (intro exI [of _ fr'] exI [of _ ns'] exI [of _ s']) (simp add: f k)
qed

text \<open>With more files than there is room for nodes, the scan stops in a null pointer dereference.\<close>

lemma ramdisk_loop_no_room:
  assumes "rd_inv area s fr ns es lv" and "node_room k fr s" and "serial_ready s"
    and "archive_safe area s a fs" and "k < length fs"
    and "\<forall>p. free_pages s - {p} \<noteq> {} \<or> fr \<noteq> []" and "free_pages s \<noteq> {}"
  shows "\<exists>s'. ramdisk_loop a s = Some (Inl (NullDeref, s'))"
  using assms
proof (induction k arbitrary: a s fr ns es fs)
  case 0
  obtain path data fs' where fs: "fs = (path, data) # fs'" using 0(5) by (cases fs) auto
  note h = archive_safe_Cons [OF 0(4) [unfolded fs]]
  obtain t where reg: "register_file a s = InsertEntry a (of_nat (length data)) (a + 512) (s\<lparr>trace := t\<rparr>)"
    using register_file_messages [OF 0(3) h(3,2)] h(5) by auto
  have "\<exists>s'. malloc 120 (s\<lparr>trace := t\<rparr>) = Inl (NullDeref, s')"
    by (rule malloc_no_room [of _ fr "map node_block ns @ lv"]) (use 0 in \<open>simp_all add: rd_inv_def\<close>)
  then show ?case by (subst ramdisk_loop.simps) (auto simp: h(8) reg InsertEntry_def)
next
  case (Suc k)
  obtain path data fs' where fs: "fs = (path, data) # fs'" using Suc.prems(5) by (cases fs) auto
  note arch = Suc.prems(4) [unfolded fs]
  let ?e = "(path, of_nat (length data), a + 512) :: entry" and ?a = "a + of_nat (tar_span (length data))"
  from register_file_effect [OF Suc.prems(1-3) arch] obtain n fr1 s1 where
    s1: "register_file a s = Inr ((), s1)" "rd_inv area s1 fr1 (n # ns) (?e # es) lv" "node_room k fr1 s1" "fr1 \<noteq> []"
    "serial_ready s1" "archive_safe area s1 a ((path, data) # fs')"
    and pg: "\<exists>p. free_pages s - {p} \<subseteq> free_pages s1 \<and> (fr \<noteq> [] \<longrightarrow> free_pages s1 = free_pages s)" by blast
  have "free_pages s1 \<noteq> {}" using pg Suc.prems(6,7) by blast
  then have "\<exists>s'. ramdisk_loop ?a s1 = Some (Inl (NullDeref, s'))"
    using Suc.IH [OF s1(2,3,5) archive_safe_Cons(7) [OF s1(6)]] Suc.prems(5) s1(4) by (simp add: fs)
  then show ?case
    by (subst ramdisk_loop.simps) (simp add: archive_safe_Cons(8) [OF arch] s1(1) archive_safe_Cons(6) [OF s1(6)])
qed

section \<open>From the archive to the lookup functions\<close>

text \<open>An entry that describes a file whose contents lie in the region \<open>R\<close> of memory.\<close>

definition describes :: "memory \<Rightarrow> addr set \<Rightarrow> entry \<Rightarrow> tar_file \<Rightarrow> bool" where
  "describes m R e f \<longleftrightarrow> fst e = fst f \<and> fst (snd e) = of_nat (length (snd f)) \<and> snd (snd e) \<noteq> 0 \<and>
     length (snd f) < 2 ^ 32 \<and> bytes (snd (snd e)) (length (snd f)) \<subseteq> R \<and>
     (\<forall>i < length (snd f). m (snd (snd e) + of_nat i) = snd f ! i)"

lemma tar_entries_describe:
  assumes "tar_at m a fs" and "unat a + tar_len fs \<le> 2 ^ 64" and "bytes a (tar_len fs) \<subseteq> R"
  shows "list_all2 (describes m R) (tar_entries a fs) fs"
  using assms
proof (induction fs arbitrary: a)
  case (Cons f fs)
  obtain path data where f: "f = (path, data)" by (cases f)
  note now = Cons.prems(1) [unfolded f tar_at.simps]
  let ?n = "tar_span (length data)"
  have pos: "0 < tar_len fs" by (induction fs) (auto simp: tar_span_def)
  have n: "unat a + (?n + tar_len fs) \<le> 2 ^ 64" using Cons.prems(2) by (simp add: f)
  note sub = header_bytes [of path data "tar_len fs" a]
  have u: "unat (a + of_nat ?n) = unat a + ?n" "unat (a + 512) = unat a + 512"
    using n pos tar_span_bounds [of "length data"] by (simp_all add: unat_plus_if_size word_size unat_of_nat64)
  have "a + 512 \<noteq> 0" using u(2) by (metis add_is_0 unat_0 zero_neq_numeral)
  moreover have "bytes (a + 512) (length data) \<subseteq> R" using sub(3) now n Cons.prems(3) by (simp add: f)
  ultimately have "describes m R (path, of_nat (length data), a + 512) f"
    using now by (simp add: describes_def f)
  moreover have "list_all2 (describes m R) (tar_entries (a + of_nat ?n) fs) fs"
    by (rule Cons.IH) (use now n u(1) sub(4) Cons.prems(3) in \<open>auto simp: f\<close>)
  ultimately show ?case by (simp add: f)
qed simp

lemma find_entry:
  assumes "list_all2 (describes m R) es fs"
  shows "case map_of fs name of None \<Rightarrow> find (\<lambda>e. fst e = name) es = None
    | Some data \<Rightarrow> \<exists>e. find (\<lambda>e. fst e = name) es = Some e \<and> describes m R e (name, data)"
  using assms
proof (induction rule: list_all2_induct)
  case (Cons e es f fs)
  then show ?case by (cases f) (auto simp: describes_def split: option.splits)
qed simp

lemma RdFileGetSz_found:
  assumes "listing s ns es" and "ramdiskInitialized s" and "path \<noteq> 0" and "cstr_at (mem s) path name"
  shows "RdFileGetSz path s = Inr (case find (\<lambda>e. fst e = name) es of None \<Rightarrow> 0 | Some e \<Rightarrow> fst (snd e), s)"
  using RdFileGetFrame_finds [OF assms] assms(2)
  by (cases "find (\<lambda>e. fst e = name) es") (auto simp: RdFileGetSz_def)

lemma RdFileGetStream_found:
  assumes "listing s ns es" and "ramdiskInitialized s" and "path \<noteq> 0" and "cstr_at (mem s) path name"
    and "find (\<lambda>e. fst e = name) es = Some e" and "describes (mem s) R e (name, data)"
    and "k \<le> length data" and "k < 2 ^ 31" and "bytes buffer k \<inter> R = {}"
  shows "\<exists>s'. RdFileGetStream path buffer (of_nat k) s = Inr ((), s') \<and>
    (\<forall>i < k. mem s' (buffer + of_nat i) = data ! i) \<and> (\<forall>x. x \<notin> bytes buffer k \<longrightarrow> mem s' x = mem s x)"
proof -
  let ?src = "snd (snd e)"
  from RdFileGetFrame_finds [OF assms(1-4)] assms(5) obtain n where
    n: "RdFileGetFrame path s = Inr (n, s)" "n \<noteq> 0" "fnode (mem s) n e" by auto
  have src: "fn_begin (mem s) n = ?src" "?src \<noteq> 0" "bytes ?src (length data) \<subseteq> R"
    using n(3) assms(6) by (cases e; simp add: describes_def)+
  have "signed_take_bit 31 (int k) = int k" using assms(8) by (intro signed_take_bit_int_eq_self) auto
  then have "sint (of_nat k :: i32) = int k" by (simp add: signed_of_nat)
  then have "(scast (of_nat k :: i32) :: u64) = of_int (int k)" using of_int_sint [of "of_nat k :: i32"] by metis
  then have u: "unat (scast (of_nat k :: i32) :: u64) = k" using assms(8) by (simp add: unat_of_nat64)
  let ?m = "memcpy (mem s) buffer ?src (scast (of_nat k :: i32))"
  have ret: "RdFileGetStream path buffer (of_nat k) s = Inr ((), s\<lparr>mem := ?m\<rparr>)"
    using assms(2) n(1,2) src(1,2) by (simp add: RdFileGetStream_def)
  have "bytes ?src k \<subseteq> R" using bytes_mono [OF assms(7), of ?src] src(3) by (rule subset_trans)
  then have "bytes buffer (unat (scast (of_nat k :: i32) :: u64)) \<inter> bytes ?src (unat (scast (of_nat k :: i32) :: u64)) = {}"
    unfolding u by (rule disjoint_mono [OF assms(9) subset_refl])
  note cpy = memcpy_apply [OF this, unfolded u]
  have "?m (buffer + of_nat i) = data ! i" if "i < k" for i
    using cpy [of "mem s" "buffer + of_nat i"] that assms(6,7,8) offset_in_bytes [of i k buffer] by (simp add: describes_def)
  with ret cpy show ?thesis by auto
qed

text \<open>
  The state in which the kernel scans its ramdisk: nothing allocated from the heap yet, an
  empty list of files, and the archive and the list head out of the allocator's memory.
\<close>

definition rd_boot :: "'z ramdisk_scheme \<Rightarrow> addr \<Rightarrow> tar_file list \<Rightarrow> bool" where
  "rd_boot s a fs \<longleftrightarrow> heap_ok s [] [] \<and> serial_ready s \<and> fn_next (mem s) (filehead s) = 0 \<and>
     bytes (filehead s) 120 \<inter> heap_own s [] = {} \<and> archive_safe (heap_own s []) s a fs \<and> unat a + tar_len fs \<le> 2 ^ 64"

lemma rd_boot_inv: "rd_boot s a fs \<Longrightarrow> rd_inv (heap_own s []) s [] [] [] []"
  by (simp add: rd_boot_def rd_inv_def listing_def)

lemma rd_views [simp]:
  "rd_inv area (s\<lparr>ramdiskInitialized := b\<rparr>) fr ns es lv = rd_inv area s fr ns es lv"
  "node_room k fr (s\<lparr>ramdiskInitialized := b\<rparr>) = node_room k fr s"
  by (simp_all add: rd_inv_def listing_def heap_ok_def block_ok_def heap_own_def node_room_def alloc_defs)

lemma free_list_init: "free_list (s\<lparr>ramdiskInitialized := b\<rparr>) = free_list s"
  by (simp add: free_list_def frame_table_def nframes_def)

lemma InitializeRamdisk_effect:
  assumes "rd_boot s a fs" and "free_pages s \<noteq> {}" and "length fs \<le> 30"
  shows "\<exists>fr ns s'. InitializeRamdisk a s = Inr ((), s') \<and> ramdiskInitialized s' \<and> filehead s' = filehead s \<and>
    rd_inv (heap_own s []) s' fr ns (rev (tar_entries a fs)) [] \<and> node_room (30 - length fs) fr s' \<and> serial_ready s' \<and>
    tar_at (mem s') a fs \<and> (\<forall>x. x \<notin> heap_own s [] \<longrightarrow> x \<notin> bytes (filehead s) 120 \<longrightarrow> mem s' x = mem s x) \<and>
    free_list s' = (if fs = [] then free_list s else tl (free_list s)) \<and>
    (\<exists>m h t. s' = s\<lparr>mem := m, head_next := h, trace := t, ramdiskInitialized := True\<rparr>)"
proof -
  have arch: "archive_safe (heap_own s []) s a fs" "serial_ready s" using assms(1) by (simp_all add: rd_boot_def)
  have room: "node_room 30 [] s" using assms(2) by (simp add: node_room_def)
  from ramdisk_loop_effect [OF rd_boot_inv [OF assms(1)] room arch(2,1) assms(3)] obtain fr ns s' where
    s': "ramdisk_loop a s = Some (Inr ((), s'))" "rd_inv (heap_own s []) s' fr ns (rev (tar_entries a fs)) []"
    "filehead s' = filehead s" "node_room (30 - length fs) fr s'" "serial_ready s'"
    "\<forall>x. x \<notin> heap_own s [] \<longrightarrow> x \<notin> bytes (filehead s) 120 \<longrightarrow> mem s' x = mem s x"
    "free_list s' = (if fs \<noteq> [] then tl (free_list s) else free_list s)"
    and u: "\<exists>m h t. s' = s\<lparr>mem := m, head_next := h, trace := t\<rparr>" unfolding append_Nil2 simp_thms by blast
  have "archive_safe (heap_own s []) s' a fs" by (rule archive_safe_keep [OF arch(1)]) (use s'(3,6) in auto)
  moreover have "\<exists>m h t. s'\<lparr>ramdiskInitialized := True\<rparr> = s\<lparr>mem := m, head_next := h, trace := t, ramdiskInitialized := True\<rparr>"
    using u by (elim exE) (simp, blast)
  ultimately show ?thesis using s'
    by (intro exI [of _ fr] exI [of _ ns] exI [of _ "s'\<lparr>ramdiskInitialized := True\<rparr>"])
      (simp add: InitializeRamdisk_def archive_safe_def serial_ready_def free_list_init)
qed

lemma InitializeRamdisk_listing:
  assumes "rd_boot s a fs" and "free_pages s \<noteq> {}" and "length fs \<le> 30"
  shows "\<exists>ns s'. InitializeRamdisk a s = Inr ((), s') \<and> ramdiskInitialized s' \<and>
    listing s' ns (rev (tar_entries a fs)) \<and> tar_at (mem s') a fs \<and>
    (\<forall>x. x \<notin> heap_own s [] \<longrightarrow> x \<notin> bytes (filehead s) 120 \<longrightarrow> mem s' x = mem s x)"
  using InitializeRamdisk_effect [OF assms] unfolding rd_inv_def by blast

section \<open>A small archive\<close>

text \<open>\<open>n\<close> files with the path \<open>a\<close> and the contents \<open>hi\<close>, from address 0x800000 on.\<close>

definition tar_byte :: "nat \<Rightarrow> u8" where
  "tar_byte j = (if j = 0 then 97 else if 124 \<le> j \<and> j \<le> 133 then 48 else if j = 134 then 50
     else if j = 512 then 104 else if j = 513 then 105 else 0)"

definition demo_tar :: "nat \<Rightarrow> memory" where
  "demo_tar n x = (let j = unat (x - 0x800000) in if j < 1024 * n then tar_byte (j mod 1024) else 0)"

definition demo_files :: "nat \<Rightarrow> tar_file list" where
  "demo_files n = replicate n ([97], [104, 105])"

lemma demo_tar_nth: "i < 1024 \<Longrightarrow> k < n \<Longrightarrow> n < 1000 \<Longrightarrow>
  demo_tar n (0x800000 + of_nat (1024 * k) + of_nat i) = tar_byte i"
proof -
  assume i: "i < 1024" "k < n" "n < 1000"
  have "1024 * k + i < 1024 * n" using i by linarith
  moreover have "(0x800000 + of_nat (1024 * k) + of_nat i - 0x800000 :: u64) = of_nat (1024 * k + i)" by simp
  moreover have "unat (of_nat (1024 * k + i) :: u64) = 1024 * k + i" using i by (intro unat_of_nat64) simp
  moreover have "(1024 * k + i) mod 1024 = i" using i(1) by simp
  ultimately show ?thesis unfolding demo_tar_def Let_def by simp
qed

lemma demo_tar_len: "tar_len (demo_files n) = 1024 * n + 1"
  by (induction n) (simp_all add: demo_files_def tar_span_def)

lemma demo_octal: "(\<And>i. i < 11 \<Longrightarrow> m (p + of_nat i) = (if i = 10 then 50 else 48)) \<Longrightarrow> octal_at m p 2"
proof -
  assume m: "\<And>i. i < 11 \<Longrightarrow> m (p + of_nat i) = (if i = 10 then 50 else 48)"
  have "(2 :: nat) div 8 ^ (10 - i) mod 8 = (if i = 10 then 2 else 0)" if "i < 11" for i
  proof (cases "i = 10")
    case False
    then have "(8 :: nat) ^ 1 \<le> 8 ^ (10 - i)" using that by (intro power_increasing) auto
    then show ?thesis using False by simp
  qed simp
  then show ?thesis unfolding octal_at_def by (simp add: m)
qed

lemma demo_tar_at:
  assumes "n < 1000" and "k \<le> n"
  shows "tar_at (demo_tar n) (0x800000 + of_nat (1024 * (n - k))) (demo_files k)"
  using assms(2)
proof (induction k)
  case 0
  have "unat (of_nat (1024 * n) :: u64) = 1024 * n" using assms(1) by (intro unat_of_nat64) simp
  then show ?case by (simp add: demo_files_def demo_tar_def)
next
  case (Suc k)
  define j where "j = n - Suc k"
  have j: "1024 * (n - k) = 1024 * j + 1024" "j < n" using Suc.prems by (simp_all add: j_def)
  define a :: addr where "a = 0x800000 + of_nat (1024 * j)"
  have at: "demo_tar n (a + of_nat i) = tar_byte i" if "i < 1024" for i
    using demo_tar_nth [OF that j(2) assms(1)] by (simp add: a_def)
  have "a + of_nat (tar_span (length [104, 105 :: u8])) = 0x800000 + of_nat (1024 * (n - k))"
    unfolding j(1) by (simp add: tar_span_def a_def)
  then have succ: "tar_at (demo_tar n) (a + of_nat (tar_span (length [104, 105 :: u8]))) (demo_files k)"
    using Suc by simp
  have "cstr_at (demo_tar n) a [97]" using at [of 0] at [of 1] by (simp add: cstr_at_def tar_byte_def)
  moreover have "octal_at (demo_tar n) (th_size a) 2"
    by (rule demo_octal) (use at [of "124 + _"] in \<open>auto simp: th_size_def tar_byte_def add.assoc\<close>)
  then have "octal_at (demo_tar n) (th_size a) (Suc (Suc 0))" by (simp add: numeral_2_eq_2)
  moreover have "demo_tar n (a + 512 + of_nat i) = [104, 105] ! i" if "i < length [104, 105 :: u8]" for i
    using at [of "512 + i"] that by (auto simp: tar_byte_def less_Suc_eq add.commute)
  ultimately have "tar_at (demo_tar n) a (demo_files (Suc k))" using succ by (simp add: demo_files_def)
  then show ?case by (simp add: a_def j_def)
qed

definition demo_rd :: "nat \<Rightarrow> ramdisk" where
  "demo_rd n = \<lparr>mem = (\<lambda>x. if x \<in> bytes 0x100000 64 then mem demo_heap x else demo_tar n x), trace = [],
     device = (\<lambda>_ _. 0x20), fbSetup = False, FrameList = FrameList demo_heap, LargestMemSegSize = LargestMemSegSize demo_heap,
     head_next = head_next demo_heap, pml4 = 0, GlobalPagingInfo = GlobalPagingInfo demo_paging0, tensMsSinceBoot = 0,
     highest_pid = 1, schedulingStarted = False, prochead = 0, current = 0,
     ramdiskInitialized = False, filehead = 0x900000\<rparr>"

lemma demo_rd_boot:
  assumes "n \<le> 40"
  shows "rd_boot (demo_rd n) 0x800000 (demo_files n)" "free_pages (demo_rd n) = {0x101000, 0x102000, 0x103000, 0x104000}"
proof -
  let ?m = "mem (demo_rd n)"
  have fl: "FrameList demo_heap = 0x100000" "nframes demo_heap = 4" "head_next demo_heap = 0"
    using demo_table(3) by (simp_all add: demo_heap_def allocator.defs heap.defs nframes_def demo_alloc_def
        InitializeAllocator_def demo_map_def boot_state_def Let_def LIMINE_MEMMAP_USABLE_def)
  then have tb: "table_bytes demo_heap = bytes 0x100000 64" by (simp add: table_bytes_def)
  have "alloc_ok (demo_heap\<lparr>mem := ?m\<rparr>) \<and> free_pages (demo_heap\<lparr>mem := ?m\<rparr>) = free_pages demo_heap \<and>
      table_bytes (demo_heap\<lparr>mem := ?m\<rparr>) = table_bytes demo_heap"
    by (rule pages.client_write) (use demo_heap_ok(1) in \<open>simp_all add: heap_ok_def tb demo_rd_def\<close>)
  then have al: "alloc_ok (demo_rd n)" "free_pages (demo_rd n) = free_pages demo_heap" "table_bytes (demo_rd n) = bytes 0x100000 64"
    unfolding alloc_defs by (simp_all add: demo_rd_def tb [unfolded alloc_defs])
  show fp: "free_pages (demo_rd n) = {0x101000, 0x102000, 0x103000, 0x104000}" using al(2) demo_heap_ok(2) by simp
  have own: "heap_own (demo_rd n) [] \<subseteq> bytes 0x100000 0x5000"
    using bytes_subset [of "0x100000" "0x100000" 64 "0x5000"] bytes_subset [of "0x100000" _ 4096 "0x5000"]
    by (auto simp: heap_own_def fp al(3))
  have len: "tar_len (demo_files n) \<le> 0xA001" using assms by (simp add: demo_tar_len)
  have away: "bytes 0x800000 (tar_len (demo_files n)) \<inter> bytes 0x100000 0x5000 = {}"
    "bytes 0x900000 120 \<inter> bytes 0x100000 0x5000 = {}" "bytes 0x800000 (tar_len (demo_files n)) \<inter> bytes 0x900000 120 = {}"
    using bytes_disjoint [of "0x100000" "0x5000" "0x800000" "tar_len (demo_files n)"] bytes_disjoint [of "0x100000" "0x5000" "0x900000" 120]
      bytes_disjoint [of "0x800000" "tar_len (demo_files n)" "0x900000" 120] len by (auto simp: Int_commute)
  have same: "?m x = demo_tar n x" if "x \<notin> bytes 0x100000 0x5000" for x
    using that bytes_mono [of 64 "0x5000" "0x100000"] by (auto simp: demo_rd_def)
  have "tar_at ?m 0x800000 (demo_files n)"
    by (rule tar_at_cong [of _ _ _ "demo_tar n"]) (use same away(1) len demo_tar_at [of n n] assms in auto)
  moreover have "bytes 0x900000 120 \<inter> heap_own (demo_rd n) [] = {}" by (rule disjoint_mono [OF away(2) subset_refl own])
  moreover have "bytes 0x800000 (tar_len (demo_files n)) \<inter> heap_own (demo_rd n) [] = {}" by (rule disjoint_mono [OF away(1) subset_refl own])
  moreover have "fn_next ?m 0x900000 = 0"
    unfolding fn_next_def
  proof (rule load_zero)
    fix x :: addr assume x: "x \<in> bytes (0x900000 + 112) 8"
    then have u: "0x900070 \<le> unat x" "unat x < 0x900078" by (simp_all add: bytes_unat)
    then have "x \<notin> bytes 0x100000 0x5000" by (simp add: bytes_unat)
    moreover have "\<not> unat (x - 0x800000) < 1024 * n"
      using u assms bytes_unat [of "0x800000" "1024 * n" x] by (simp add: in_bytes_iff)
    ultimately show "?m x = 0" by (simp add: same demo_tar_def)
  qed simp
  moreover have "heap_ok (demo_rd n) [] []" using al(1) by (simp add: heap_ok_def blocks_apart_def demo_rd_def fl)
  ultimately show "rd_boot (demo_rd n) 0x800000 (demo_files n)"
    using len away(3) by (simp add: rd_boot_def archive_safe_def serial_ready_def demo_rd_def Int_Un_distrib)
qed

section \<open>Properties\<close>

text \<open>
  C7: \<open>InitializeRamdisk\<close> of an archive of up to 30 files returns and writes to the memory of
  the allocator and to its list head only. After it the lookup functions serve exactly the files of the archive: for every path string, \<open>RdFileGetSz\<close> returns the length of the last file with
  that path, or 0 if there is none, and \<open>RdFileGetStream\<close> copies its contents, or any
  beginning of them, to a buffer outside the archive and changes nothing else.
\<close>

theorem ramdisk_serves_archive:
  assumes "rd_boot s a fs" and "free_pages s \<noteq> {}" and "length fs \<le> 30"
  shows "\<exists>s'. InitializeRamdisk a s = Inr ((), s') \<and>
    (\<forall>x. x \<notin> heap_own s [] \<longrightarrow> x \<notin> bytes (filehead s) 120 \<longrightarrow> mem s' x = mem s x) \<and>
    (\<forall>path name. path \<noteq> 0 \<longrightarrow> cstr_at (mem s') path name \<longrightarrow>
      (case map_of (rev fs) name of
         None \<Rightarrow> RdFileGetSz path s' = Inr (0, s')
       | Some data \<Rightarrow> RdFileGetSz path s' = Inr (of_nat (length data), s') \<and>
           (\<forall>buffer k. k \<le> length data \<longrightarrow> k < 2 ^ 31 \<longrightarrow> bytes buffer k \<inter> bytes a (tar_len fs) = {} \<longrightarrow>
              (\<exists>s''. RdFileGetStream path buffer (of_nat k) s' = Inr ((), s'') \<and>
                 (\<forall>i < k. mem s'' (buffer + of_nat i) = data ! i) \<and>
                 (\<forall>x. x \<notin> bytes buffer k \<longrightarrow> mem s'' x = mem s' x)))))"
proof -
  from InitializeRamdisk_listing [OF assms] obtain ns s' where s': "InitializeRamdisk a s = Inr ((), s')"
    "ramdiskInitialized s'" "listing s' ns (rev (tar_entries a fs))" "tar_at (mem s') a fs"
    "\<forall>x. x \<notin> heap_own s [] \<longrightarrow> x \<notin> bytes (filehead s) 120 \<longrightarrow> mem s' x = mem s x" by blast
  let ?R = "bytes a (tar_len fs)"
  have "list_all2 (describes (mem s') ?R) (tar_entries a fs) fs"
    by (rule tar_entries_describe [OF s'(4)]) (use assms(1) in \<open>simp_all add: rd_boot_def\<close>)
  then have d: "list_all2 (describes (mem s') ?R) (rev (tar_entries a fs)) (rev fs)" by simp
  show ?thesis
  proof (intro exI [of _ s'] conjI s'(1) allI impI)
    show "mem s' x = mem s x" if "x \<notin> heap_own s []" "x \<notin> bytes (filehead s) 120" for x using s'(5) that by blast
  next
    fix path name assume p: "path \<noteq> 0" "cstr_at (mem s') path name"
    note sz = RdFileGetSz_found [OF s'(3,2) p] and st = RdFileGetStream_found [OF s'(3,2) p]
    show "case map_of (rev fs) name of None \<Rightarrow> RdFileGetSz path s' = Inr (0, s')
       | Some data \<Rightarrow> RdFileGetSz path s' = Inr (of_nat (length data), s') \<and>
           (\<forall>buffer k. k \<le> length data \<longrightarrow> k < 2 ^ 31 \<longrightarrow> bytes buffer k \<inter> ?R = {} \<longrightarrow>
              (\<exists>s''. RdFileGetStream path buffer (of_nat k) s' = Inr ((), s'') \<and>
                 (\<forall>i < k. mem s'' (buffer + of_nat i) = data ! i) \<and>
                 (\<forall>x. x \<notin> bytes buffer k \<longrightarrow> mem s'' x = mem s' x)))"
    proof (cases "map_of (rev fs) name")
      case None
      with find_entry [OF d, of name] sz show ?thesis by simp
    next
      case (Some data)
      with find_entry [OF d, of name] obtain e where e: "find (\<lambda>e. fst e = name) (rev (tar_entries a fs)) = Some e"
        "describes (mem s') ?R e (name, data)" by auto
      have "RdFileGetSz path s' = Inr (of_nat (length data), s')" using sz e by (simp add: describes_def)
      with Some st [OF e] show ?thesis by simp
    qed
  qed
qed

lemma all_less_two: "(\<forall>i < (2 :: nat). P i) \<longleftrightarrow> P 0 \<and> P 1"
  by (auto simp: less_2_cases_iff)

theorem ramdisk_serves_archive_witness:
  "\<exists>s' s''. InitializeRamdisk 0x800000 (demo_rd 2) = Inr ((), s') \<and> RdFileGetSz 0x800000 s' = Inr (2, s') \<and>
     RdFileGetStream 0x800000 0xA00000 2 s' = Inr ((), s'') \<and> mem s'' 0xA00000 = 104 \<and> mem s'' 0xA00001 = 105"
proof -
  have boot: "rd_boot (demo_rd 2) 0x800000 (demo_files 2)" and fp: "free_pages (demo_rd 2) \<noteq> {}"
    using demo_rd_boot [of 2] by simp_all
  from ramdisk_serves_archive [OF boot fp] obtain s' where s': "InitializeRamdisk 0x800000 (demo_rd 2) = Inr ((), s')"
    "\<forall>x. x \<notin> heap_own (demo_rd 2) [] \<longrightarrow> x \<notin> bytes (filehead (demo_rd 2)) 120 \<longrightarrow> mem s' x = mem (demo_rd 2) x"
    and look: "\<And>path name. path \<noteq> 0 \<Longrightarrow> cstr_at (mem s') path name \<Longrightarrow>
      (case map_of (rev (demo_files 2)) name of
         None \<Rightarrow> RdFileGetSz path s' = Inr (0, s')
       | Some data \<Rightarrow> RdFileGetSz path s' = Inr (of_nat (length data), s') \<and>
           (\<forall>buffer k. k \<le> length data \<longrightarrow> k < 2 ^ 31 \<longrightarrow> bytes buffer k \<inter> bytes 0x800000 (tar_len (demo_files 2)) = {} \<longrightarrow>
              (\<exists>s''. RdFileGetStream path buffer (of_nat k) s' = Inr ((), s'') \<and>
                 (\<forall>i < k. mem s'' (buffer + of_nat i) = data ! i) \<and>
                 (\<forall>x. x \<notin> bytes buffer k \<longrightarrow> mem s'' x = mem s' x))))"
    by (auto simp: demo_files_def)
  have arch: "archive_safe (heap_own (demo_rd 2) []) (demo_rd 2) 0x800000 (([97], [104, 105]) # demo_files 1)"
    using boot by (simp add: rd_boot_def demo_files_def numeral_2_eq_2)
  have "bytes 0x800000 (Suc (length [97 :: u8])) \<inter> bytes (filehead (demo_rd 2)) 120 = {}"
    by (rule bytes_disjoint) (simp_all add: demo_rd_def)
  then have "mem s' x = mem (demo_rd 2) x" if "x \<in> bytes 0x800000 (Suc (length [97 :: u8]))" for x
    using s'(2) archive_safe_Cons(4) [OF arch] that by blast
  then have "cstr_at (mem s') 0x800000 [97] = cstr_at (mem (demo_rd 2)) 0x800000 [97]"
    by (intro cstr_at_cong) simp_all
  then have str: "cstr_at (mem s') 0x800000 [97]" using archive_safe_Cons(3) [OF arch] by simp
  have found: "map_of (rev (demo_files 2)) [97] = Some [104, 105]" by (simp add: demo_files_def numeral_2_eq_2)
  have away: "bytes 0xA00000 2 \<inter> bytes 0x800000 (tar_len (demo_files 2)) = {}"
    using bytes_disjoint [of "0x800000" "tar_len (demo_files 2)" "0xA00000" 2] by (simp add: demo_tar_len Int_commute)
  have "(0x800000 :: addr) \<noteq> 0" by simp
  note served = look [OF this str, unfolded found option.case]
  have "RdFileGetSz 0x800000 s' = Inr (2, s')" using conjunct1 [OF served] by simp
  moreover obtain s'' where "RdFileGetStream 0x800000 0xA00000 (of_nat 2) s' = Inr ((), s'')"
    "\<forall>i < 2. mem s'' (0xA00000 + of_nat i) = [104, 105] ! i"
    using spec [OF spec [OF conjunct2 [OF served], of "0xA00000"], of 2] away by auto
  ultimately show ?thesis using s'(1) by (auto simp: all_less_two)
qed

text \<open>
  An archive of more than 30 files crashes the kernel while it boots: a page has room for
  30 nodes and 16 bytes, and the request for the next node dereferences a null pointer.
\<close>

theorem ramdisk_31_files:
  assumes "rd_boot s a fs" and "p \<in> free_pages s" and "q \<in> free_pages s" and "p \<noteq> q" and "30 < length fs"
  shows "\<exists>s'. InitializeRamdisk a s = Inl (NullDeref, s')"
proof -
  have "node_room 30 [] s" using assms(2) by (auto simp: node_room_def)
  moreover have "\<forall>r. free_pages s - {r} \<noteq> {} \<or> [] \<noteq> ([] :: block list)" "free_pages s \<noteq> {}" using assms(2-4) by auto
  moreover have "serial_ready s" "archive_safe (heap_own s []) s a fs" using assms(1) by (simp_all add: rd_boot_def)
  ultimately have "\<exists>s'. ramdisk_loop a s = Some (Inl (NullDeref, s'))"
    using ramdisk_loop_no_room [OF rd_boot_inv [OF assms(1)]] assms(5) by blast
  then show ?thesis by (auto simp: InitializeRamdisk_def)
qed

theorem ramdisk_31_files_witness: "\<exists>s'. InitializeRamdisk 0x800000 (demo_rd 31) = Inl (NullDeref, s')"
  using ramdisk_31_files [OF demo_rd_boot(1), of 31 "0x101000" "0x102000"] demo_rd_boot(2) [of 31] by (simp add: demo_files_def)

end
