(* ===== verification/Keyboard.thy ===== *)
theory Keyboard
  imports Ramdisk
begin

text \<open>
  The keyboard driver, \<open>drivers/keyboard.c\<close>: scan codes of a US keyboard are turned into
  characters by two tables, one for the shifted keys, and printed.
\<close>

section \<open>State and tables\<close>

record keyboard = ramdisk +
  shiftpressed :: bool

definition kbdus :: "u8 list" where
  "kbdus = [0, 27] @ lit ''1234567890-='' @ [8, 9] @ lit ''qwertyuiop[]'' @ [10, 0] @ lit ''asdfghjkl;'' @
     [39, 96, 0, 92] @ lit ''zxcvbnm,./'' @ [0, 42, 0, 32] @ replicate 16 0 @ [45, 0, 0, 0, 43] @ replicate 49 0"

definition shiftKbdus :: "u8 list" where
  "shiftKbdus = [0, 27] @ lit ''!@#$%^&*()_+'' @ [8, 9] @ lit ''QWERTYUIOP{}'' @ [10, 0] @ lit ''ASDFGHJKL:'' @
     [34, 126, 0, 124] @ lit ''ZXCVBNM<>?'' @ [0, 42, 0, 32] @ replicate 16 0 @ [45, 0, 0, 0, 43] @ replicate 49 0"

section \<open>The driver\<close>

text \<open>Printing an element of a table; an index outside its 128 elements has no meaning in C.\<close>

definition print_key :: "u8 list \<Rightarrow> int \<Rightarrow> 'z console_scheme \<Rightarrow> (unit, 'z console_scheme) res" where
  "print_key table i s =
     (if 0 \<le> i \<and> i < 128 then printf (lit ''%c'') [Num (ucast (table ! nat i))] s else Inl (Undefined, s))"

definition KeyboardDriver :: "int \<Rightarrow> 'z keyboard_scheme \<Rightarrow> (unit, 'z keyboard_scheme) res" where
  "KeyboardDriver scancode s =
     bindR (if scancode < 0x81
            then if \<not> shiftpressed s then print_key kbdus scancode s else print_key shiftKbdus scancode s
            else Inr ((), s)) (\<lambda>_ s.
     let s = (if scancode = 0x2A then s\<lparr>shiftpressed := True\<rparr> else s);
         s = (if scancode = 0xAA then s\<lparr>shiftpressed := False\<rparr> else s)
     in Inr ((), s))"

section \<open>What typing does\<close>

text \<open>
  The reference: a scan code below 128 is a key going down and stands for a character of the
  table in force; from 128 on a key goes up. Only the left shift key switches the tables.
\<close>

definition shift_after :: "bool \<Rightarrow> u8 \<Rightarrow> bool" where
  "shift_after shift c = (if c = 0x2A then True else if c = 0xAA then False else shift)"

definition key_char :: "bool \<Rightarrow> u8 \<Rightarrow> u8 list" where
  "key_char shift c = (if c < 0x80 then [(if shift then shiftKbdus else kbdus) ! unat c] else [])"

fun key_text :: "bool \<Rightarrow> u8 list \<Rightarrow> u8 list" where
  "key_text shift [] = []"
| "key_text shift (c # cs) = key_char shift c @ key_text (shift_after shift c) cs"

text \<open>The driver on a sequence of scan codes as the interrupt handler reads them from the port.\<close>

fun type_keys :: "u8 list \<Rightarrow> 'z keyboard_scheme \<Rightarrow> (unit, 'z keyboard_scheme) res" where
  "type_keys [] s = Inr ((), s)"
| "type_keys (c # cs) s = bindR (KeyboardDriver (uint c) s) (\<lambda>_ s. type_keys cs s)"

lemma byte_slot: "(ucast (ucast (x :: u8) :: u64) :: u8) = x"
  by (rule bit_word_eqI) (auto simp: bit_simps dest: bit_imp_le_length)

lemma print_key_outputs:
  fixes c :: u8
  assumes "serial_ready s" and "c < 0x80"
  shows "outputs s (print_key table (uint c) s) [table ! unat c]"
proof -
  have "uint c < 128" using assms(2) by (simp add: word_less_def)
  moreover have "nat (uint c) = unat c" by simp
  moreover have "outputs s (printf (lit ''%c'') [Num (ucast (table ! unat c))] s) [table ! unat c]"
    by (rule printf_outputs [OF assms(1)]) (simp add: byte_slot)
  ultimately show ?thesis by (simp add: print_key_def)
qed

lemma KeyboardDriver_step:
  assumes "serial_ready s" and "c \<noteq> 0x80"
  shows "\<exists>es. KeyboardDriver (uint c) s = Inr ((), s\<lparr>trace := trace s @ es, shiftpressed := shift_after (shiftpressed s) c\<rparr>) \<and>
    sent es = crlf (key_char (shiftpressed s) c)"
proof -
  have codes: "uint c = 0x2A \<longleftrightarrow> c = 0x2A" "uint c = 0xAA \<longleftrightarrow> c = 0xAA" by (simp_all add: word_uint_eq_iff)
  show ?thesis
  proof (cases "c < 0x80")
    case True
    let ?t = "if shiftpressed s then shiftKbdus else kbdus"
    obtain es where es: "print_key ?t (uint c) s = Inr ((), s\<lparr>trace := trace s @ es\<rparr>)" "sent es = crlf [?t ! unat c]"
      using print_key_outputs [OF assms(1) True] by (rule outputsE)
    have "uint c < 129" using True by (simp add: word_less_def)
    with es codes True show ?thesis
      by (intro exI [of _ es]) (auto simp: KeyboardDriver_def Let_def shift_after_def key_char_def)
  next
    case False
    then have "\<not> uint c < 129" using assms(2) by (simp add: word_less_def word_uint_eq_iff)
    with codes False show ?thesis
      by (intro exI [of _ "[]"]) (auto simp: KeyboardDriver_def Let_def shift_after_def key_char_def)
  qed
qed

lemma type_keys_outputs:
  assumes "serial_ready s" and "0x80 \<notin> set cs"
  shows "\<exists>es s'. type_keys cs s = Inr ((), s') \<and> s' = s\<lparr>trace := trace s @ es, shiftpressed := foldl shift_after (shiftpressed s) cs\<rparr> \<and>
    sent es = crlf (key_text (shiftpressed s) cs)"
  using assms
proof (induction cs arbitrary: s)
  case Nil
  show ?case by (intro exI [of _ "[]"] exI [of _ s]) simp
next
  case (Cons c cs)
  let ?b = "shift_after (shiftpressed s) c"
  from KeyboardDriver_step [OF Cons.prems(1), of c] Cons.prems(2) obtain es where
    es: "KeyboardDriver (uint c) s = Inr ((), s\<lparr>trace := trace s @ es, shiftpressed := ?b\<rparr>)"
    "sent es = crlf (key_char (shiftpressed s) c)" by auto
  let ?s = "s\<lparr>trace := trace s @ es, shiftpressed := ?b\<rparr>"
  have "serial_ready ?s" using Cons.prems(1) by (simp add: serial_ready_def)
  from Cons.IH [OF this] Cons.prems(2) obtain fs where
    fs: "type_keys cs ?s = Inr ((), ?s\<lparr>trace := trace ?s @ fs, shiftpressed := foldl shift_after ?b cs\<rparr>)"
    "sent fs = crlf (key_text ?b cs)" by auto
  show ?case
    by (intro exI [of _ "es @ fs"]) (use es fs in simp)
qed

section \<open>Properties\<close>

text \<open>
  C30: on any sequence of scan codes other than 0x80 the driver returns, prints exactly the
  characters of the keys that went down, taken from the table that the left shift key selects
  at that moment, and keeps the state of that key.
\<close>

theorem keyboard_types:
  assumes "serial_ready s" and "0x80 \<notin> set cs"
  shows "\<exists>es s'. type_keys cs s = Inr ((), s') \<and> s' = s\<lparr>trace := trace s @ es, shiftpressed := foldl shift_after (shiftpressed s) cs\<rparr> \<and>
    sent es = crlf (key_text (shiftpressed s) cs)"
  using assms by (rule type_keys_outputs)

definition demo_keyboard :: keyboard where
  "demo_keyboard = ramdisk.extend (demo_rd 0) (keyboard.fields False)"

theorem keyboard_types_witness:
  "\<exists>es s'. type_keys [0x2A, 0x23, 0xA3, 0xAA, 0x17] demo_keyboard = Inr ((), s') \<and> trace s' = trace demo_keyboard @ es \<and>
     sent es = crlf ([0] @ lit ''Hi'')"
proof -
  have "serial_ready demo_keyboard" "\<not> shiftpressed demo_keyboard"
    by (simp_all add: demo_keyboard_def ramdisk.defs keyboard.defs demo_rd_def serial_ready_def)
  moreover have "key_text False [0x2A, 0x23, 0xA3, 0xAA, 0x17] = [0] @ lit ''Hi''" by code_simp
  moreover have "0x80 \<notin> set [0x2A, 0x23, 0xA3, 0xAA, 0x17 :: u8]" by simp
  ultimately show ?thesis using keyboard_types [of demo_keyboard "[0x2A, 0x23, 0xA3, 0xAA, 0x17]"] by fastforce
qed

text \<open>
  The test for a pressed key lets scan code 0x80 through, which reads the element behind
  the end of a table of 128 elements.
\<close>

theorem keyboard_reads_past_table: "KeyboardDriver 0x80 s = Inl (Undefined, s)"
  by (simp add: KeyboardDriver_def print_key_def)

end
