(* ===== verification/Acpi.thy ===== *)
theory Acpi
  imports Keyboard
begin

text \<open>
  The ACPI driver, \<open>drivers/acpi/acpi.c\<close> and \<open>acpi.h\<close>: it walks the root system description
  table (RSDT) and remembers where the MCFG and the MADT (signature \<open>APIC\<close>) lie.
\<close>

section \<open>State\<close>

record acpi = keyboard +
  mcfgPtr :: addr
  madtPtr :: addr

text \<open>
  The fields the driver reads: of \<open>struct RSDPDescriptor\<close> the \<open>OEMID\<close> at 9, the \<open>Revision\<close> at 15 and
  \<open>RsdtAddress\<close> at 16; of \<open>struct ACPISystemTableHeader\<close> (36 bytes) the \<open>Signature\<close> at 0 and \<open>Length\<close> at 4.
\<close>

definition rsdp_oemid :: "addr \<Rightarrow> addr" where "rsdp_oemid p = p + 9"
definition rsdp_revision :: "memory \<Rightarrow> addr \<Rightarrow> u8" where "rsdp_revision m p = m (p + 15)"
definition rsdp_rsdt :: "memory \<Rightarrow> addr \<Rightarrow> u32" where "rsdp_rsdt m p = load32 m (p + 16)"
definition sdt_length :: "memory \<Rightarrow> addr \<Rightarrow> u32" where "sdt_length m p = load32 m (p + 4)"

section \<open>Operations\<close>

text \<open>\<open>strncmp\<close> with a string literal as its second argument, given by its characters.\<close>

fun strncmp_lit :: "memory \<Rightarrow> addr \<Rightarrow> u8 list \<Rightarrow> nat \<Rightarrow> int" where
  "strncmp_lit m p cs 0 = 0"
| "strncmp_lit m p [] (Suc n) = sint (m p)"
| "strncmp_lit m p (c # cs) (Suc n) =
     (if m p \<noteq> 0 \<and> m p = c then strncmp_lit m (p + 1) cs n else sint (m p) - sint c)"

text \<open>One pass of the loop of \<open>EnumerateACPITables\<close>. The offset \<open>i * 4\<close> is an \<open>int\<close> product.\<close>

definition acpi_entry :: "addr \<Rightarrow> nat \<Rightarrow> 'z acpi_scheme \<Rightarrow> (unit, 'z acpi_scheme) res" where
  "acpi_entry first i s =
     bindR (printf (lit ''    - '') [] s) (\<lambda>_ s.
     if 2 ^ 31 \<le> 4 * i then Inl (Undefined, s)
     else
       let hdr = ucast (load32 (mem s) (first + of_nat (4 * i)));
           s = (if strncmp_lit (mem s) hdr (lit ''MCFG'') 4 = 0 then s\<lparr>mcfgPtr := hdr\<rparr>
                else if strncmp_lit (mem s) hdr (lit ''APIC'') 4 = 0 then s\<lparr>madtPtr := hdr\<rparr>
                else s)
       in bindR (lprint hdr 4 s) (\<lambda>_ s. printf (lit newline) [] s))"

function acpi_loop :: "addr \<Rightarrow> int \<Rightarrow> nat \<Rightarrow> 'z acpi_scheme \<Rightarrow> (unit, 'z acpi_scheme) res" where
  "acpi_loop first entries i s =
     (if int i < entries then bindR (acpi_entry first i s) (\<lambda>_ s. acpi_loop first entries (Suc i) s)
      else Inr ((), s))"
  by pat_completeness auto
termination
  by (relation "measure (\<lambda>(first, entries, i, s). nat (entries - int i))") auto

declare acpi_loop.simps [simp del]

text \<open>
  The number of entries is computed in 64 bits and cut to an \<open>int\<close>; the address of the first
  entry is computed in 32 bits.
\<close>

definition EnumerateACPITables :: "u32 \<Rightarrow> 'z acpi_scheme \<Rightarrow> (unit, 'z acpi_scheme) res" where
  "EnumerateACPITables root s =
     (let entries = sint (ucast ((ucast (sdt_length (mem s) (ucast root)) - 36 :: u64) div 4) :: i32);
          first = ucast (root + 36)
      in bindR (printf (lit (''ACPI system table entries: '' @ newline)) [] s) (\<lambda>_ s. acpi_loop first entries 0 s))"

definition InitializeACPI :: "u64 \<Rightarrow> 'z acpi_scheme \<Rightarrow> (unit, 'z acpi_scheme) res" where
  "InitializeACPI rsdp s =
     (if rsdp = 0 then panic ''RSD PTR == 0. Unable to initialize ACPI.'' s
      else
        bindR (printf (lit (''ACPI Driver: Initializing ACPI.'' @ newline)) [] s) (\<lambda>_ s.
        bindR (printf (lit ''    - OEM: '') [] s) (\<lambda>_ s.
        bindR (lprint (rsdp_oemid rsdp) 6 s) (\<lambda>_ s.
        bindR (printf (lit newline) [] s) (\<lambda>_ s.
        bindR (printf (lit (''    - ACPI Revision: %s'' @ newline @ newline))
                 [Str (lit (if rsdp_revision (mem s) rsdp \<noteq> 0 then ''> 1.0 (versions 2.0 through 6.1)'' else ''1.0''))] s) (\<lambda>_ s.
        let rsdtPtr = rsdp_rsdt (mem s) rsdp in
        if rsdtPtr = 0 then panic ''System unsupported -- No ACPI support. Please make sure your hardware or virtualizer has proper support for ACPI.'' s
        else if strncmp_lit (mem s) (ucast rsdtPtr) (lit ''RSDT'') 4 \<noteq> 0 then panic ''RSDT signature failed.'' s
        else EnumerateACPITables rsdtPtr s))))))"

definition GetMCFG :: "'z acpi_scheme \<Rightarrow> u64" where
  "GetMCFG s = mcfgPtr s"

definition GetMADT :: "'z acpi_scheme \<Rightarrow> u64" where
  "GetMADT s = madtPtr s"

section \<open>Signatures\<close>

text \<open>Comparing with a literal is comparing with a copy of it in memory.\<close>

lemma strncmp_loop_lit:
  assumes "cstr_at m q cs" and "i \<le> length cs" and "int i \<le> n" and "n < 2 ^ 31"
  shows "strncmp_loop m p q n i = Some (strncmp_lit m (p + of_nat i) (drop i cs) (nat (n - int i)))"
  using assms
proof (induction m p q n i rule: strncmp_loop.induct)
  case (1 m p q n i)
  have lt: "i < 2 ^ 31" using "1.prems"(3,4) by simp
  have q: "m (q + of_nat i) = (cs @ [0]) ! i" by (rule cstr_at_nth [OF "1.prems"(1,2)])
  show ?case
  proof (cases "int i = n")
    case True
    with lt show ?thesis by (subst strncmp_loop.simps) simp
  next
    case ne: False
    then have n: "nat (n - int i) = Suc (nat (n - int (Suc i)))" using "1.prems"(3) by simp
    show ?thesis
    proof (cases "i = length cs")
      case True
      with lt ne q show ?thesis by (subst strncmp_loop.simps) (simp add: n [unfolded True])
    next
      case False
      with "1.prems"(2) have i: "i < length cs" by simp
      then have d: "drop i cs = cs ! i # drop (Suc i) cs" by (rule Cons_nth_drop_Suc [symmetric])
      have qi: "m (q + of_nat i) = cs ! i" using q i by (simp add: nth_append)
      show ?thesis
      proof (cases "m (p + of_nat i) \<noteq> 0 \<and> m (p + of_nat i) = cs ! i")
        case True
        have "strncmp_loop m p q n i = strncmp_loop m p q n (Suc i)"
          using lt ne True qi by (subst strncmp_loop.simps) auto
        moreover have "strncmp_loop m p q n (Suc i) = Some (strncmp_lit m (p + of_nat (Suc i)) (drop (Suc i) cs) (nat (n - int (Suc i))))"
          using lt ne True qi i "1.prems" by (intro "1.IH") auto
        ultimately show ?thesis using True by (auto simp: n d ac_simps)
      next
        case False
        with lt ne qi show ?thesis by (subst strncmp_loop.simps) (auto simp: n d)
      qed
    qed
  qed
qed

lemma strncmp_literal: "cstr_at m q cs \<Longrightarrow> n < 2 ^ 31 \<Longrightarrow> strncmp m p q (int n) = Some (strncmp_lit m p cs n)"
  using strncmp_loop_lit [of m q cs 0 "int n" p] by (simp add: strncmp_def)

definition has_sig :: "memory \<Rightarrow> string \<Rightarrow> addr \<Rightarrow> bool" where
  "has_sig m sig p \<longleftrightarrow> (\<forall>i < length sig. m (p + of_nat i) = of_char (sig ! i))"

lemma strncmp_lit_eq:
  "0 \<notin> set cs \<Longrightarrow> strncmp_lit m p cs (length cs) = 0 \<longleftrightarrow> (\<forall>i < length cs. m (p + of_nat i) = cs ! i)"
proof (induction cs arbitrary: p)
  case (Cons c cs)
  have "(\<forall>i < length (c # cs). m (p + of_nat i) = (c # cs) ! i) \<longleftrightarrow>
      m p = c \<and> (\<forall>i < length cs. m (p + 1 + of_nat i) = cs ! i)"
    by (auto simp: less_Suc_eq_0_disj add.assoc)
  moreover have "sint (m p) = sint c \<longleftrightarrow> m p = c" by (rule sint_eq_diff)
  ultimately show ?case using Cons by auto
qed simp

lemma sig_match: "length sig = 4 \<Longrightarrow> 0 \<notin> set (lit sig) \<Longrightarrow> strncmp_lit m p (lit sig) 4 = 0 \<longleftrightarrow> has_sig m sig p"
  using strncmp_lit_eq [of "lit sig" m p] by (simp add: has_sig_def)

section \<open>The walk over the tables\<close>

lemma said: "serial_ready s \<Longrightarrow> render f args = Some out \<Longrightarrow> \<exists>t. printf f args s = Inr ((), s\<lparr>trace := t\<rparr>)"
  using printf_returns [of s f args out] by blast

lemma lprint_loop_returns: "serial_ready s \<Longrightarrow> \<exists>t. lprint_loop p n i s = Inr ((), s\<lparr>trace := t\<rparr>)"
proof (induction p n i s rule: lprint_loop.induct)
  case (1 p n i s)
  show ?case
  proof (cases "int i < n \<and> mem s (p + of_nat i) \<noteq> 0")
    case True
    from outputs_putchar [OF "1.prems"] obtain es where
      es: "putchar (mem s (p + of_nat i)) s = Inr ((), s\<lparr>trace := trace s @ es\<rparr>)" by (rule outputsE)
    have "serial_ready (s\<lparr>trace := trace s @ es\<rparr>)" using "1.prems" by simp
    from "1.IH" [OF conjunct1 [OF True] conjunct2 [OF True] es this] es True show ?thesis
      by (subst lprint_loop.simps) auto
  next
    case False
    then have "lprint_loop p n i s = Inr ((), s\<lparr>trace := trace s\<rparr>)" by (subst lprint_loop.simps) auto
    then show ?thesis by blast
  qed
qed

lemma lprint_returns: "serial_ready s \<Longrightarrow> \<exists>t. lprint p n s = Inr ((), s\<lparr>trace := t\<rparr>)"
  unfolding lprint_def by (rule lprint_loop_returns)

text \<open>The RSDT as the firmware lays it out: a header and the 32-bit addresses of the tables.\<close>

definition rsdt_at :: "memory \<Rightarrow> u32 \<Rightarrow> u32 list \<Rightarrow> bool" where
  "rsdt_at m root ts \<longleftrightarrow> sdt_length m (ucast root) = of_nat (36 + 4 * length ts) \<and>
     4 * length ts < 2 ^ 31 \<and> unat root + 36 < 2 ^ 32 \<and>
     (\<forall>i < length ts. load32 m (ucast root + 36 + of_nat (4 * i)) = ts ! i)"

text \<open>The last of the tables with a signature, or \<open>d\<close> if there is none.\<close>

definition last_with :: "memory \<Rightarrow> string \<Rightarrow> u32 list \<Rightarrow> addr \<Rightarrow> addr" where
  "last_with m sig ts d = foldl (\<lambda>d t. if has_sig m sig (ucast t) then ucast t else d) d ts"

lemma acpi_entry_effect:
  assumes ready: "serial_ready s" and i: "4 * i < 2 ^ 31" and t: "load32 (mem s) (first + of_nat (4 * i)) = t"
  shows "\<exists>tr. acpi_entry first i s = Inr ((), s\<lparr>trace := tr,
    mcfgPtr := last_with (mem s) ''MCFG'' [t] (mcfgPtr s), madtPtr := last_with (mem s) ''APIC'' [t] (madtPtr s)\<rparr>)"
proof -
  define u where "u = s\<lparr>mcfgPtr := last_with (mem s) ''MCFG'' [t] (mcfgPtr s), madtPtr := last_with (mem s) ''APIC'' [t] (madtPtr s)\<rparr>"
  have sig: "strncmp_lit (mem s) p (lit ''MCFG'') 4 = 0 \<longleftrightarrow> has_sig (mem s) ''MCFG'' p"
    "strncmp_lit (mem s) p (lit ''APIC'') 4 = 0 \<longleftrightarrow> has_sig (mem s) ''APIC'' p" for p
    by (rule sig_match; simp)+
  have one: "\<not> has_sig (mem s) ''APIC'' p" if "has_sig (mem s) ''MCFG'' p" for p
    using that by (auto simp: has_sig_def dest!: spec [of _ 0])
  obtain t1 where t1: "printf (lit ''    - '') [] s = Inr ((), s\<lparr>trace := t1\<rparr>)"
    using said [OF ready render_plain, of "lit ''    - ''" "[]"] by auto
  have upd: "(if strncmp_lit (mem s) (ucast t) (lit ''MCFG'') 4 = 0 then s\<lparr>trace := t1, mcfgPtr := ucast t\<rparr>
      else if strncmp_lit (mem s) (ucast t) (lit ''APIC'') 4 = 0 then s\<lparr>trace := t1, madtPtr := ucast t\<rparr> else s\<lparr>trace := t1\<rparr>) = u\<lparr>trace := t1\<rparr>"
    unfolding sig using one by (auto simp: last_with_def u_def)
  have ready': "serial_ready (u\<lparr>trace := tr\<rparr>)" for tr using ready by (simp add: serial_ready_def u_def)
  obtain t2 where t2: "lprint (ucast t) 4 (u\<lparr>trace := t1\<rparr>) = Inr ((), u\<lparr>trace := t2\<rparr>)"
    using lprint_returns [OF ready'] by fastforce
  obtain t3 where t3: "printf (lit newline) [] (u\<lparr>trace := t2\<rparr>) = Inr ((), u\<lparr>trace := t3\<rparr>)"
    using said [OF ready' render_plain, of "lit newline" "[]"] by auto
  have small: "(2 ^ 31 \<le> 4 * i) = False" and same: "mem (s\<lparr>trace := t1\<rparr>) = mem s" using i by simp_all
  have "acpi_entry first i s = bindR (lprint (ucast t) 4 (u\<lparr>trace := t1\<rparr>)) (\<lambda>_ s. printf (lit newline) [] s)"
    by (simp only: acpi_entry_def t1 bindR_Inr Let_def small same t if_False upd)
  also have "\<dots> = Inr ((), u\<lparr>trace := t3\<rparr>)" unfolding t2 bindR_Inr t3 ..
  finally show ?thesis by (intro exI [of _ t3]) (simp add: u_def)
qed

lemma unat_of_nat32: "n < 2 ^ 32 \<Longrightarrow> unat (of_nat n :: u32) = n"
  by (simp add: unat_of_nat)

lemma ucast_nat: "unat (w :: 'a::len word) = n \<Longrightarrow> (ucast w :: 'b::len word) = of_nat n"
  by (metis of_nat_unat)

lemma sint_of_nat32: "n < 2 ^ 31 \<Longrightarrow> sint (of_nat n :: i32) = int n"
proof -
  assume "n < 2 ^ 31"
  then have "signed_take_bit 31 (int n) = int n" by (intro signed_take_bit_int_eq_self) auto
  then show ?thesis by (simp add: signed_of_nat)
qed

lemma acpi_loop_effect:
  assumes "serial_ready s" and "\<And>i. i < length ts \<Longrightarrow> load32 (mem s) (first + of_nat (4 * (k + i))) = ts ! i"
    and "4 * (k + length ts) < 2 ^ 31"
  shows "\<exists>tr. acpi_loop first (int (k + length ts)) k s = Inr ((), s\<lparr>trace := tr,
    mcfgPtr := last_with (mem s) ''MCFG'' ts (mcfgPtr s), madtPtr := last_with (mem s) ''APIC'' ts (madtPtr s)\<rparr>)"
  using assms
proof (induction ts arbitrary: k s)
  case Nil
  then show ?case by (subst acpi_loop.simps) (auto simp: last_with_def intro: exI [of _ "trace s"])
next
  case (Cons t ts)
  have t: "load32 (mem s) (first + of_nat (4 * k)) = t" using Cons.prems(2) [of 0] by simp
  have k: "4 * k < 2 ^ 31" using Cons.prems(3) by simp
  from acpi_entry_effect [OF Cons.prems(1) k t] obtain tr where e: "acpi_entry first k s = Inr ((), s\<lparr>trace := tr,
    mcfgPtr := last_with (mem s) ''MCFG'' [t] (mcfgPtr s), madtPtr := last_with (mem s) ''APIC'' [t] (madtPtr s)\<rparr>)" by blast
  let ?s = "s\<lparr>trace := tr, mcfgPtr := last_with (mem s) ''MCFG'' [t] (mcfgPtr s), madtPtr := last_with (mem s) ''APIC'' [t] (madtPtr s)\<rparr>"
  have "\<exists>tr'. acpi_loop first (int (Suc k + length ts)) (Suc k) ?s = Inr ((), ?s\<lparr>trace := tr',
    mcfgPtr := last_with (mem ?s) ''MCFG'' ts (mcfgPtr ?s), madtPtr := last_with (mem ?s) ''APIC'' ts (madtPtr ?s)\<rparr>)"
  proof (rule Cons.IH)
    show "serial_ready ?s" using Cons.prems(1) by (simp add: serial_ready_def)
    show "load32 (mem ?s) (first + of_nat (4 * (Suc k + i))) = ts ! i" if "i < length ts" for i
      using Cons.prems(2) [of "Suc i"] that by simp
    show "4 * (Suc k + length ts) < 2 ^ 31" using Cons.prems(3) by simp
  qed
  moreover have "acpi_loop first (int (k + length (t # ts))) k s = acpi_loop first (int (Suc k + length ts)) (Suc k) ?s"
    by (subst acpi_loop.simps) (simp add: e)
  ultimately show ?case by (auto simp: last_with_def)
qed

lemma EnumerateACPITables_effect:
  assumes "serial_ready s" and "rsdt_at (mem s) root ts"
  shows "\<exists>tr. EnumerateACPITables root s = Inr ((), s\<lparr>trace := tr,
    mcfgPtr := last_with (mem s) ''MCFG'' ts (mcfgPtr s), madtPtr := last_with (mem s) ''APIC'' ts (madtPtr s)\<rparr>)"
proof -
  have len: "4 * length ts < 2 ^ 31" using assms(2) by (simp add: rsdt_at_def)
  have "sdt_length (mem s) (ucast root) = of_nat (36 + 4 * length ts)" using assms(2) unfolding rsdt_at_def by blast
  moreover have "unat (of_nat (36 + 4 * length ts) :: u32) = 36 + 4 * length ts" by (rule unat_of_nat32) (use len in simp)
  ultimately have "(ucast (sdt_length (mem s) (ucast root)) :: u64) = of_nat (36 + 4 * length ts)" by (metis ucast_nat)
  then have "(ucast (sdt_length (mem s) (ucast root)) - 36 :: u64) = of_nat (4 * length ts)" by simp
  moreover have "unat (of_nat (4 * length ts) :: u64) = 4 * length ts" by (rule unat_of_nat64) (use len in simp)
  then have "(of_nat (4 * length ts) div 4 :: u64) = of_nat (length ts)"
    by (simp only: word_unat_eq_iff unat_div) (use len in \<open>simp add: unat_of_nat64\<close>)
  moreover have "(ucast (of_nat (length ts) :: u64) :: i32) = of_nat (length ts)"
    by (rule ucast_nat) (use len in \<open>simp add: unat_of_nat64\<close>)
  ultimately have entries: "sint (ucast ((ucast (sdt_length (mem s) (ucast root)) - 36 :: u64) div 4) :: i32) = int (length ts)"
    using len by (simp add: sint_of_nat32)
  have "unat (root + 36) = unat root + 36"
    using assms(2) by (simp add: rsdt_at_def unat_plus_if_size word_size)
  then have "(ucast (root + 36) :: addr) = of_nat (unat root + 36)" by (rule ucast_nat)
  then have first: "(ucast (root + 36) :: addr) = ucast root + 36" by simp
  obtain t1 where t1: "printf (lit (''ACPI system table entries: '' @ newline)) [] s = Inr ((), s\<lparr>trace := t1\<rparr>)"
    using said [OF assms(1) render_plain, of "lit (''ACPI system table entries: '' @ newline)" "[]"] by auto
  have "\<exists>tr. acpi_loop (ucast root + 36) (int (0 + length ts)) 0 (s\<lparr>trace := t1\<rparr>) = Inr ((), (s\<lparr>trace := t1\<rparr>)\<lparr>trace := tr,
    mcfgPtr := last_with (mem (s\<lparr>trace := t1\<rparr>)) ''MCFG'' ts (mcfgPtr (s\<lparr>trace := t1\<rparr>)),
    madtPtr := last_with (mem (s\<lparr>trace := t1\<rparr>)) ''APIC'' ts (madtPtr (s\<lparr>trace := t1\<rparr>))\<rparr>)"
    by (rule acpi_loop_effect) (use assms in \<open>simp_all add: rsdt_at_def\<close>)
  then show ?thesis unfolding EnumerateACPITables_def Let_def t1 bindR_Inr entries first by simp
qed

lemma InitializeACPI_messages:
  assumes "serial_ready s" and "rsdp \<noteq> 0"
  shows "\<exists>t. InitializeACPI rsdp s =
    (if rsdp_rsdt (mem s) rsdp = 0
     then panic ''System unsupported -- No ACPI support. Please make sure your hardware or virtualizer has proper support for ACPI.'' (s\<lparr>trace := t\<rparr>)
     else if \<not> has_sig (mem s) ''RSDT'' (ucast (rsdp_rsdt (mem s) rsdp)) then panic ''RSDT signature failed.'' (s\<lparr>trace := t\<rparr>)
     else EnumerateACPITables (rsdp_rsdt (mem s) rsdp) (s\<lparr>trace := t\<rparr>))"
proof -
  have plain: "\<exists>t'. printf (lit f) [] (s\<lparr>trace := t\<rparr>) = Inr ((), s\<lparr>trace := t'\<rparr>)" if "of_char (CHR ''%'') \<notin> set (lit f)" for f t
    using said [of "s\<lparr>trace := t\<rparr>" "lit f" "[]"] render_plain [OF that] assms(1) by fastforce
  obtain t1 where t1: "printf (lit (''ACPI Driver: Initializing ACPI.'' @ newline)) [] s = Inr ((), s\<lparr>trace := t1\<rparr>)"
    using plain [of "''ACPI Driver: Initializing ACPI.'' @ newline" "trace s"] by auto
  obtain t2 where t2: "printf (lit ''    - OEM: '') [] (s\<lparr>trace := t1\<rparr>) = Inr ((), s\<lparr>trace := t2\<rparr>)"
    using plain [of "''    - OEM: ''" t1] by auto
  obtain t3 where t3: "lprint (rsdp_oemid rsdp) 6 (s\<lparr>trace := t2\<rparr>) = Inr ((), s\<lparr>trace := t3\<rparr>)"
    using lprint_returns [of "s\<lparr>trace := t2\<rparr>" "rsdp_oemid rsdp" 6] assms(1) by auto
  obtain t4 where t4: "printf (lit newline) [] (s\<lparr>trace := t3\<rparr>) = Inr ((), s\<lparr>trace := t4\<rparr>)"
    using plain [of newline t3] by auto
  have "render (lit (''    - ACPI Revision: %s'' @ newline @ newline)) [Str v] = Some (lit ''    - ACPI Revision: '' @ v @ [10, 10])" for v by simp
  from said [OF _ this, of "s\<lparr>trace := t4\<rparr>"] assms(1)
  have "\<exists>t5. printf (lit (''    - ACPI Revision: %s'' @ newline @ newline)) [Str v] (s\<lparr>trace := t4\<rparr>) = Inr ((), s\<lparr>trace := t5\<rparr>)" for v by fastforce
  then obtain t5 where t5: "printf (lit (''    - ACPI Revision: %s'' @ newline @ newline))
    [Str (lit (if rsdp_revision (mem (s\<lparr>trace := t4\<rparr>)) rsdp \<noteq> 0 then ''> 1.0 (versions 2.0 through 6.1)'' else ''1.0''))] (s\<lparr>trace := t4\<rparr>) =
    Inr ((), s\<lparr>trace := t5\<rparr>)" by blast
  have sig: "strncmp_lit m p (lit ''RSDT'') 4 = 0 \<longleftrightarrow> has_sig m ''RSDT'' p" for m p by (rule sig_match) simp_all
  have same: "mem (s\<lparr>trace := t5\<rparr>) = mem s" and nz: "(rsdp = 0) = False" using assms(2) by simp_all
  show ?thesis
    by (rule exI [of _ t5]) (simp only: InitializeACPI_def nz if_False t1 t2 t3 t4 t5 bindR_Inr Let_def sig same)
qed

section \<open>A small system\<close>

text \<open>An RSDT with two tables, an MCFG and a MADT; the signatures are stored as little-endian words.\<close>

definition demo_acpi :: acpi where
  "demo_acpi = keyboard.extend (demo_keyboard\<lparr>mem := store32 (store32 (store32 (store32 (store32 (store32 (store32 (\<lambda>_. 0)
     0x600010 0x700000) 0x700000 0x54445352) 0x700004 44) 0x700024 0x710000) 0x700028 0x720000) 0x710000 0x4746434D) 0x720000 0x43495041\<rparr>)
     (acpi.fields 0 0)"

lemma demo_acpi_mem: "serial_ready demo_acpi" "rsdp_rsdt (mem demo_acpi) 0x600000 = 0x700000"
  "has_sig (mem demo_acpi) ''RSDT'' 0x700000" "rsdt_at (mem demo_acpi) 0x700000 [0x710000, 0x720000]"
  "last_with (mem demo_acpi) ''MCFG'' [0x710000, 0x720000] 0 = 0x710000" "last_with (mem demo_acpi) ''APIC'' [0x710000, 0x720000] 0 = 0x720000"
proof -
  show "serial_ready demo_acpi"
    by (simp add: demo_acpi_def demo_keyboard_def keyboard.defs ramdisk.defs acpi.defs demo_rd_def serial_ready_def)
  have m: "mem demo_acpi = store32 (store32 (store32 (store32 (store32 (store32 (store32 (\<lambda>_. 0)
     0x600010 0x700000) 0x700000 0x54445352) 0x700004 44) 0x700024 0x710000) 0x700028 0x720000) 0x710000 0x4746434D) 0x720000 0x43495041"
    by (simp add: demo_acpi_def keyboard.defs acpi.defs)
  show "rsdp_rsdt (mem demo_acpi) 0x600000 = 0x700000" by (simp add: m rsdp_rsdt_def load_store_away)
  have l: "load32 (mem demo_acpi) 0x700004 = 44" "load32 (mem demo_acpi) 0x700024 = 0x710000" "load32 (mem demo_acpi) 0x700028 = 0x720000"
    by (simp_all add: m load_store_away)
  show "rsdt_at (mem demo_acpi) 0x700000 [0x710000, 0x720000]"
    by (auto simp: rsdt_at_def sdt_length_def l less_Suc_eq)
  have sig: "has_sig m sig p \<longleftrightarrow> m p = of_char (sig ! 0) \<and> m (p + 1) = of_char (sig ! 1) \<and> m (p + 2) = of_char (sig ! 2) \<and> m (p + 3) = of_char (sig ! 3)"
    if "length sig = 4" for m sig p using that by (simp add: has_sig_def numeral_eq_Suc less_Suc_eq all_conj_distrib)
  show "has_sig (mem demo_acpi) ''RSDT'' 0x700000"
    by (subst sig) (simp_all add: m store_le_def drop_bit_eq_div unsigned_minus_1_eq_mask mask_eq_exp_minus_1)
  show "last_with (mem demo_acpi) ''MCFG'' [0x710000, 0x720000] 0 = 0x710000" "last_with (mem demo_acpi) ''APIC'' [0x710000, 0x720000] 0 = 0x720000"
    by (simp_all add: last_with_def sig m store_le_def drop_bit_eq_div unsigned_minus_1_eq_mask mask_eq_exp_minus_1)
qed

section \<open>Properties\<close>

text \<open>
  C29: with a valid RSDP and RSDT, \<open>InitializeACPI\<close> returns; \<open>mcfgPtr\<close> then points to the last table of
  the RSDT with the signature MCFG and \<open>madtPtr\<close> to the last with the signature APIC, each
  unchanged if there is none, and nothing but the trace has changed besides.
\<close>

theorem acpi_finds_tables:
  assumes "serial_ready s" and "rsdp \<noteq> 0" and "rsdp_rsdt (mem s) rsdp = root" and "root \<noteq> 0"
    and "has_sig (mem s) ''RSDT'' (ucast root)" and "rsdt_at (mem s) root ts"
  shows "\<exists>tr. InitializeACPI rsdp s = Inr ((), s\<lparr>trace := tr,
    mcfgPtr := last_with (mem s) ''MCFG'' ts (mcfgPtr s), madtPtr := last_with (mem s) ''APIC'' ts (madtPtr s)\<rparr>)"
proof -
  from InitializeACPI_messages [OF assms(1,2)] assms(3-5) obtain t where
    "InitializeACPI rsdp s = EnumerateACPITables root (s\<lparr>trace := t\<rparr>)" by auto
  with EnumerateACPITables_effect [of "s\<lparr>trace := t\<rparr>" root ts] assms(1,6) show ?thesis by auto
qed

theorem acpi_finds_tables_witness:
  "\<exists>s'. InitializeACPI 0x600000 demo_acpi = Inr ((), s') \<and> GetMCFG s' = 0x710000 \<and> GetMADT s' = 0x720000"
proof -
  have z: "mcfgPtr demo_acpi = 0" "madtPtr demo_acpi = 0" by (simp_all add: demo_acpi_def keyboard.defs acpi.defs)
  from acpi_finds_tables [OF demo_acpi_mem(1) _ demo_acpi_mem(2)] demo_acpi_mem(3,4) obtain tr where
    "InitializeACPI 0x600000 demo_acpi = Inr ((), demo_acpi\<lparr>trace := tr,
      mcfgPtr := last_with (mem demo_acpi) ''MCFG'' [0x710000, 0x720000] 0, madtPtr := last_with (mem demo_acpi) ''APIC'' [0x710000, 0x720000] 0\<rparr>)"
    by (auto simp: z)
  then show ?thesis by (simp add: demo_acpi_mem(5,6) GetMCFG_def GetMADT_def)
qed

text \<open>
  Without an RSDP, without an RSDT or with one whose signature is wrong the kernel halts
  with a message that says so; no table is looked at.
\<close>

theorem acpi_rejects:
  assumes "serial_ready s"
  shows "(\<exists>s'. InitializeACPI 0 s = Inl (Panicked ''RSD PTR == 0. Unable to initialize ACPI.'', s')) \<and>
    (rsdp \<noteq> 0 \<and> rsdp_rsdt (mem s) rsdp \<noteq> 0 \<and> \<not> has_sig (mem s) ''RSDT'' (ucast (rsdp_rsdt (mem s) rsdp)) \<longrightarrow>
      (\<exists>s'. InitializeACPI rsdp s = Inl (Panicked ''RSDT signature failed.'', s'))) \<and>
    (rsdp \<noteq> 0 \<and> rsdp_rsdt (mem s) rsdp = 0 \<longrightarrow> (\<exists>msg s'. InitializeACPI rsdp s = Inl (Panicked msg, s')))"
proof (intro conjI impI)
  have halts: "\<exists>s'. (panic msg (s\<lparr>trace := t\<rparr>) :: (unit, 'a acpi_scheme) res) = Inl (Panicked msg, s')" for msg t
    using panic_halts [of "s\<lparr>trace := t\<rparr>" msg] assms by auto
  show "\<exists>s'. InitializeACPI 0 s = Inl (Panicked ''RSD PTR == 0. Unable to initialize ACPI.'', s')"
    using halts [of _ "trace s"] by (simp add: InitializeACPI_def)
  show "\<exists>s'. InitializeACPI rsdp s = Inl (Panicked ''RSDT signature failed.'', s')"
    if "rsdp \<noteq> 0 \<and> rsdp_rsdt (mem s) rsdp \<noteq> 0 \<and> \<not> has_sig (mem s) ''RSDT'' (ucast (rsdp_rsdt (mem s) rsdp))"
    using InitializeACPI_messages [OF assms] that halts by fastforce
  show "\<exists>msg s'. InitializeACPI rsdp s = Inl (Panicked msg, s')" if "rsdp \<noteq> 0 \<and> rsdp_rsdt (mem s) rsdp = 0"
    using InitializeACPI_messages [OF assms] that halts by fastforce
qed

theorem acpi_rejects_witness:
  "(\<exists>s'. InitializeACPI 0 demo_acpi = Inl (Panicked ''RSD PTR == 0. Unable to initialize ACPI.'', s'))"
  using acpi_rejects [OF demo_acpi_mem(1), of "0x600000"] by blast

end
