(* ===== verification/Apic.thy ===== *)
theory Apic
  imports Acpi
begin

text \<open>
  The interrupt controllers, \<open>drivers/apic/apic.c\<close> and \<open>apic.h\<close>: the I/O APIC behind an index and a
  data register, and the local APIC. Their registers are memory-mapped; what a read returns
  is a function of all accesses so far, a parameter of the state.
\<close>

section \<open>State\<close>

record apic = acpi +
  localAPIC :: addr
  ioAPIC :: addr
  mmio :: "event list \<Rightarrow> addr \<Rightarrow> u32"

definition mmio_out :: "addr \<Rightarrow> u32 \<Rightarrow> 'z apic_scheme \<Rightarrow> 'z apic_scheme" where
  "mmio_out a v s = emit (MmioW a v) s"

definition mmio_in :: "addr \<Rightarrow> 'z apic_scheme \<Rightarrow> u32 \<times> 'z apic_scheme" where
  "mmio_in a s = (let v = mmio s (trace s) a in (v, emit (MmioR a v) s))"

definition IOAPICVer_MaxRedir :: u32 where "IOAPICVer_MaxRedir = 0x01"
definition IOAPICRedirEntriesBase :: u32 where "IOAPICRedirEntriesBase = 0x10"

text \<open>\<open>struct IOAPICRedirectionEntry\<close>, a bit field of 64 bits, and its packing.\<close>

record redirection =
  InterruptVector :: u8
  DeliveryMode :: "3 word"
  DestinationMode :: "1 word"
  Busy :: "1 word"
  Polarity :: "1 word"
  LTIStatus :: "1 word"
  TriggerMode :: "1 word"
  InterruptMask :: "1 word"
  Reserved :: "39 word"
  Destination :: u8

definition redir_raw :: "redirection \<Rightarrow> u64" where
  "redir_raw e =
     ucast (InterruptVector e) OR push_bit 8 (ucast (DeliveryMode e)) OR push_bit 11 (ucast (DestinationMode e)) OR
     push_bit 12 (ucast (Busy e)) OR push_bit 13 (ucast (Polarity e)) OR push_bit 14 (ucast (LTIStatus e)) OR
     push_bit 15 (ucast (TriggerMode e)) OR push_bit 16 (ucast (InterruptMask e)) OR push_bit 17 (ucast (Reserved e)) OR
     push_bit 56 (ucast (Destination e))"

definition redir_of :: "u64 \<Rightarrow> redirection" where
  "redir_of v = \<lparr>InterruptVector = ucast v, DeliveryMode = ucast (drop_bit 8 v), DestinationMode = ucast (drop_bit 11 v),
     Busy = ucast (drop_bit 12 v), Polarity = ucast (drop_bit 13 v), LTIStatus = ucast (drop_bit 14 v),
     TriggerMode = ucast (drop_bit 15 v), InterruptMask = ucast (drop_bit 16 v), Reserved = ucast (drop_bit 17 v),
     Destination = ucast (drop_bit 56 v)\<rparr>"

section \<open>The I/O APIC\<close>

definition IOAPICRead :: "addr \<Rightarrow> u32 \<Rightarrow> 'z apic_scheme \<Rightarrow> u32 \<times> 'z apic_scheme" where
  "IOAPICRead ioapicBase reg s = mmio_in (ioapicBase + 16) (mmio_out ioapicBase (reg AND 0xff) s)"

definition IOAPICWrite :: "addr \<Rightarrow> u32 \<Rightarrow> u32 \<Rightarrow> 'z apic_scheme \<Rightarrow> 'z apic_scheme" where
  "IOAPICWrite ioapicBase reg v s = mmio_out (ioapicBase + 16) v (mmio_out ioapicBase (reg AND 0xff) s)"

definition IOAPICReadRedirectionEntry :: "addr \<Rightarrow> u32 \<Rightarrow> 'z apic_scheme \<Rightarrow> redirection \<times> 'z apic_scheme" where
  "IOAPICReadRedirectionEntry ioapicBase offset s =
     (if offset mod 2 \<noteq> 0 then (redir_of 0, s)
      else
        let (spl0, s) = IOAPICRead ioapicBase (IOAPICRedirEntriesBase + offset) s;
            (spl1, s) = IOAPICRead ioapicBase (IOAPICRedirEntriesBase + (offset + 1)) s
        in (redir_of (push_bit 32 (ucast spl1) OR ucast spl0), s))"

definition IOAPICWriteRedirectionEntry :: "addr \<Rightarrow> u32 \<Rightarrow> redirection \<Rightarrow> 'z apic_scheme \<Rightarrow> KSTATUS \<times> 'z apic_scheme" where
  "IOAPICWriteRedirectionEntry ioapicBase offset v s =
     (if offset mod 2 \<noteq> 0 then (KSTATUS_FAIL, s)
      else
        let raw = redir_raw v;
            s = IOAPICWrite ioapicBase (IOAPICRedirEntriesBase + offset) (ucast raw) s;
            s = IOAPICWrite ioapicBase (IOAPICRedirEntriesBase + (offset + 1)) (ucast (drop_bit 32 raw)) s
        in (KSTATUS_SUCCESS, s))"

definition IOAPICRegisterIRQ :: "u8 \<Rightarrow> u8 \<Rightarrow> 'z apic_scheme \<Rightarrow> 'z apic_scheme" where
  "IOAPICRegisterIRQ vector pin s =
     snd (IOAPICWriteRedirectionEntry (ioAPIC s) (ucast pin * 2)
       \<lparr>InterruptVector = vector, DeliveryMode = 0, DestinationMode = 0, Busy = 0, Polarity = 0, LTIStatus = 0,
        TriggerMode = 0, InterruptMask = 0, Reserved = 0, Destination = 0\<rparr> s)"

section \<open>The local APIC and the MADT\<close>

definition LAPIC_EOI :: "'z apic_scheme \<Rightarrow> 'z apic_scheme" where
  "LAPIC_EOI s = mmio_out (localAPIC s + 0x0B0) 0 s"

text \<open>
  The fields read: of \<open>struct MADT\<close> (46 bytes) \<open>Length\<close> at 4, \<open>LAPICBase\<close> at 36, the first entry at 44;
  of an entry \<open>Type\<close> at 0 and \<open>Length\<close> at 1; of an I/O APIC entry \<open>IOAPICAddress\<close> at 4 and
  \<open>GlobalSystemInterruptBase\<close> at 8.
\<close>

definition ic_type :: "memory \<Rightarrow> addr \<Rightarrow> u8" where "ic_type m p = m p"
definition ic_length :: "memory \<Rightarrow> addr \<Rightarrow> u8" where "ic_length m p = m (p + 1)"
definition ic_address :: "memory \<Rightarrow> addr \<Rightarrow> u32" where "ic_address m p = load32 m (p + 4)"
definition ic_gsi :: "memory \<Rightarrow> addr \<Rightarrow> u32" where "ic_gsi m p = load32 m (p + 8)"

text \<open>One pass of the loop over the MADT: the messages, and \<open>ioAPIC\<close> for an entry of type 1.\<close>

definition madt_entry :: "addr \<Rightarrow> 'z apic_scheme \<Rightarrow> (unit, 'z apic_scheme) res" where
  "madt_entry cur s =
     (if ic_type (mem s) cur = 1
      then
        bindR (printf (lit (''[DEBUG] Found I/O APIC'' @ newline)) [] s) (\<lambda>_ s.
        let s = s\<lparr>ioAPIC := ucast (ic_address (mem s) cur)\<rparr> in
        bindR (printf (lit (''[DEBUG] I/O APIC Base: 0x%x'' @ newline)) [Num (ucast (ic_address (mem s) cur))] s) (\<lambda>_ s.
        printf (lit (''[DEBUG] System interrupt base: 0x%x'' @ newline)) [Num (ucast (ic_gsi (mem s) cur))] s))
      else printf (lit (''[DEBUG] MADT entry: Type: 0x%x'' @ newline)) [Num (ucast (ic_type (mem s) cur))] s)"

text \<open>
  The loop: \<open>length\<close> is a 32-bit word and may wrap around; the variable \<open>ioapic\<close> is the last entry of
  type 1 so far. \<open>None\<close> is a walk that does not end.
\<close>

partial_function (option) madt_loop ::
    "addr \<Rightarrow> u32 \<Rightarrow> addr \<Rightarrow> 'z apic_scheme \<Rightarrow> (addr, 'z apic_scheme) res option" where
  "madt_loop cur len ioapic s =
     (if 0 < len
      then (case madt_entry cur s of
          Inl e \<Rightarrow> Some (Inl e)
        | Inr (_, s) \<Rightarrow>
            madt_loop (cur + ucast (ic_length (mem s) cur)) (len - ucast (ic_length (mem s) cur))
              (if ic_type (mem s) cur = 1 then cur else ioapic) s)
      else Some (Inr (ioapic, s)))"

definition InitializeAPIC :: "'z apic_scheme \<Rightarrow> (unit, 'z apic_scheme) res" where
  "InitializeAPIC s =
     (let madt = GetMADT s in
      if madt = 0 then Inl (NullDeref, s)
      else
        let s = s\<lparr>localAPIC := ucast (load32 (mem s) (madt + 36))\<rparr>;
            len = ucast ((ucast (load32 (mem s) (madt + 4)) :: u64) - 46 + 2)
        in bindR (case madt_loop (madt + 44) len 0 s of None \<Rightarrow> Inl (Endless, s) | Some r \<Rightarrow> r) (\<lambda>ioapic s.
           if ioapic = 0 then printf (lit (''[DEBUG] I/O APIC not available'' @ newline)) [] s
           else
             let (entries, s) = IOAPICRead (ucast (ic_address (mem s) ioapic)) IOAPICVer_MaxRedir s;
                 pin_count = (drop_bit 16 entries AND 0xff) + 1
             in printf (lit (''[DEBUG] I/O APIC pin count: %d'' @ newline)) [Num (ucast pin_count)] s))"

section \<open>Redirection entries\<close>

lemma redir_of_raw: "redir_of (redir_raw e) = e"
proof -
  have w: "w = v" if "\<And>i. i < LENGTH('a) \<Longrightarrow> bit w i = bit v i" for w v :: "'a::len word"
    using that by (rule bit_word_eqI)
  show ?thesis
    by (cases e) (simp add: redir_of_def redir_raw_def; (intro conjI)?; rule w; auto simp: bit_simps dest: bit_imp_le_length)
qed

text \<open>
  The I/O APIC as its data sheet describes it: a write to the index register selects a
  register, a write to the data register stores into the selected one, and a read of the data
  register returns it, except for the read-only bits 12 and 14 of the low word of an entry.
\<close>

fun ioapic_step :: "addr \<Rightarrow> u32 \<times> (u32 \<Rightarrow> u32) \<Rightarrow> event \<Rightarrow> u32 \<times> (u32 \<Rightarrow> u32)" where
  "ioapic_step base (sel, regs) (MmioW a v) =
     (if a = base then (v, regs) else if a = base + 16 then (sel, regs(sel := v)) else (sel, regs))"
| "ioapic_step base (sel, regs) e = (sel, regs)"

definition ioapic_state :: "addr \<Rightarrow> event list \<Rightarrow> u32 \<times> (u32 \<Rightarrow> u32)" where
  "ioapic_state base t = foldl (ioapic_step base) (0, \<lambda>_. 0) t"

definition read_only :: "u32 \<Rightarrow> u32" where
  "read_only r = (if 0x10 \<le> r \<and> even r then 0x5000 else 0)"

definition ioapic_device :: "addr \<Rightarrow> (event list \<Rightarrow> addr \<Rightarrow> u32) \<Rightarrow> bool" where
  "ioapic_device base f \<longleftrightarrow> (\<forall>t. let (sel, regs) = ioapic_state base t in
     f t (base + 16) AND NOT (read_only sel) = regs sel AND NOT (read_only sel))"

lemma ioapic_state_append: "ioapic_state base (t @ u) = foldl (ioapic_step base) (ioapic_state base t) u"
  by (simp add: ioapic_state_def)

lemma base_distinct: "base + 16 \<noteq> (base :: addr)"
  by simp

lemma IOAPICWrite_state:
  assumes "ioapic_state base (trace s) = (sel, regs)"
  shows "ioapic_state base (trace (IOAPICWrite base reg v s)) = (reg AND 0xff, regs(reg AND 0xff := v))"
  using assms base_distinct [of base]
  by (simp add: IOAPICWrite_def mmio_out_def ioapic_state_append)

lemma IOAPICRead_state:
  assumes "ioapic_state base (trace s) = (sel, regs)" and "ioapic_device base (mmio s)"
  shows "\<exists>v t. IOAPICRead base reg s = (v, s\<lparr>trace := t\<rparr>) \<and> ioapic_state base t = (reg AND 0xff, regs) \<and>
    v AND NOT (read_only (reg AND 0xff)) = regs (reg AND 0xff) AND NOT (read_only (reg AND 0xff))"
proof -
  let ?t = "trace s @ [MmioW base (reg AND 0xff)]"
  have st: "ioapic_state base ?t = (reg AND 0xff, regs)" using assms(1) by (simp add: ioapic_state_append)
  have "IOAPICRead base reg s = (mmio s ?t (base + 16), s\<lparr>trace := ?t @ [MmioR (base + 16) (mmio s ?t (base + 16))]\<rparr>)"
    by (simp add: IOAPICRead_def mmio_in_def mmio_out_def emit_def Let_def)
  moreover have "ioapic_state base (?t @ [MmioR (base + 16) w]) = (reg AND 0xff, regs)" for w
    unfolding ioapic_state_append [of base ?t] st by simp
  moreover have "mmio s ?t (base + 16) AND NOT (read_only (reg AND 0xff)) = regs (reg AND 0xff) AND NOT (read_only (reg AND 0xff))"
    using assms(2) st unfolding ioapic_device_def by (auto dest!: spec [of _ ?t])
  ultimately show ?thesis by blast
qed

lemma status_bits: "bit (0x5000 :: u32) i \<longleftrightarrow> i = 12 \<or> i = 14"
proof -
  have "(0x5000 :: u32) = set_bit 12 (set_bit 14 0)" by (simp add: set_bit_eq_or push_bit_eq_mult)
  then have "bit (0x5000 :: u32) i \<longleftrightarrow> bit (set_bit 12 (set_bit 14 0) :: u32) i" by (rule arg_cong)
  also have "\<dots> \<longleftrightarrow> i = 12 \<or> i = 14" unfolding bit_set_bit_iff by auto
  finally show ?thesis .
qed

lemma redir_of_status:
  assumes "lo AND NOT k = lo' AND NOT (k :: u32)" and "\<And>i. bit k i \<Longrightarrow> i = 12 \<or> i = 14"
  shows "(redir_of (push_bit 32 (ucast hi) OR ucast lo))\<lparr>Busy := 0, LTIStatus := 0\<rparr> =
    (redir_of (push_bit 32 (ucast (hi :: u32)) OR ucast lo'))\<lparr>Busy := 0, LTIStatus := 0\<rparr>"
proof -
  have same: "bit lo i = bit lo' i" if "i \<noteq> 12" "i \<noteq> 14" for i
  proof -
    have "bit (lo AND NOT k) i = bit (lo' AND NOT k) i" using assms(1) by simp
    with that assms(2) [of i] show ?thesis by (cases "i < 32") (auto simp: bit_and_iff bit_not_iff dest: bit_imp_le_length)
  qed
  show ?thesis
    by (simp add: redir_of_def; (intro conjI)?; rule bit_word_eqI; auto simp: bit_simps same)
qed

lemma split_raw: "push_bit 32 (ucast (ucast (drop_bit 32 v) :: u32)) OR ucast (ucast v :: u32) = (v :: u64)"
  by (rule bit_word_eqI) (auto simp: bit_simps)

text \<open>The register numbers of an entry: the low word has an even one, the high word the next.\<close>

lemma entry_regs:
  assumes "offset mod 2 = 0" and "offset < 0xF0"
  shows "(IOAPICRedirEntriesBase + offset) AND 0xff = 0x10 + offset" "(IOAPICRedirEntriesBase + (offset + 1)) AND 0xff = 0x11 + offset"
    "read_only (0x10 + offset) = 0x5000" "read_only (0x11 + offset) = 0"
proof -
  have m: "x AND 0xff = x" if "unat x < 256" for x :: u32
  proof -
    have "x AND 0xff = take_bit 8 x" by (simp add: take_bit_eq_mask mask_eq_exp_minus_1)
    also have "\<dots> = x" using that by (simp add: word_unat_eq_iff unsigned_take_bit_eq take_bit_nat_eq_self)
    finally show ?thesis .
  qed
  have o: "unat offset < 0xF0" "unat offset mod 2 = 0" using assms by (simp_all add: word_less_nat_alt word_unat_eq_iff unat_mod)
  then have "unat offset < 0xEF" by presburger
  then have u: "unat (0x10 + offset) = 0x10 + unat offset" "unat (0x11 + offset) = 0x11 + unat offset"
    by (simp_all add: unat_plus_if_size word_size)
  show "(IOAPICRedirEntriesBase + offset) AND 0xff = 0x10 + offset" "(IOAPICRedirEntriesBase + (offset + 1)) AND 0xff = 0x11 + offset"
    using m [of "0x10 + offset"] m [of "0x11 + offset"] u \<open>unat offset < 0xEF\<close> by (simp_all add: IOAPICRedirEntriesBase_def add.commute)
  have "even x \<longleftrightarrow> unat x mod 2 = 0" for x :: u32
    by (simp add: even_iff_mod_2_eq_zero word_unat_eq_iff unat_mod)
  then have "even (0x10 + offset)" "odd (0x11 + offset)" using o(2) u by presburger+
  then show "read_only (0x10 + offset) = 0x5000" "read_only (0x11 + offset) = 0"
    using u by (simp_all add: read_only_def word_le_nat_alt)
qed

lemma redirection_read_back:
  assumes dev: "ioapic_device base (mmio s)" and even: "offset mod 2 = 0" and range: "offset < 0xF0"
    and w: "IOAPICWriteRedirectionEntry base offset e s = (st, s1)" and r: "IOAPICReadRedirectionEntry base offset s1 = (e', s2)"
  shows "st = KSTATUS_SUCCESS \<and> e'\<lparr>Busy := 0, LTIStatus := 0\<rparr> = e\<lparr>Busy := 0, LTIStatus := 0\<rparr>"
proof -
  note regs = entry_regs [OF even range]
  let ?a = "IOAPICRedirEntriesBase + offset" and ?b = "IOAPICRedirEntriesBase + (offset + 1)"
  let ?lo = "ucast (redir_raw e) :: u32" and ?hi = "ucast (drop_bit 32 (redir_raw e)) :: u32"
  obtain sel rs where st0: "ioapic_state base (trace s) = (sel, rs)" by (cases "ioapic_state base (trace s)")
  have s1: "st = KSTATUS_SUCCESS" "s1 = IOAPICWrite base ?b ?hi (IOAPICWrite base ?a ?lo s)"
    using w even by (simp_all add: IOAPICWriteRedirectionEntry_def Let_def)
  have st1: "ioapic_state base (trace s1) = (0x11 + offset, rs(0x10 + offset := ?lo, 0x11 + offset := ?hi))"
    using IOAPICWrite_state [OF IOAPICWrite_state [OF st0]] s1(2) regs(1,2) by simp
  have dev1: "ioapic_device base (mmio s1)" using dev s1(2) by (simp add: IOAPICWrite_def mmio_out_def emit_def)
  have ne: "0x10 + offset \<noteq> 0x11 + offset" by simp
  from IOAPICRead_state [OF st1 dev1, of ?a] obtain lo t where lo: "IOAPICRead base ?a s1 = (lo, s1\<lparr>trace := t\<rparr>)"
    "ioapic_state base t = (0x10 + offset, rs(0x10 + offset := ?lo, 0x11 + offset := ?hi))"
    "lo AND NOT 0x5000 = ?lo AND NOT 0x5000" unfolding regs(1,3) using ne by auto
  have "ioapic_state base (trace (s1\<lparr>trace := t\<rparr>)) = (0x10 + offset, rs(0x10 + offset := ?lo, 0x11 + offset := ?hi))"
    "ioapic_device base (mmio (s1\<lparr>trace := t\<rparr>))" using lo(2) dev1 by simp_all
  from IOAPICRead_state [OF this, of ?b] obtain hi t' where hi: "IOAPICRead base ?b (s1\<lparr>trace := t\<rparr>) = (hi, s1\<lparr>trace := t'\<rparr>)" "hi = ?hi"
    unfolding regs(2,4) by auto
  have "e' = redir_of (push_bit 32 (ucast ?hi) OR ucast lo)"
    using r even lo(1) hi by (simp add: IOAPICReadRedirectionEntry_def)
  then have "e'\<lparr>Busy := 0, LTIStatus := 0\<rparr> = (redir_of (push_bit 32 (ucast ?hi) OR ucast ?lo))\<lparr>Busy := 0, LTIStatus := 0\<rparr>"
    using redir_of_status [OF lo(3)] status_bits by simp
  then show ?thesis using s1(1) by (simp add: split_raw redir_of_raw)
qed

section \<open>The walk over the MADT\<close>

text \<open>An entry of the MADT: its type, its length and the word at offset 4.\<close>

type_synonym ic = "u8 \<times> u8 \<times> u32"

fun ics_at :: "memory \<Rightarrow> addr \<Rightarrow> ic list \<Rightarrow> bool" where
  "ics_at m p [] \<longleftrightarrow> True"
| "ics_at m p ((ty, n, a) # es) \<longleftrightarrow>
     ic_type m p = ty \<and> ic_length m p = n \<and> n \<noteq> 0 \<and> ic_address m p = a \<and> ics_at m (p + ucast n) es"

definition ics_len :: "ic list \<Rightarrow> nat" where
  "ics_len es = sum_list (map (\<lambda>(ty, n, a). unat n) es)"

definition last_ioapic :: "ic list \<Rightarrow> addr \<Rightarrow> addr" where
  "last_ioapic es d = foldl (\<lambda>d (ty, n, a). if ty = 1 then ucast a else d) d es"

definition madt_at :: "memory \<Rightarrow> addr \<Rightarrow> ic list \<Rightarrow> bool" where
  "madt_at m p es \<longleftrightarrow> load32 m (p + 4) = of_nat (44 + ics_len es) \<and> 44 + ics_len es < 2 ^ 32 \<and> ics_at m (p + 44) es"

lemma madt_entry_effect:
  assumes ready: "serial_ready s"
  shows "\<exists>t. madt_entry p s = Inr ((), s\<lparr>trace := t,
    ioAPIC := (if ic_type (mem s) p = 1 then ucast (ic_address (mem s) p) else ioAPIC s)\<rparr>)"
proof (cases "ic_type (mem s) p = 1")
  case True
  obtain t1 where t1: "printf (lit (''[DEBUG] Found I/O APIC'' @ newline)) [] s = Inr ((), s\<lparr>trace := t1\<rparr>)"
    using said [OF ready render_plain, of "lit (''[DEBUG] Found I/O APIC'' @ newline)" "[]"] by auto
  define u where "u = s\<lparr>ioAPIC := ucast (ic_address (mem s) p)\<rparr>"
  have ready': "serial_ready (u\<lparr>trace := t\<rparr>)" for t using ready by (simp add: serial_ready_def u_def)
  have "\<exists>out. render (lit (''[DEBUG] I/O APIC Base: 0x%x'' @ newline)) [Num v] = Some out" for v by simp
  then obtain t2 where t2: "printf (lit (''[DEBUG] I/O APIC Base: 0x%x'' @ newline)) [Num (ucast (ic_address (mem s) p))] (u\<lparr>trace := t1\<rparr>) =
      Inr ((), u\<lparr>trace := t2\<rparr>)" using said [OF ready'] by fastforce
  have "\<exists>out. render (lit (''[DEBUG] System interrupt base: 0x%x'' @ newline)) [Num v] = Some out" for v by simp
  then obtain t3 where t3: "printf (lit (''[DEBUG] System interrupt base: 0x%x'' @ newline)) [Num (ucast (ic_gsi (mem s) p))] (u\<lparr>trace := t2\<rparr>) =
      Inr ((), u\<lparr>trace := t3\<rparr>)" using said [OF ready'] by fastforce
  have eq: "mem (s\<lparr>trace := t1\<rparr>) = mem s" "mem (u\<lparr>trace := t\<rparr>) = mem s" "s\<lparr>trace := t1, ioAPIC := ucast (ic_address (mem s) p)\<rparr> = u\<lparr>trace := t1\<rparr>" for t
    by (simp_all add: u_def)
  have "madt_entry p s = Inr ((), u\<lparr>trace := t3\<rparr>)"
    by (simp only: madt_entry_def True simp_thms if_True t1 bindR_Inr Let_def eq t2 t3)
  then show ?thesis using True by (intro exI [of _ t3]) (simp add: u_def)
next
  case False
  have "\<exists>out. render (lit (''[DEBUG] MADT entry: Type: 0x%x'' @ newline)) [Num v] = Some out" for v by simp
  then obtain t where "printf (lit (''[DEBUG] MADT entry: Type: 0x%x'' @ newline)) [Num (ucast (ic_type (mem s) p))] s = Inr ((), s\<lparr>trace := t\<rparr>)"
    using said [OF ready] by fastforce
  with False show ?thesis unfolding madt_entry_def by (intro exI [of _ t]) (simp only: if_False, simp)
qed

lemma madt_loop_walks:
  assumes "serial_ready s" and "ics_at (mem s) p es" and "ics_len es < 2 ^ 32"
  shows "\<exists>io t. madt_loop p (of_nat (ics_len es)) ioapic s = Some (Inr (io, s\<lparr>trace := t, ioAPIC := last_ioapic es (ioAPIC s)\<rparr>))"
  using assms
proof (induction es arbitrary: p ioapic s)
  case Nil
  have "madt_loop p (of_nat (ics_len [])) ioapic s = Some (Inr (ioapic, s\<lparr>trace := trace s, ioAPIC := last_ioapic [] (ioAPIC s)\<rparr>))"
    by (subst madt_loop.simps) (simp add: ics_len_def last_ioapic_def)
  then show ?case by blast
next
  case (Cons e es)
  obtain ty n a where e: "e = (ty, n, a)" by (cases e)
  have at: "ic_type (mem s) p = ty" "ic_length (mem s) p = n" "n \<noteq> 0" "ic_address (mem s) p = a" "ics_at (mem s) (p + ucast n) es"
    using Cons.prems(2) by (simp_all add: e)
  have len: "ics_len (e # es) = unat n + ics_len es" by (simp add: ics_len_def e)
  have "unat (of_nat (ics_len (e # es)) :: u32) = ics_len (e # es)" by (rule unat_of_nat32 [OF Cons.prems(3)])
  moreover have "0 < unat n" using at(3) by (simp add: unat_gt_0)
  ultimately have pos: "0 < (of_nat (ics_len (e # es)) :: u32)" by (simp add: word_less_nat_alt len)
  have rest: "of_nat (ics_len (e # es)) - ucast n = (of_nat (ics_len es) :: u32)" by (simp add: len)
  from madt_entry_effect [OF Cons.prems(1), of p, unfolded at(1,4)] obtain t where
    s1: "madt_entry p s = Inr ((), s\<lparr>trace := t, ioAPIC := (if ty = 1 then ucast a else ioAPIC s)\<rparr>)" by blast
  let ?s1 = "s\<lparr>trace := t, ioAPIC := (if ty = 1 then ucast a else ioAPIC s)\<rparr>"
  have step: "madt_loop p (of_nat (ics_len (e # es))) ioapic s =
      madt_loop (p + ucast n) (of_nat (ics_len es)) (if ty = 1 then p else ioapic) ?s1"
    using pos s1 rest at(1,2) by (subst madt_loop.simps) simp
  have "serial_ready ?s1" "ics_at (mem ?s1) (p + ucast n) es" "ics_len es < 2 ^ 32"
    using Cons.prems(1,3) at(5) len by (simp_all add: serial_ready_def)
  from Cons.IH [OF this] obtain io t' where
    "madt_loop (p + ucast n) (of_nat (ics_len es)) (if ty = 1 then p else ioapic) ?s1 =
      Some (Inr (io, ?s1\<lparr>trace := t', ioAPIC := last_ioapic es (ioAPIC ?s1)\<rparr>))" by blast
  then show ?case unfolding step by (auto simp: last_ioapic_def e)
qed

text \<open>An entry of length zero: the walk stays where it is for ever.\<close>

lemma madt_loop_stuck:
  assumes "serial_ready s" and "0 < len" and "ic_length (mem s) p = 0"
  shows "madt_loop p len ioapic s = None"
proof -
  have "\<not> (serial_ready s \<and> 0 < len \<and> ic_length (mem s) p = 0)" if "madt_loop p len ioapic s = Some r" for r
  proof (rule madt_loop.raw_induct [of "\<lambda>p len ioapic s r. \<not> (serial_ready s \<and> 0 < len \<and> ic_length (mem s) p = 0)", OF _ that])
    fix loop :: "addr \<Rightarrow> u32 \<Rightarrow> addr \<Rightarrow> 'a apic_scheme \<Rightarrow> (addr, 'a apic_scheme) res option" and p len ioapic r
      and s :: "'a apic_scheme"
    assume IH: "\<And>p len ioapic s r. loop p len ioapic s = Some r \<Longrightarrow> \<not> (serial_ready s \<and> 0 < len \<and> ic_length (mem s) p = 0)"
      and r: "(if 0 < len then (case madt_entry p s of Inl e \<Rightarrow> Some (Inl e) | Inr (_, s) \<Rightarrow>
            loop (p + ucast (ic_length (mem s) p)) (len - ucast (ic_length (mem s) p)) (if ic_type (mem s) p = 1 then p else ioapic) s)
          else Some (Inr (ioapic, s))) = Some r"
    show "\<not> (serial_ready s \<and> 0 < len \<and> ic_length (mem s) p = 0)"
    proof
      assume h: "serial_ready s \<and> 0 < len \<and> ic_length (mem s) p = 0"
      then obtain t where t: "madt_entry p s = Inr ((), s\<lparr>trace := t,
          ioAPIC := (if ic_type (mem s) p = 1 then ucast (ic_address (mem s) p) else ioAPIC s)\<rparr>)"
        using madt_entry_effect by blast
      define u where "u = s\<lparr>trace := t, ioAPIC := (if ic_type (mem s) p = 1 then ucast (ic_address (mem s) p) else ioAPIC s)\<rparr>"
      have u: "mem u = mem s" "serial_ready u" using h by (simp_all add: u_def serial_ready_def)
      have "loop p len (if ic_type (mem s) p = 1 then p else ioapic) u = Some r"
        using r t [folded u_def] h u(1) by simp
      from IH [OF this] u h show False by simp
    qed
  qed
  with assms show ?thesis by (cases "madt_loop p len ioapic s") auto
qed

lemma madt_length:
  assumes "load32 m (p + 4) = of_nat (44 + n)" and "44 + n < 2 ^ 32"
  shows "(ucast ((ucast (load32 m (p + 4)) :: u64) - 46 + 2) :: u32) = of_nat n"
proof -
  have "unat (load32 m (p + 4)) = 44 + n" unfolding assms(1) by (rule unat_of_nat32 [OF assms(2)])
  then have "(ucast (load32 m (p + 4)) :: u64) = of_nat (44 + n)" by (rule ucast_nat)
  then have "(ucast (load32 m (p + 4)) :: u64) - 46 + 2 = of_nat n" by simp
  moreover have "unat (of_nat n :: u64) = n" using assms(2) by (intro unat_of_nat64) simp
  ultimately show ?thesis by (metis ucast_nat)
qed

lemma IOAPICRead_trace: "\<exists>w t. IOAPICRead b reg s = (w, s\<lparr>trace := t\<rparr>)"
  by (simp add: IOAPICRead_def mmio_in_def mmio_out_def emit_def Let_def) blast

lemma trace_trace: "(s :: 'z apic_scheme)\<lparr>trace := a\<rparr>\<lparr>trace := b\<rparr> = s\<lparr>trace := b\<rparr>"
  by simp

lemma InitializeAPIC_returns:
  assumes "serial_ready s" and "madtPtr s \<noteq> 0" and "madt_at (mem s) (madtPtr s) es"
  shows "\<exists>t. InitializeAPIC s = Inr ((), s\<lparr>trace := t,
    localAPIC := ucast (load32 (mem s) (madtPtr s + 36)), ioAPIC := last_ioapic es (ioAPIC s)\<rparr>)"
proof -
  define u where "u = s\<lparr>localAPIC := ucast (load32 (mem s) (madtPtr s + 36))\<rparr>"
  have u: "mem u = mem s" "ioAPIC u = ioAPIC s" by (simp_all add: u_def)
  have "serial_ready u" "ics_at (mem u) (madtPtr s + 44) es" "ics_len es < 2 ^ 32"
    using assms(1,3) by (simp_all add: serial_ready_def u_def madt_at_def)
  from madt_loop_walks [OF this, of 0] obtain io t where
    walk: "madt_loop (madtPtr s + 44) (of_nat (ics_len es)) 0 u = Some (Inr (io, u\<lparr>trace := t, ioAPIC := last_ioapic es (ioAPIC s)\<rparr>))"
    unfolding u by blast
  define v where "v = u\<lparr>ioAPIC := last_ioapic es (ioAPIC s)\<rparr>"
  have v: "u\<lparr>trace := t, ioAPIC := last_ioapic es (ioAPIC s)\<rparr> = v\<lparr>trace := t\<rparr>" for t by (simp add: v_def)
  have ready: "serial_ready (v\<lparr>trace := t\<rparr>)" for t using assms(1) by (simp add: serial_ready_def v_def u_def)
  have "load32 (mem s) (madtPtr s + 4) = of_nat (44 + ics_len es)" "44 + ics_len es < 2 ^ 32"
    using assms(3) unfolding madt_at_def by blast+
  note len = madt_length [OF this]
  have "\<exists>t'. (if io = 0 then printf (lit (''[DEBUG] I/O APIC not available'' @ newline)) [] (v\<lparr>trace := t\<rparr>)
      else let (entries, s) = IOAPICRead (ucast (ic_address (mem (v\<lparr>trace := t\<rparr>)) io)) IOAPICVer_MaxRedir (v\<lparr>trace := t\<rparr>);
             pin_count = (drop_bit 16 entries AND 0xff) + 1
           in printf (lit (''[DEBUG] I/O APIC pin count: %d'' @ newline)) [Num (ucast pin_count)] s) = Inr ((), v\<lparr>trace := t'\<rparr>)"
  proof (cases "io = 0")
    case True
    with said [OF ready render_plain, of "lit (''[DEBUG] I/O APIC not available'' @ newline)" "[]"] show ?thesis by auto
  next
    case False
    obtain w t1 where w: "IOAPICRead (ucast (ic_address (mem (v\<lparr>trace := t\<rparr>)) io)) IOAPICVer_MaxRedir (v\<lparr>trace := t\<rparr>) = (w, v\<lparr>trace := t1\<rparr>)"
      using IOAPICRead_trace [of _ _ "v\<lparr>trace := t\<rparr>"] by (metis trace_trace)
    have "\<exists>out. render (lit (''[DEBUG] I/O APIC pin count: %d'' @ newline)) [Num x] = Some out" for x by simp
    then obtain t2 where t2: "printf (lit (''[DEBUG] I/O APIC pin count: %d'' @ newline)) [Num (ucast ((drop_bit 16 w AND 0xff) + 1))] (v\<lparr>trace := t1\<rparr>) =
        Inr ((), v\<lparr>trace := t2\<rparr>)" using said [OF ready] by fastforce
    show ?thesis by (intro exI [of _ t2]) (simp only: False if_False w Let_def prod.case t2)
  qed
  then obtain t' where "InitializeAPIC s = Inr ((), v\<lparr>trace := t'\<rparr>)"
    unfolding InitializeAPIC_def Let_def GetMADT_def using assms(2) len walk by (simp add: u_def [symmetric] v u) blast
  then show ?thesis by (intro exI [of _ t']) (simp add: v_def u_def)
qed

section \<open>A small system\<close>

text \<open>
  A MADT with one I/O APIC entry whose length is a parameter, and an I/O APIC at \<open>0xFEC00000\<close> that
  answers as its data sheet says.
\<close>

definition demo_apic :: "u32 \<Rightarrow> apic" where
  "demo_apic n = acpi.extend (demo_acpi\<lparr>madtPtr := 0x720000, mem := store32 (store32 (store32 (store32 (\<lambda>_. 0)
     0x720004 56) 0x720024 0xFEE00000) 0x72002C (1 + 256 * n)) 0x720030 0xFEC00000\<rparr>)
     (apic.fields 0 0 (\<lambda>t a. (\<lambda>(sel, regs). regs sel) (ioapic_state 0xFEC00000 t)))"

lemma demo_apic_mem:
  "mem (demo_apic n) = store32 (store32 (store32 (store32 (\<lambda>_. 0)
     0x720004 56) 0x720024 0xFEE00000) 0x72002C (1 + 256 * n)) 0x720030 0xFEC00000"
  "madtPtr (demo_apic n) = 0x720000" "serial_ready (demo_apic n)" "ioapic_device 0xFEC00000 (mmio (demo_apic n))"
  using demo_acpi_mem(1) by (simp_all add: demo_apic_def acpi.defs apic.defs serial_ready_def ioapic_device_def Let_def split: prod.split)

lemma demo_madt:
  "load32 (mem (demo_apic n)) 0x720004 = 56" "load32 (mem (demo_apic n)) 0x720024 = 0xFEE00000"
  "load32 (mem (demo_apic n)) 0x720030 = 0xFEC00000"
  by (simp_all add: demo_apic_mem load_store_away)

section \<open>Properties\<close>

text \<open>
  C28: on a MADT whose entries fill its length, \<open>InitializeAPIC\<close> returns; \<open>localAPIC\<close> is then the
  address from the table and \<open>ioAPIC\<close> that of the last I/O APIC entry; nothing else changes but
  the trace.
\<close>

theorem madt_walk:
  assumes "serial_ready s" and "madtPtr s \<noteq> 0" and "madt_at (mem s) (madtPtr s) es"
  shows "\<exists>t. InitializeAPIC s = Inr ((), s\<lparr>trace := t,
    localAPIC := ucast (load32 (mem s) (madtPtr s + 36)), ioAPIC := last_ioapic es (ioAPIC s)\<rparr>)"
  using assms by (rule InitializeAPIC_returns)

theorem madt_walk_witness:
  "\<exists>s'. InitializeAPIC (demo_apic 12) = Inr ((), s') \<and> localAPIC s' = 0xFEE00000 \<and> ioAPIC s' = 0xFEC00000"
proof -
  let ?es = "[(1, 12, 0xFEC00000)] :: ic list"
  have "ic_type (mem (demo_apic 12)) 0x72002C = 1" "ic_length (mem (demo_apic 12)) 0x72002C = 12"
    by (simp_all add: demo_apic_mem ic_type_def ic_length_def store_le_def drop_bit_eq_div)
  then have "madt_at (mem (demo_apic 12)) (madtPtr (demo_apic 12)) ?es"
    by (simp add: madt_at_def demo_apic_mem(2) demo_madt ics_len_def ic_address_def)
  from madt_walk [OF demo_apic_mem(3) _ this] show ?thesis
    by (auto simp: demo_apic_mem(2) demo_madt last_ioapic_def)
qed

text \<open>
  If the first entry of the MADT has length zero, \<open>InitializeAPIC\<close> does not return: the loop
  neither advances nor counts down.
\<close>

theorem madt_zero_length:
  assumes "serial_ready s" and "madtPtr s \<noteq> 0" and "sdt_length (mem s) (madtPtr s) = of_nat (44 + n)" and "0 < n" and "44 + n < 2 ^ 32"
    and "ic_length (mem s) (madtPtr s + 44) = 0"
  shows "\<exists>s'. InitializeAPIC s = Inl (Endless, s')"
proof -
  let ?s = "s\<lparr>localAPIC := ucast (load32 (mem s) (madtPtr s + 36))\<rparr>"
  have "load32 (mem s) (madtPtr s + 4) = of_nat (44 + n)" using assms(3) unfolding sdt_length_def .
  note len = madt_length [OF this assms(5)]
  have "unat (of_nat n :: u32) = n" using assms(5) by (intro unat_of_nat32) simp
  then have "0 < (of_nat n :: u32)" using assms(4) by (simp add: word_less_nat_alt)
  then have "madt_loop (madtPtr s + 44) (of_nat n) 0 ?s = None"
    using assms(1,6) by (intro madt_loop_stuck) (simp_all add: serial_ready_def)
  with assms(2) len show ?thesis by (simp add: InitializeAPIC_def GetMADT_def Let_def)
qed

theorem madt_zero_length_witness: "\<exists>s'. InitializeAPIC (demo_apic 0) = Inl (Endless, s')"
proof -
  have "ic_length (mem (demo_apic 0)) 0x72002C = 0"
    by (simp add: demo_apic_mem ic_length_def store_le_def drop_bit_eq_div)
  then show ?thesis
    by (intro madt_zero_length [where n = 12]) (simp_all add: demo_apic_mem(2,3) demo_madt sdt_length_def)
qed



end
