(* ===== verification/Gdt.thy ===== *)
theory Gdt
  imports Machine
begin

text \<open>
  The global descriptor table, \<open>gdt/gdt.c\<close>, \<open>gdt/gdt.h\<close> and \<open>gdt/loadgdt.asm\<close>: five flat segments, and
  what their selectors mean to the processor.
\<close>

section \<open>The table\<close>

record SegmentDescriptor =
  sd_limit :: u16
  base_low :: u16
  base_middle :: u8
  access :: u8
  granularity :: u8
  base_high :: u8

text \<open>The null, kernel code, kernel data, user code and user data segments, in this order.\<close>

definition globalDescriptorTable :: "SegmentDescriptor list" where
  "globalDescriptorTable =
    [\<lparr>sd_limit = 0, base_low = 0, base_middle = 0, access = 0, granularity = 0, base_high = 0\<rparr>,
     \<lparr>sd_limit = 0xFF, base_low = 0, base_middle = 0, access = 0x9A, granularity = 0xA0, base_high = 0\<rparr>,
     \<lparr>sd_limit = 0xFF, base_low = 0, base_middle = 0, access = 0x92, granularity = 0xC0, base_high = 0\<rparr>,
     \<lparr>sd_limit = 0, base_low = 0, base_middle = 0, access = 0xFA, granularity = 0xA0, base_high = 0\<rparr>,
     \<lparr>sd_limit = 0, base_low = 0, base_middle = 0, access = 0xF2, granularity = 0xC0, base_high = 0\<rparr>]"

text \<open>\<open>gdtPtr\<close>: the size of the table less one, and its address, which the linker chooses.\<close>

definition gdtPtr :: "addr \<Rightarrow> u16 \<times> addr" where
  "gdtPtr table = (8 * 5 - 1, table)"

definition loadgdt :: "u16 \<times> addr \<Rightarrow> 'z machine_scheme \<Rightarrow> 'z machine_scheme" where
  "loadgdt ptr s =
     (let s = emit Cli s;
          s = emit (Lgdt (fst ptr) (snd ptr)) s;
          s = emit (LoadDS 0x10) s
      in emit (LoadCS 0x08) s)"

definition InitializeGDT :: "addr \<Rightarrow> 'z machine_scheme \<Rightarrow> 'z machine_scheme" where
  "InitializeGDT table s = loadgdt (gdtPtr table) s"

section \<open>What a selector means\<close>

text \<open>
  The processor takes bits 3 and up of a selector as an index and refuses index 0. In the access
  byte bit 7 says present, bits 5 and 6 give the privilege level, bit 4 tells code and data
  from system segments, bit 3 code from data and bit 1 that data is writable; bit 5 of the
  granularity byte makes a code segment a 64-bit one.
\<close>

definition segment :: "u16 \<Rightarrow> SegmentDescriptor option" where
  "segment sel = (let i = unat (drop_bit 3 sel) in
     if 0 < i \<and> i < length globalDescriptorTable then Some (globalDescriptorTable ! i) else None)"

definition dpl :: "SegmentDescriptor \<Rightarrow> u8" where
  "dpl d = take_bit 2 (drop_bit 5 (access d))"

definition code64 :: "SegmentDescriptor \<Rightarrow> bool" where
  "code64 d \<longleftrightarrow> bit (access d) 7 \<and> bit (access d) 4 \<and> bit (access d) 3 \<and> bit (granularity d) 5"

definition writable_data :: "SegmentDescriptor \<Rightarrow> bool" where
  "writable_data d \<longleftrightarrow> bit (access d) 7 \<and> bit (access d) 4 \<and> \<not> bit (access d) 3 \<and> bit (access d) 1"

lemma kernel_code: "\<exists>d. segment 0x08 = Some d \<and> code64 d \<and> dpl d = 0"
  by (simp add: segment_def globalDescriptorTable_def code64_def dpl_def drop_bit_eq_div take_bit_eq_mod bit_iff_odd)

lemma kernel_data: "\<exists>d. segment 0x10 = Some d \<and> writable_data d \<and> dpl d = 0"
  by (simp add: segment_def globalDescriptorTable_def writable_data_def dpl_def drop_bit_eq_div take_bit_eq_mod bit_iff_odd)

lemma user_segments:
  "\<exists>d. segment 0x18 = Some d \<and> code64 d \<and> dpl d = 3" "\<exists>d. segment 0x20 = Some d \<and> writable_data d \<and> dpl d = 3"
  by (simp_all add: segment_def globalDescriptorTable_def code64_def writable_data_def dpl_def drop_bit_eq_div take_bit_eq_mod bit_iff_odd)

lemma InitializeGDT_trace:
  "InitializeGDT table s = s\<lparr>trace := trace s @ [Cli, Lgdt 39 table, LoadDS 0x10, LoadCS 0x08]\<rparr>"
  by (simp add: InitializeGDT_def loadgdt_def gdtPtr_def emit_def)

end
