(* ===== verification/Idt.thy ===== *)
theory Idt
  imports Apic Gdt
begin

text \<open>
  Interrupts, \<open>interrupts/idt.c\<close>, \<open>interrupts/idt.h\<close> and \<open>interrupts/interrupt.asm\<close>, and the system
  call handler, \<open>syscall/syscall.c\<close>: the interrupt descriptor table, the programming of the two
  8259 interrupt controllers, the handlers, and the boot-time set-up that ties the drivers of
  the timer and the keyboard to them.
\<close>

section \<open>State\<close>

text \<open>The code a gate leads to; where the linker puts it is a parameter of the state.\<close>

datatype routine = DivZero | Breakpoint | Overflow | BoundRange | InvalidOpcode | DeviceNotAvailable
  | DoubleFault | GPFault | InvalidTSS | PageFault | KeyboardIrq | TimerIrq | SyscallGate

text \<open>\<open>idt\<close> is the address of the array of that name, \<open>idtr_limit\<close> and \<open>idtr_ptr\<close> are the fields of \<open>idtr\<close>.\<close>

record idts = apic +
  idt :: addr
  idtr_limit :: u16
  idtr_ptr :: addr
  code_of :: "routine \<Rightarrow> addr"

definition IDT_GATE_INTERRUPT :: u8 where "IDT_GATE_INTERRUPT = 0x8E"
definition INTERRUPT_DIV_BY_ZERO :: u64 where "INTERRUPT_DIV_BY_ZERO = 1"
definition INTERRUPT_BREAKPOINT :: u64 where "INTERRUPT_BREAKPOINT = 3"
definition INTERRUPT_OVERFLOW :: u64 where "INTERRUPT_OVERFLOW = 4"
definition INTERRUPT_BOUND_RAGE_EXCEEDED :: u64 where "INTERRUPT_BOUND_RAGE_EXCEEDED = 5"
definition INTERRUPT_INVALID_OPCODE :: u64 where "INTERRUPT_INVALID_OPCODE = 6"
definition INTERRUPT_DEVICE_NOT_AVAILABLE :: u64 where "INTERRUPT_DEVICE_NOT_AVAILABLE = 7"
definition INTERRUPT_DOUBLE_FAULT :: u64 where "INTERRUPT_DOUBLE_FAULT = 8"
definition INTERRUPT_INVALID_TSS :: u64 where "INTERRUPT_INVALID_TSS = 10"
definition INTERRUPT_GP_FAULT :: u64 where "INTERRUPT_GP_FAULT = 13"
definition INTERRUPT_PAGE_FAULT :: u64 where "INTERRUPT_PAGE_FAULT = 14"
definition IRQ :: "u64 \<Rightarrow> u64" where "IRQ n = 32 + n"
definition IRQ_KEYBOARD :: u64 where "IRQ_KEYBOARD = 1"
definition IRQ_RTC :: u64 where "IRQ_RTC = 8"

lemmas idt_consts = IDT_GATE_INTERRUPT_def INTERRUPT_DIV_BY_ZERO_def INTERRUPT_BREAKPOINT_def INTERRUPT_OVERFLOW_def
  INTERRUPT_BOUND_RAGE_EXCEEDED_def INTERRUPT_INVALID_OPCODE_def INTERRUPT_DEVICE_NOT_AVAILABLE_def
  INTERRUPT_DOUBLE_FAULT_def INTERRUPT_INVALID_TSS_def INTERRUPT_GP_FAULT_def INTERRUPT_PAGE_FAULT_def IRQ_def
  IRQ_KEYBOARD_def IRQ_RTC_def

section \<open>Gates\<close>

text \<open>
  \<open>struct InterruptDescriptor\<close>, 16 bytes: \<open>offset_1\<close> at 0, \<open>selector\<close> at 2, \<open>ist\<close> at 4,
  \<open>types_attributes\<close> at 5, \<open>offset_2\<close> at 6, \<open>offset_3\<close> at 8 and \<open>null\<close> at 12.
\<close>

definition AddIDTEntry :: "addr \<Rightarrow> addr \<Rightarrow> u64 \<Rightarrow> u8 \<Rightarrow> memory \<Rightarrow> memory" where
  "AddIDTEntry table offset index GATE_TYPE m =
     (let e = table + 16 * index;
          m = store16 m e (ucast (offset AND 0x000000000000ffff));
          m = store16 m (e + 6) (ucast (drop_bit 16 (offset AND 0x00000000ffff0000)));
          m = store32 m (e + 8) (ucast (drop_bit 32 (offset AND 0xffffffff00000000)));
          m = m(e + 5 := GATE_TYPE);
          m = m(e + 4 := 0);
          m = store16 m (e + 2) 0x08
      in store32 m (e + 12) 0)"

section \<open>The interrupt controllers\<close>

definition PIC1_COMMAND :: u16 where "PIC1_COMMAND = 0x20"
definition PIC1_DATA :: u16 where "PIC1_DATA = 0x20 + 1"
definition PIC2_COMMAND :: u16 where "PIC2_COMMAND = 0xA0"
definition PIC2_DATA :: u16 where "PIC2_DATA = 0xA0 + 1"
definition ICW1_ICW4 :: u8 where "ICW1_ICW4 = 0x01"
definition ICW1_INIT :: u8 where "ICW1_INIT = 0x10"
definition ICW4_8086 :: u8 where "ICW4_8086 = 0x01"

lemmas pic_consts = PIC1_COMMAND_def PIC1_DATA_def PIC2_COMMAND_def PIC2_DATA_def ICW1_ICW4_def ICW1_INIT_def ICW4_8086_def

definition RemapPIC :: "i32 \<Rightarrow> i32 \<Rightarrow> 'z machine_scheme \<Rightarrow> 'z machine_scheme" where
  "RemapPIC offset1 offset2 s =
     (let (a1, s) = inb PIC1_DATA s;
          (a2, s) = inb PIC2_DATA s;
          s = io_wait (outb PIC1_COMMAND (ICW1_INIT OR ICW1_ICW4) s);
          s = io_wait (outb PIC2_COMMAND (ICW1_INIT OR ICW1_ICW4) s);
          s = io_wait (outb PIC1_DATA (ucast offset1) s);
          s = io_wait (outb PIC2_DATA (ucast offset2) s);
          s = io_wait (outb PIC1_DATA 4 s);
          s = io_wait (outb PIC2_DATA 2 s);
          s = io_wait (outb PIC1_DATA ICW4_8086 s);
          s = io_wait (outb PIC2_DATA ICW4_8086 s);
          s = outb PIC1_DATA a1 s
      in outb PIC2_DATA a2 s)"

definition DisablePIC :: "'z machine_scheme \<Rightarrow> 'z machine_scheme" where
  "DisablePIC s = outb 0x21 0xff (outb 0xa1 0xff s)"

section \<open>Handlers\<close>

definition DivZeroHandler :: "'z sched_scheme \<Rightarrow> (unit, 'z sched_scheme) res" where
  "DivZeroHandler s = CommonExceptionHandler ''Division by zero'' s"

definition BreakpointHandler :: "'z console_scheme \<Rightarrow> (unit, 'z console_scheme) res" where
  "BreakpointHandler s = printf (lit (''Breakpoint reached!'' @ newline)) [] s"

definition OverflowHandler :: "'z sched_scheme \<Rightarrow> (unit, 'z sched_scheme) res" where
  "OverflowHandler s = CommonExceptionHandler ''Overflow exception'' s"

definition BoundRageExceededHandler :: "'z sched_scheme \<Rightarrow> (unit, 'z sched_scheme) res" where
  "BoundRageExceededHandler s = CommonExceptionHandler ''Bound range exceeded'' s"

definition InvalidOpcodeHandler :: "'z sched_scheme \<Rightarrow> (unit, 'z sched_scheme) res" where
  "InvalidOpcodeHandler s = CommonExceptionHandler ''Invalid opcode'' s"

definition DeviceNotAvailableHandler :: "'z sched_scheme \<Rightarrow> (unit, 'z sched_scheme) res" where
  "DeviceNotAvailableHandler s = CommonExceptionHandler ''Device not available'' s"

definition DFHandler :: "'z sched_scheme \<Rightarrow> (unit, 'z sched_scheme) res" where
  "DFHandler s = CommonExceptionHandler ''Double fault'' s"

definition GPFaultHandler :: "'z sched_scheme \<Rightarrow> (unit, 'z sched_scheme) res" where
  "GPFaultHandler s = CommonExceptionHandler ''General protection fault'' s"

definition InvalidTSSHandler :: "'z sched_scheme \<Rightarrow> (unit, 'z sched_scheme) res" where
  "InvalidTSSHandler s = CommonExceptionHandler ''Invalid TSS'' s"

definition PageFaultHandler :: "'z sched_scheme \<Rightarrow> (unit, 'z sched_scheme) res" where
  "PageFaultHandler s = CommonExceptionHandler ''Page fault'' s"

definition KeyboardHandler :: "'z apic_scheme \<Rightarrow> (unit, 'z apic_scheme) res" where
  "KeyboardHandler s =
     (let s = LoadKernelPML4 s;
          (sc, s) = inb 0x60 s
      in bindR (KeyboardDriver (uint sc) s) (\<lambda>_ s. Inr ((), LAPIC_EOI s)))"

definition SyscallHandler :: "'z console_scheme \<Rightarrow> (unit, 'z console_scheme) res" where
  "SyscallHandler s = printf (lit (''Hello from a syscall!'' @ newline)) [] s"

text \<open>
  The assembly stubs push registers, call the handler with the stack pointer and pop them
  again. \<open>push\<close> stores the registers from the top of the stack downwards, \<open>pop\<close> reads them back
  from the stack pointer upwards, the last one pushed first. The registers are those the
  stub finds when \<open>LoadKernelPML4\<close> has returned.
\<close>

fun push :: "u64 list \<Rightarrow> addr \<Rightarrow> memory \<Rightarrow> addr \<times> memory" where
  "push [] rsp m = (rsp, m)"
| "push (r # rs) rsp m = push rs (rsp - 8) (store64 m (rsp - 8) r)"

fun pop :: "nat \<Rightarrow> addr \<Rightarrow> memory \<Rightarrow> u64 list" where
  "pop 0 rsp m = []"
| "pop (Suc n) rsp m = pop n (rsp + 8) m @ [load64 m rsp]"

text \<open>\<open>rax, rbx, rcx, rdx, rsi, rdi, rbp\<close> and, for the timer, \<open>r8\<close> to \<open>r15\<close>, in the order they are pushed.\<close>

definition TimerStub :: "u64 list \<Rightarrow> addr \<Rightarrow> 'z apic_scheme \<Rightarrow> (u64 list, 'z apic_scheme) res" where
  "TimerStub regs rsp s =
     (let s = LoadKernelPML4 s;
          (sp, m) = push regs rsp (mem s);
          s = s\<lparr>mem := m\<rparr>
      in bindR (TaskSwitch sp s) (\<lambda>_ s.
         let s = LAPIC_EOI s;
             s = TaskSwitch_Stage2 s
         in Inr (pop 15 sp (mem s), s)))"

definition SyscallStub :: "u64 list \<Rightarrow> addr \<Rightarrow> 'z apic_scheme \<Rightarrow> (u64 list, 'z apic_scheme) res" where
  "SyscallStub regs rsp s =
     (let s = LoadKernelPML4 s;
          (sp, m) = push regs rsp (mem s);
          s = s\<lparr>mem := m\<rparr>
      in bindR (SyscallHandler s) (\<lambda>_ s.
         let s = LAPIC_EOI s
         in Inr (pop 7 sp (mem s), s)))"

section \<open>Set-up\<close>

definition fill_idt :: "'z idts_scheme \<Rightarrow> memory \<Rightarrow> memory" where
  "fill_idt s m =
     (let m = AddIDTEntry (idt s) (code_of s DivZero) INTERRUPT_DIV_BY_ZERO IDT_GATE_INTERRUPT m;
          m = AddIDTEntry (idt s) (code_of s Overflow) INTERRUPT_OVERFLOW IDT_GATE_INTERRUPT m;
          m = AddIDTEntry (idt s) (code_of s BoundRange) INTERRUPT_BOUND_RAGE_EXCEEDED IDT_GATE_INTERRUPT m;
          m = AddIDTEntry (idt s) (code_of s InvalidOpcode) INTERRUPT_INVALID_OPCODE IDT_GATE_INTERRUPT m;
          m = AddIDTEntry (idt s) (code_of s DeviceNotAvailable) INTERRUPT_DEVICE_NOT_AVAILABLE IDT_GATE_INTERRUPT m;
          m = AddIDTEntry (idt s) (code_of s DoubleFault) INTERRUPT_DOUBLE_FAULT IDT_GATE_INTERRUPT m;
          m = AddIDTEntry (idt s) (code_of s InvalidTSS) INTERRUPT_INVALID_TSS IDT_GATE_INTERRUPT m;
          m = AddIDTEntry (idt s) (code_of s GPFault) INTERRUPT_GP_FAULT IDT_GATE_INTERRUPT m;
          m = AddIDTEntry (idt s) (code_of s PageFault) INTERRUPT_PAGE_FAULT IDT_GATE_INTERRUPT m;
          m = AddIDTEntry (idt s) (code_of s KeyboardIrq) (IRQ IRQ_KEYBOARD) IDT_GATE_INTERRUPT m;
          m = AddIDTEntry (idt s) (code_of s Breakpoint) INTERRUPT_BREAKPOINT IDT_GATE_INTERRUPT m;
          m = AddIDTEntry (idt s) (code_of s SyscallGate) 0x80 IDT_GATE_INTERRUPT m
      in AddIDTEntry (idt s) (code_of s TimerIrq) (IRQ IRQ_RTC) IDT_GATE_INTERRUPT m)"

text \<open>The array is cleared over 256 times the size of a pointer, half of its 4096 bytes.\<close>

definition InitializeIDT :: "'z idts_scheme \<Rightarrow> (unit, 'z idts_scheme) res" where
  "InitializeIDT s =
     (let s = s\<lparr>mem := memset (mem s) (idt s) 0 (8 * 256)\<rparr>;
          s = s\<lparr>idtr_limit := 0x0fff, idtr_ptr := idt s\<rparr>;
          s = s\<lparr>mem := fill_idt s (mem s)\<rparr>;
          s = emit (Lidt (idtr_limit s) (idtr_ptr s)) s;
          s = RemapPIC 0x20 0x28 s;
          s = DisablePIC s
      in bindR (InitializeAPIC s) (\<lambda>_ s.
         let s = IOAPICRegisterIRQ 0x28 8 s;
             s = InitializeRTC s;
             s = IOAPICRegisterIRQ 0x21 1 s
         in Inr ((), emit Sti s)))"

section \<open>How the processor reads the table\<close>

text \<open>
  A vector is delivered through its gate if the gate is present, is a 64-bit interrupt gate
  and names a 64-bit code segment; the target is put together from the three offset fields.
\<close>

definition gate_offset :: "memory \<Rightarrow> addr \<Rightarrow> addr" where
  "gate_offset m e = ucast (load16 m e) OR push_bit 16 (ucast (load16 m (e + 6))) OR push_bit 32 (ucast (load32 m (e + 8)))"

definition gate_valid :: "memory \<Rightarrow> addr \<Rightarrow> bool" where
  "gate_valid m e \<longleftrightarrow> bit (m (e + 5)) 7 \<and> take_bit 4 (m (e + 5)) = 0xE \<and>
     (case segment (load16 m (e + 2)) of None \<Rightarrow> False | Some d \<Rightarrow> code64 d \<and> dpl d = 0)"

definition gate_target :: "addr \<Rightarrow> memory \<Rightarrow> nat \<Rightarrow> addr option" where
  "gate_target table m v = (let e = table + 16 * of_nat v in if gate_valid m e then Some (gate_offset m e) else None)"

definition delivered :: "'z idts_scheme \<Rightarrow> nat \<Rightarrow> addr option" where
  "delivered s v = (if 16 * v + 15 \<le> unat (idtr_limit s) then gate_target (idtr_ptr s) (mem s) v else None)"

text \<open>
  The contract of a vector table: an entry that is installed is found again and no other entry
  changes. Installing a list of entries then gives the last one installed for each index.
\<close>

locale vector_table =
  fixes install :: "nat \<Rightarrow> addr \<Rightarrow> memory \<Rightarrow> memory"
    and target :: "memory \<Rightarrow> nat \<Rightarrow> addr option"
    and vectors :: nat
  assumes target_install: "i < vectors \<Longrightarrow> v < vectors \<Longrightarrow> target (install i a m) v = (if v = i then Some a else target m v)"
begin

lemma target_installs:
  assumes "v < vectors" and "\<forall>i \<in> fst ` set es. i < vectors"
  shows "target (fold (\<lambda>(i, a). install i a) es m) v = (case map_of (rev es) v of None \<Rightarrow> target m v | Some a \<Rightarrow> Some a)"
  using assms(2)
proof (induction es arbitrary: m)
  case Nil
  then show ?case by simp
next
  case (Cons e es)
  obtain i a where e: "e = (i, a)" by (cases e)
  have "target (fold (\<lambda>(i, a). install i a) (e # es) m) v =
      (case map_of (rev es) v of None \<Rightarrow> target (install i a m) v | Some b \<Rightarrow> Some b)"
    using Cons by (simp add: e)
  then show ?case using Cons.prems target_install [OF _ assms(1)]
    by (auto simp: e map_add_def split: option.splits)
qed

end

lemma offset_parts:
  "ucast (ucast (off AND 0x000000000000ffff :: u64) :: u16) OR push_bit 16 (ucast (ucast (drop_bit 16 (off AND 0x00000000ffff0000)) :: u16)) OR
     push_bit 32 (ucast (ucast (drop_bit 32 (off AND 0xffffffff00000000)) :: u32)) = (off :: u64)"
proof -
  have m: "(0xffff :: u64) = mask 16" "(0xffff0000 :: u64) = push_bit 16 (mask 16)" "(0xffffffff00000000 :: u64) = push_bit 32 (mask 32)"
    by (simp_all add: mask_eq_exp_minus_1 push_bit_eq_mult)
  show ?thesis
    unfolding m
  proof (rule bit_word_eqI)
    fix n assume "n < LENGTH(64)"
    then consider "n < 16" | "16 \<le> n" "n < 32" | "32 \<le> n" "n < 64" by force
    then show "bit (ucast (ucast (off AND mask 16) :: u16) OR push_bit 16 (ucast (ucast (drop_bit 16 (off AND push_bit 16 (mask 16))) :: u16)) OR
        push_bit 32 (ucast (ucast (drop_bit 32 (off AND push_bit 32 (mask 32))) :: u32)) :: u64) n = bit off n"
      by cases (auto simp: bit_simps)
  qed
qed

lemma AddIDTEntry_outside:
  assumes "x \<notin> bytes (table + 16 * i) 16"
  shows "AddIDTEntry table off i g m x = m x"
proof -
  let ?e = "table + 16 * i"
  have out: "x \<notin> bytes (?e + of_nat k) n" if "k + n \<le> 16" for k n
    using subrange [OF that, of ?e] assms by fastforce
  have "x \<notin> bytes ?e 2" "x \<notin> bytes (?e + 6) 2" "x \<notin> bytes (?e + 8) 4" "x \<notin> bytes (?e + 2) 2" "x \<notin> bytes (?e + 12) 4"
    "x \<notin> bytes (?e + 5) 1" "x \<notin> bytes (?e + 4) 1"
    using out [of 0 2] out [of 6 2] out [of 8 4] out [of 2 2] out [of 12 4] out [of 5 1] out [of 4 1] by simp_all
  moreover have "x \<noteq> ?e + 5" "x \<noteq> ?e + 4" using calculation(6,7) by (auto simp: in_bytes_iff)
  ultimately show ?thesis by (simp add: AddIDTEntry_def Let_def store_le_outside)
qed

lemma AddIDTEntry_gate:
  "gate_valid (AddIDTEntry table off i IDT_GATE_INTERRUPT m) (table + 16 * i)"
  "gate_offset (AddIDTEntry table off i IDT_GATE_INTERRUPT m) (table + 16 * i) = off"
proof -
  define e where "e = table + 16 * i"
  let ?m = "AddIDTEntry table off i IDT_GATE_INTERRUPT m"
  have m: "?m = store32 (store16 ((store32 (store16 (store16 m e (ucast (off AND 0xffff))) (e + 6) (ucast (drop_bit 16 (off AND 0xffff0000))))
      (e + 8) (ucast (drop_bit 32 (off AND 0xffffffff00000000))))(e + 5 := 0x8E, e + 4 := 0)) (e + 2) 0x08) (e + 12) 0"
    by (simp only: AddIDTEntry_def Let_def e_def IDT_GATE_INTERRUPT_def)
  have r: "load16 ?m e = ucast (off AND 0xffff)" "load16 ?m (e + 6) = ucast (drop_bit 16 (off AND 0xffff0000))"
    "load32 ?m (e + 8) = ucast (drop_bit 32 (off AND 0xffffffff00000000))" "load16 ?m (e + 2) = 8"
    unfolding m by (simp_all add: load_store_away load_upd_away unsigned_minus_1_eq_mask mask_eq_exp_minus_1)
  have "?m (e + 5) = 0x8E" unfolding m by (simp add: store_le_def)
  then show "gate_valid ?m (table + 16 * i)" using kernel_code r(4)
    by (auto simp: gate_valid_def e_def bit_iff_odd take_bit_eq_mod)
  show "gate_offset ?m (table + 16 * i) = off"
    unfolding gate_offset_def e_def [symmetric] r by (rule offset_parts)
qed

lemma gate_target_cong:
  assumes "\<And>x. x \<in> bytes (table + 16 * of_nat v) 16 \<Longrightarrow> m' x = m x"
  shows "gate_target table m' v = gate_target table m v"
proof -
  let ?e = "table + 16 * of_nat v :: addr"
  have sub: "bytes (?e + of_nat k) n \<subseteq> bytes ?e 16" if "k + n \<le> 16" for k n using that by (intro subrange) simp_all
  have same: "(load_le n m' (?e + of_nat k) :: 'b::len word) = load_le n m (?e + of_nat k)" if "k + n \<le> 16" for k n
    by (rule load_le_cong) (use that sub [OF that] assms in auto)
  have "?e + 5 \<in> bytes ?e 16" using offset_in_bytes [of 5 16 ?e] by simp
  then have "m' (?e + 5) = m (?e + 5)" by (rule assms)
  moreover have "load16 m' ?e = load16 m ?e" "load16 m' (?e + 6) = load16 m (?e + 6)" "load32 m' (?e + 8) = load32 m (?e + 8)"
    "load16 m' (?e + 2) = load16 m (?e + 2)"
    using same [of 0 2] same [of 6 2] same [of 8 4] same [of 2 2] by simp_all
  ultimately show ?thesis by (simp add: gate_target_def gate_valid_def gate_offset_def Let_def)
qed

lemma gates_apart:
  assumes "i < 256" and "v < 256" and "i \<noteq> v"
  shows "bytes (table + 16 * of_nat i) 16 \<inter> bytes (table + 16 * of_nat v) 16 = {}"
proof -
  have "bytes (table + of_nat (16 * a)) 16 \<inter> bytes (table + of_nat (16 * b)) 16 = {}" if "a < b" "b < 256" for a b
    by (rule fields_disjoint) (use that in simp_all)
  from this [of i v] this [of v i] assms show ?thesis by (cases "i < v") (auto simp: Int_commute)
qed

interpretation gates: vector_table "\<lambda>i a. AddIDTEntry table a (of_nat i) IDT_GATE_INTERRUPT" "gate_target table" 256 for table
proof
  fix i v :: nat and a m assume iv: "i < 256" "v < 256"
  show "gate_target table (AddIDTEntry table a (of_nat i) IDT_GATE_INTERRUPT m) v = (if v = i then Some a else gate_target table m v)"
  proof (cases "v = i")
    case True
    then show ?thesis by (simp add: gate_target_def AddIDTEntry_gate)
  next
    case False
    then have "gate_target table (AddIDTEntry table a (of_nat i) IDT_GATE_INTERRUPT m) v = gate_target table m v"
      using gates_apart [OF iv] by (intro gate_target_cong AddIDTEntry_outside) auto
    with False show ?thesis by simp
  qed
qed

text \<open>The vectors the kernel installs, in the order it does.\<close>

definition idt_plan :: "(nat \<times> routine) list" where
  "idt_plan = [(1, DivZero), (4, Overflow), (5, BoundRange), (6, InvalidOpcode), (7, DeviceNotAvailable), (8, DoubleFault),
     (10, InvalidTSS), (13, GPFault), (14, PageFault), (33, KeyboardIrq), (3, Breakpoint), (128, SyscallGate), (40, TimerIrq)]"

lemma fill_idt_fold:
  "fill_idt s m = fold (\<lambda>(i, a). AddIDTEntry (idt s) a (of_nat i) IDT_GATE_INTERRUPT) (map (\<lambda>(i, r). (i, code_of s r)) idt_plan) m"
  by (simp add: fill_idt_def Let_def idt_plan_def idt_consts)

lemma plan_bounded: "\<forall>i \<in> fst ` set (map (\<lambda>(i, r). (i, code_of s r)) idt_plan). i < 256"
  by (simp add: idt_plan_def)

lemma fill_idt_target:
  assumes "v < 256"
  shows "gate_target (idt s) (fill_idt s m) v =
    (case map_of idt_plan v of None \<Rightarrow> gate_target (idt s) m v | Some r \<Rightarrow> Some (code_of s r))"
proof -
  have plan: "map_of (rev (map (\<lambda>(i, r). (i, code_of s r)) idt_plan)) v = map_option (code_of s) (map_of idt_plan v)"
    by (simp add: idt_plan_def)
  show ?thesis
    unfolding fill_idt_fold gates.target_installs [OF assms plan_bounded] plan by (cases "map_of idt_plan v") simp_all
qed

lemma fill_idt_outside:
  assumes "x \<notin> bytes (idt s) 4096"
  shows "fill_idt s m x = m x"
proof -
  have "bytes (idt s + 16 * of_nat v) 16 \<subseteq> bytes (idt s) 4096" if "v < 256" for v
    using subrange [of "16 * v" 16 4096 "idt s"] that by simp
  then have "x \<notin> bytes (idt s + 16 * of_nat v) 16" if "v < 256" for v using assms that by blast
  then have out: "AddIDTEntry (idt s) a (of_nat v) g m x = m x" if "v < 256" for a v g m
    using that by (intro AddIDTEntry_outside) blast
  have "fold (\<lambda>(i, a). AddIDTEntry (idt s) a (of_nat i) IDT_GATE_INTERRUPT) es m x = m x" if "\<forall>i \<in> fst ` set es. i < 256" for es
    using that by (induction es arbitrary: m) (auto simp: out)
  from this [OF plan_bounded] show ?thesis unfolding fill_idt_fold .
qed

section \<open>The 8259 controllers as their data sheet describes them\<close>

text \<open>
  A write of ICW1 to the command port starts the initialisation; the next writes to the data
  port are ICW2 (the vector offset), ICW3 and, if bit 0 of ICW1 asked for it, ICW4. After that a write
  to the data port sets the mask.
\<close>

record pic =
  phase :: nat
  icw4 :: bool
  voffset :: u8
  imr :: u8

fun pic_step :: "u16 \<Rightarrow> pic \<Rightarrow> event \<Rightarrow> pic" where
  "pic_step base p (OutB port v) =
     (if port = base then if bit v 4 then p\<lparr>phase := 2, icw4 := bit v 0, imr := 0\<rparr> else p
      else if port = base + 1 then
        if phase p = 2 then p\<lparr>phase := 3, voffset := v\<rparr>
        else if phase p = 3 then p\<lparr>phase := (if icw4 p then 4 else 0)\<rparr>
        else if phase p = 4 then p\<lparr>phase := 0\<rparr>
        else p\<lparr>imr := v\<rparr>
      else p)"
| "pic_step base p _ = p"

definition pic_state :: "u16 \<Rightarrow> pic \<Rightarrow> event list \<Rightarrow> pic" where
  "pic_state base p es = foldl (pic_step base) p es"

text \<open>The events of \<open>RemapPIC\<close>, given the masks it read.\<close>

definition remap_events :: "i32 \<Rightarrow> i32 \<Rightarrow> u8 \<Rightarrow> u8 \<Rightarrow> event list" where
  "remap_events o1 o2 a1 a2 =
     [InB 0x21 a1, InB 0xA1 a2, OutB 0x20 0x11, OutB 0x80 0, OutB 0xA0 0x11, OutB 0x80 0, OutB 0x21 (ucast o1), OutB 0x80 0,
      OutB 0xA1 (ucast o2), OutB 0x80 0, OutB 0x21 4, OutB 0x80 0, OutB 0xA1 2, OutB 0x80 0, OutB 0x21 1, OutB 0x80 0,
      OutB 0xA1 1, OutB 0x80 0, OutB 0x21 a1, OutB 0xA1 a2]"

lemma RemapPIC_events: "\<exists>a1 a2. RemapPIC o1 o2 s = s\<lparr>trace := trace s @ remap_events o1 o2 a1 a2\<rparr>"
  by (rule exI, rule exI) (simp add: RemapPIC_def Let_def port_defs pic_consts remap_events_def)

lemma bits_0x11: "bit (0x11 :: u8) 4" "bit (0x11 :: u8) 0"
  by (simp_all add: bit_iff_odd)

section \<open>Handlers\<close>

lemma push_sp: "fst (push rs rsp m) = rsp - 8 * of_nat (length rs)"
proof (induction rs arbitrary: rsp m)
  case (Cons r rs)
  have "rsp - 8 - 8 * of_nat (length rs) = rsp - 8 * of_nat (length (r # rs))" by (simp add: algebra_simps)
  with Cons show ?case by simp
qed simp

lemma push_outside: "x \<notin> bytes (rsp - 8 * of_nat (length rs)) (8 * length rs) \<Longrightarrow> 8 * length rs \<le> 2 ^ 64 \<Longrightarrow> snd (push rs rsp m) x = m x"
proof (induction rs arbitrary: rsp m)
  case Nil
  then show ?case by simp
next
  case (Cons r rs)
  let ?sp = "rsp - 8 * of_nat (length (r # rs)) :: addr"
  have a: "rsp - 8 - 8 * of_nat (length rs) = ?sp" by (simp add: algebra_simps)
  have b: "rsp - 8 = ?sp + of_nat (8 * length rs)" by (simp add: algebra_simps)
  have "bytes (rsp - 8 - 8 * of_nat (length rs)) (8 * length rs) \<subseteq> bytes ?sp (8 * length (r # rs))"
    unfolding a using subrange [of 0 "8 * length rs" "8 * length (r # rs)" ?sp] Cons.prems(2) by simp
  moreover have "bytes (rsp - 8) 8 \<subseteq> bytes ?sp (8 * length (r # rs))"
    unfolding b by (rule subrange) (use Cons.prems(2) in simp_all)
  ultimately have "x \<notin> bytes (rsp - 8 - 8 * of_nat (length rs)) (8 * length rs)" "x \<notin> bytes (rsp - 8) 8"
    using Cons.prems(1) by blast+
  with Cons.IH [of "rsp - 8"] Cons.prems(2) show ?case by (simp add: store_le_outside)
qed

lemma pop_Suc: "pop (Suc n) rsp m = load64 m (rsp + 8 * of_nat n) # pop n rsp m"
proof (induction n arbitrary: rsp)
  case (Suc n)
  have "pop (Suc (Suc n)) rsp m = pop (Suc n) (rsp + 8) m @ [load64 m rsp]" by simp
  also have "\<dots> = load64 m (rsp + 8 + 8 * of_nat n) # pop (Suc n) rsp m" unfolding Suc.IH [of "rsp + 8"] by simp
  also have "rsp + 8 + 8 * of_nat n = rsp + 8 * of_nat (Suc n)" by (simp add: algebra_simps)
  finally show ?case .
qed simp

lemma push_pop:
  assumes "8 * length rs \<le> 2 ^ 64"
  shows "pop (length rs) (rsp - 8 * of_nat (length rs)) (snd (push rs rsp m)) = rs"
  using assms
proof (induction rs arbitrary: rsp m)
  case Nil
  then show ?case by simp
next
  case (Cons r rs)
  let ?sp = "rsp - 8 - 8 * of_nat (length rs) :: addr" and ?m = "store64 m (rsp - 8) r"
  have sp: "rsp - 8 * of_nat (length (r # rs)) = ?sp" by (simp add: algebra_simps)
  have top: "?sp + 8 * of_nat (length rs) = rsp - 8" by simp
  have "bytes (?sp + of_nat 0) (8 * length rs) \<inter> bytes (?sp + of_nat (8 * length rs)) 8 = {}"
    by (rule fields_disjoint) (use Cons.prems in simp_all)
  then have "bytes ?sp (8 * length rs) \<inter> bytes (rsp - 8) 8 = {}" by simp
  then have "load64 (snd (push rs (rsp - 8) ?m)) (rsp - 8) = load64 ?m (rsp - 8)"
    using Cons.prems by (intro load_le_cong push_outside) auto
  moreover have "pop (length rs) ?sp (snd (push rs (rsp - 8) ?m)) = rs" using Cons by simp
  ultimately show ?case unfolding sp by (simp add: pop_Suc top del: pop.simps(2))
qed

lemma pop_cong:
  assumes "\<And>i. i < 8 * n \<Longrightarrow> m (a + of_nat i) = m' (b + of_nat i)"
  shows "pop n a m = pop n b m'"
  using assms
proof (induction n)
  case 0
  then show ?case by simp
next
  case (Suc n)
  have "load64 m (a + 8 * of_nat n) = load64 m' (b + 8 * of_nat n)"
  proof (rule bit_word_eqI)
    fix k assume k: "k < LENGTH(64)"
    have "m (a + of_nat (8 * n + k div 8)) = m' (b + of_nat (8 * n + k div 8))" by (rule Suc.prems) (use k in auto)
    then show "bit (load64 m (a + 8 * of_nat n)) k = bit (load64 m' (b + 8 * of_nat n)) k"
      by (simp add: bit_load_le algebra_simps)
  qed
  with Suc show ?case by (simp add: pop_Suc del: pop.simps(2))
qed

lemma pop_ctx: "ctx m a = ctx m' b \<Longrightarrow> pop 15 a m = pop 15 b m'"
  by (rule pop_cong) (simp add: ctx_def)

section \<open>The set-up as a whole\<close>

lemma ics_at_cong:
  assumes "\<And>x. x \<in> bytes p (ics_len es + 8) \<Longrightarrow> m' x = m x" and "ics_len es + 8 \<le> 2 ^ 64" and "ics_at m p es"
  shows "ics_at m' p es"
  using assms
proof (induction es arbitrary: p)
  case Nil
  then show ?case by simp
next
  case (Cons e es)
  obtain ty n a where e: "e = (ty, n, a)" by (cases e)
  have len: "ics_len (e # es) = unat n + ics_len es" by (simp add: ics_len_def e)
  have at: "ic_type m p = ty" "ic_length m p = n" "n \<noteq> 0" "ic_address m p = a" "ics_at m (p + ucast n) es"
    using Cons.prems(3) by (simp_all add: e)
  have hd: "m' x = m x" if "x \<in> bytes (p + of_nat i) k" "i + k \<le> 8" for x i k
    using Cons.prems(1) subrange [of i k "ics_len (e # es) + 8" p] that Cons.prems(2) by auto
  have "m' p = m p" "m' (p + 1) = m (p + 1)" using hd [of p 0 1] hd [of "p + 1" 1 1] by simp_all
  moreover have "load32 m' (p + 4) = load32 m (p + 4)" by (rule load_le_cong) (use hd [of _ 4 4] in auto)
  moreover have "ics_at m' (p + ucast n) es"
  proof (rule Cons.IH [OF _ _ at(5)])
    have u: "(ucast n :: addr) = of_nat (unat n)" by (rule ucast_nat) simp
    show "m' x = m x" if "x \<in> bytes (p + ucast n) (ics_len es + 8)" for x
      using Cons.prems(1) subrange [of "unat n" "ics_len es + 8" "ics_len (e # es) + 8" p] that Cons.prems(2) unfolding u len by auto
    show "ics_len es + 8 \<le> 2 ^ 64" using Cons.prems(2) len by simp
  qed
  ultimately show ?case using at by (simp add: e ic_type_def ic_length_def ic_address_def)
qed

lemma madt_at_cong:
  assumes "\<And>x. x \<in> bytes p (52 + ics_len es) \<Longrightarrow> m' x = m x" and "madt_at m p es"
  shows "madt_at m' p es"
proof -
  have big: "52 + ics_len es \<le> 2 ^ 64" using assms(2) by (simp add: madt_at_def)
  have sub: "m' x = m x" if "x \<in> bytes (p + of_nat i) k" "i + k \<le> 52 + ics_len es" for x i k
    using assms(1) subrange [of i k "52 + ics_len es" p] that big by auto
  have "load32 m' (p + 4) = load32 m (p + 4)" by (rule load_le_cong) (use sub [of _ 4 4] in auto)
  moreover have "ics_at m' (p + 44) es"
    by (rule ics_at_cong [of _ _ _ m]) (use sub [of _ 44 "ics_len es + 8"] big assms(2) in \<open>auto simp: madt_at_def\<close>)
  ultimately show ?thesis using assms(2) by (simp add: madt_at_def)
qed

lemma IOAPICRegisterIRQ_events:
  "IOAPICRegisterIRQ 0x28 8 s = s\<lparr>trace := trace s @ [MmioW (ioAPIC s) 0x20, MmioW (ioAPIC s + 16) 0x28, MmioW (ioAPIC s) 0x21, MmioW (ioAPIC s + 16) 0]\<rparr>"
  "IOAPICRegisterIRQ 0x21 1 s = s\<lparr>trace := trace s @ [MmioW (ioAPIC s) 0x12, MmioW (ioAPIC s + 16) 0x21, MmioW (ioAPIC s) 0x13, MmioW (ioAPIC s + 16) 0]\<rparr>"
  by (simp_all add: IOAPICRegisterIRQ_def IOAPICWriteRedirectionEntry_def Let_def IOAPICWrite_def mmio_out_def emit_def redir_raw_def
    IOAPICRedirEntriesBase_def drop_bit_eq_div)

lemma InitializeRTC_events:
  "\<exists>a b. InitializeRTC s = s\<lparr>trace := trace s @ [Cli, OutB 0x70 0x8B, InB 0x71 b, OutB 0x70 0x8B, OutB 0x71 (b OR 0x40),
      OutB 0x70 0x8A, InB 0x71 a, OutB 0x70 0x8A, OutB 0x71 ((a AND 0xF0) OR 0x0F), Sti]\<rparr>"
  by (simp add: InitializeRTC_def port_defs Let_def) blast

text \<open>
  What the set-up needs: a serial line that is ready, a MADT whose entries fill it, the array
  \<open>idt\<close> zero, as a static array is at first, and no overlap of the two.
\<close>

definition irq_boot :: "'z idts_scheme \<Rightarrow> ic list \<Rightarrow> bool" where
  "irq_boot s es \<longleftrightarrow> serial_ready s \<and> madtPtr s \<noteq> 0 \<and> madt_at (mem s) (madtPtr s) es \<and>
     (\<forall>x \<in> bytes (idt s) 4096. mem s x = 0) \<and> bytes (idt s) 4096 \<inter> bytes (madtPtr s) (52 + ics_len es) = {}"

definition idt_mem :: "'z idts_scheme \<Rightarrow> memory" where
  "idt_mem s = fill_idt s (memset (mem s) (idt s) 0 (8 * 256))"

lemma idt_mem_outside: "x \<notin> bytes (idt s) 4096 \<Longrightarrow> idt_mem s x = mem s x"
proof -
  assume x: "x \<notin> bytes (idt s) 4096"
  then have "x \<notin> bytes (idt s) 2048" using subrange [of 0 2048 4096 "idt s"] by auto
  with x show "idt_mem s x = mem s x" by (simp add: idt_mem_def fill_idt_outside memset_outside)
qed

lemma idt_mem_target:
  assumes "\<And>x. x \<in> bytes (idt s) 4096 \<Longrightarrow> mem s x = 0" and "v < 256"
  shows "gate_target (idt s) (idt_mem s) v = map_option (code_of s) (map_of idt_plan v)"
proof -
  let ?m = "memset (mem s) (idt s) 0 (8 * 256)" and ?e = "idt s + 16 * of_nat v :: addr"
  have "idt s + of_nat (16 * v + 5) \<in> bytes (idt s) 4096" by (rule offset_in_bytes) (use assms(2) in simp_all)
  then have "?m (?e + 5) = 0" using assms(1) by (simp add: memset_apply add.assoc)
  then have "gate_target (idt s) ?m v = None" by (simp add: gate_target_def gate_valid_def Let_def)
  then show ?thesis unfolding idt_mem_def fill_idt_target [OF assms(2)] by (cases "map_of idt_plan v") simp_all
qed

lemma InitializeIDT_effect:
  assumes "irq_boot s es"
  defines "io \<equiv> last_ioapic es (ioAPIC s)"
  shows "\<exists>t a b. InitializeIDT s = Inr ((), s\<lparr>mem := idt_mem s, idtr_limit := 0x0fff, idtr_ptr := idt s,
    localAPIC := ucast (load32 (mem s) (madtPtr s + 36)), ioAPIC := io,
    trace := t @ [MmioW io 0x20, MmioW (io + 16) 0x28, MmioW io 0x21, MmioW (io + 16) 0] @
      [Cli, OutB 0x70 0x8B, InB 0x71 b, OutB 0x70 0x8B, OutB 0x71 (b OR 0x40),
       OutB 0x70 0x8A, InB 0x71 a, OutB 0x70 0x8A, OutB 0x71 ((a AND 0xF0) OR 0x0F), Sti] @
      [MmioW io 0x12, MmioW (io + 16) 0x21, MmioW io 0x13, MmioW (io + 16) 0, Sti]\<rparr>)"
proof -
  define u where "u = s\<lparr>idtr_limit := 0x0fff, idtr_ptr := idt s, mem := idt_mem s\<rparr>"
  have fill: "fill_idt (s\<lparr>mem := m, idtr_limit := l, idtr_ptr := p\<rparr>) m' = fill_idt s m'" for m l p m'
    by (simp add: fill_idt_def)
  obtain t where t: "DisablePIC (RemapPIC 0x20 0x28 (emit (Lidt 0x0fff (idt s)) u)) = u\<lparr>trace := t\<rparr>"
    using RemapPIC_events [of "0x20" "0x28" "emit (Lidt 0x0fff (idt s)) u"] by (auto simp: DisablePIC_def outb_def emit_def)
  have start: "InitializeIDT s = bindR (InitializeAPIC (u\<lparr>trace := t\<rparr>)) (\<lambda>_ s.
      Inr ((), emit Sti (IOAPICRegisterIRQ 0x21 1 (InitializeRTC (IOAPICRegisterIRQ 0x28 8 s)))))"
    unfolding InitializeIDT_def Let_def t [symmetric] by (simp add: u_def idt_mem_def fill)
  have keep: "idt_mem s x = mem s x" if "x \<in> bytes (madtPtr s) (52 + ics_len es)" for x
    by (rule idt_mem_outside) (use that assms(1) in \<open>auto simp: irq_boot_def\<close>)
  have "load32 (idt_mem s) (madtPtr s + of_nat 36) = load32 (mem s) (madtPtr s + of_nat 36)"
    by (rule load_le_cong) (use keep subrange [of 36 4 "52 + ics_len es" "madtPtr s"] assms(1) in \<open>auto simp: irq_boot_def madt_at_def\<close>)
  then have lapic: "load32 (idt_mem s) (madtPtr s + 36) = load32 (mem s) (madtPtr s + 36)" by simp
  have "serial_ready (u\<lparr>trace := t\<rparr>)" "madtPtr (u\<lparr>trace := t\<rparr>) \<noteq> 0" "madt_at (mem (u\<lparr>trace := t\<rparr>)) (madtPtr (u\<lparr>trace := t\<rparr>)) es"
    using assms(1) madt_at_cong [OF keep] by (simp_all add: u_def irq_boot_def serial_ready_def)
  from InitializeAPIC_returns [OF this] obtain t1 where
    apic: "InitializeAPIC (u\<lparr>trace := t\<rparr>) = Inr ((), u\<lparr>trace := t1, localAPIC := ucast (load32 (mem s) (madtPtr s + 36)), ioAPIC := io\<rparr>)"
    using lapic by (auto simp: u_def io_def)
  define v where "v = u\<lparr>trace := t1, localAPIC := ucast (load32 (mem s) (madtPtr s + 36)), ioAPIC := io\<rparr>"
  define w where "w = IOAPICRegisterIRQ 0x28 8 v"
  have w: "w = v\<lparr>trace := t1 @ [MmioW io 0x20, MmioW (io + 16) 0x28, MmioW io 0x21, MmioW (io + 16) 0]\<rparr>"
    unfolding w_def IOAPICRegisterIRQ_events by (simp add: v_def)
  obtain a b where rtc: "InitializeRTC w = w\<lparr>trace := trace w @
      [Cli, OutB 0x70 0x8B, InB 0x71 b, OutB 0x70 0x8B, OutB 0x71 (b OR 0x40),
       OutB 0x70 0x8A, InB 0x71 a, OutB 0x70 0x8A, OutB 0x71 ((a AND 0xF0) OR 0x0F), Sti]\<rparr>"
    using InitializeRTC_events by blast
  have "InitializeIDT s = Inr ((), emit Sti (IOAPICRegisterIRQ 0x21 1 (InitializeRTC w)))"
    unfolding start apic w_def by (simp add: v_def)
  also have "emit Sti (IOAPICRegisterIRQ 0x21 1 (InitializeRTC w)) = v\<lparr>trace := t1 @ [MmioW io 0x20, MmioW (io + 16) 0x28, MmioW io 0x21, MmioW (io + 16) 0] @
      [Cli, OutB 0x70 0x8B, InB 0x71 b, OutB 0x70 0x8B, OutB 0x71 (b OR 0x40),
       OutB 0x70 0x8A, InB 0x71 a, OutB 0x70 0x8A, OutB 0x71 ((a AND 0xF0) OR 0x0F), Sti] @
      [MmioW io 0x12, MmioW (io + 16) 0x21, MmioW io 0x13, MmioW (io + 16) 0, Sti]\<rparr>"
    unfolding rtc IOAPICRegisterIRQ_events emit_def by (simp add: w) (simp add: v_def)
  finally have fin: "InitializeIDT s = Inr ((), v\<lparr>trace := t1 @ [MmioW io 0x20, MmioW (io + 16) 0x28, MmioW io 0x21, MmioW (io + 16) 0] @
      [Cli, OutB 0x70 0x8B, InB 0x71 b, OutB 0x70 0x8B, OutB 0x71 (b OR 0x40),
       OutB 0x70 0x8A, InB 0x71 a, OutB 0x70 0x8A, OutB 0x71 ((a AND 0xF0) OR 0x0F), Sti] @
      [MmioW io 0x12, MmioW (io + 16) 0x21, MmioW io 0x13, MmioW (io + 16) 0, Sti]\<rparr>)" .
  show ?thesis unfolding fin by (rule exI [of _ t1], rule exI [of _ a], rule exI [of _ b]) (simp add: v_def u_def)
qed

text \<open>The nine exception handlers that end in \<open>CommonExceptionHandler\<close>, with the text each gives.\<close>

definition exceptions :: "(('z sched_scheme \<Rightarrow> (unit, 'z sched_scheme) res) \<times> string) list" where
  "exceptions = [(DivZeroHandler, ''Division by zero''), (OverflowHandler, ''Overflow exception''),
     (BoundRageExceededHandler, ''Bound range exceeded''), (InvalidOpcodeHandler, ''Invalid opcode''),
     (DeviceNotAvailableHandler, ''Device not available''), (DFHandler, ''Double fault''),
     (GPFaultHandler, ''General protection fault''), (InvalidTSSHandler, ''Invalid TSS''), (PageFaultHandler, ''Page fault'')]"

lemma exceptions_common: "(h, msg) \<in> set exceptions \<Longrightarrow> h s = CommonExceptionHandler msg s"
  by (auto simp: exceptions_def DivZeroHandler_def OverflowHandler_def BoundRageExceededHandler_def InvalidOpcodeHandler_def
    DeviceNotAvailableHandler_def DFHandler_def GPFaultHandler_def InvalidTSSHandler_def PageFaultHandler_def)

lemma CommonExceptionHandler_marks:
  assumes "serial_ready s" and "schedulingStarted s" and "current s \<noteq> 0" and "read_str (mem s) (pf_name (current s)) = Some name"
  shows "\<exists>t. CommonExceptionHandler msg s = Inl (Endless, s\<lparr>mem := set_invalid (current s) (mem s), trace := t @ [Sti, Hlt]\<rparr>)"
proof -
  define u where "u = emit Cli s"
  have u: "mem u = mem s" "current u = current s" "schedulingStarted u" "serial_ready u" "u = s\<lparr>trace := trace u\<rparr>"
    using assms(1,2) by (simp_all add: u_def emit_def serial_ready_def)
  let ?f = "lit (''(!) The process \"%s\" with PID %d has been terminated due to an exception (%s).'' @ newline)"
  let ?args = "[Str name, Num (ucast (pf_pid (mem u) (current u))), Str (lit msg)]"
  have "\<exists>out. render ?f ?args = Some out" by simp
  then obtain t where t: "printf ?f ?args u = Inr ((), u\<lparr>trace := t\<rparr>)" using said [OF u(4)] by blast
  have nz: "current u \<noteq> 0" "read_str (mem u) (pf_name (current u)) = Some name" using assms(3,4) u(1,2) by simp_all
  have eq: "mem (u\<lparr>trace := t\<rparr>) = mem u" "current (u\<lparr>trace := t\<rparr>) = current u" by simp_all
  have "CommonExceptionHandler msg s = Inl (Endless, emit Hlt (emit Sti (u\<lparr>trace := t, mem := set_invalid (current u) (mem u)\<rparr>)))"
    unfolding CommonExceptionHandler_def Let_def u_def [symmetric]
    by (simp only: u(3) nz option.case t bindR_Inr eq if_True if_False simp_thms)
  then show ?thesis by (intro exI [of _ t]) (simp add: emit_def u(1,2), simp add: u_def emit_def)
qed

text \<open>The list of tasks after a change of memory outside the frames.\<close>

lemma running_outside:
  assumes "running s fs" and "\<And>f x. f \<in> set (prochead s # fs) \<Longrightarrow> x \<in> bytes f 224 \<Longrightarrow> m x = mem s x"
  shows "running (s\<lparr>mem := m, trace := t\<rparr>) fs"
proof -
  have links: "same_links m (mem s) f" if "f \<in> set (prochead s # fs)" for f
    using that assms(2) by (intro same_linksI) blast
  have "tasks (s\<lparr>mem := m, trace := t\<rparr>) fs"
    by (rule tasks_links [of s]) (use assms(1) links in \<open>auto simp: running_def\<close>)
  moreover have "pf_quanta m f = pf_quanta (mem s) f" if "f \<in> set fs" for f
    using assms(2) [of f "f + 193"] that offset_in_bytes [of 193 224 f] by (simp add: pf_quanta_def)
  ultimately show ?thesis using assms(1) links by (auto simp: running_def same_links_def)
qed

lemma regs_at_stack: "8 * length rs \<le> n \<Longrightarrow> n \<le> 2 ^ 64 \<Longrightarrow> bytes (rsp - 8 * of_nat (length rs)) (8 * length rs) \<subseteq> bytes (rsp - 8 * of_nat (length rs)) n"
  using subrange [of 0 "8 * length rs" n "rsp - 8 * of_nat (length rs)"] by simp

text \<open>The state in which \<open>TimerStub\<close> calls the scheduler: the registers are on the stack, the tasks as before.\<close>

definition stub_state :: "u64 list \<Rightarrow> addr \<Rightarrow> 'z sched_scheme \<Rightarrow> 'z sched_scheme" where
  "stub_state regs rsp s = s\<lparr>trace := trace s @ [Cr3Load (pml4 s)], mem := snd (push regs rsp (mem s))\<rparr>"

lemma stub_state:
  assumes "running s fs" and "length regs = 15" and "stack_ok s fs (rsp - 120)"
  defines "u \<equiv> stub_state regs rsp s"
  shows "running u fs" and "stack_ok u fs (rsp - 120)" and "pop 15 (rsp - 120) (mem u) = regs"
    and "f \<in> set fs \<Longrightarrow> pop 15 (pf_regs f) (mem u) = pop 15 (pf_regs f) (mem s)"
    and "f \<in> set fs \<Longrightarrow> pf_quanta (mem u) f = pf_quanta (mem s) f"
proof -
  have u: "u = s\<lparr>mem := mem u, trace := trace s @ [Cr3Load (pml4 s)]\<rparr>" "mem u = snd (push regs rsp (mem s))" "prochead u = prochead s"
    by (simp_all add: u_def stub_state_def)
  have out: "mem u x = mem s x" if "x \<notin> bytes (rsp - 120) 160" for x
    unfolding u(2) by (rule push_outside) (use that regs_at_stack [of regs 160 rsp] assms(2) in auto)
  have frames: "mem u x = mem s x" if "f \<in> set (prochead s # fs)" "x \<in> bytes f 224" for f x
    using assms(3) that unfolding stack_ok_def by (intro out) blast
  show "running u fs" by (subst u(1), rule running_outside [OF assms(1)]) (rule frames)
  show "stack_ok u fs (rsp - 120)" using assms(3) u(3) by (simp add: stack_ok_def)
  show "pop 15 (rsp - 120) (mem u) = regs" using push_pop [of regs rsp "mem s"] assms(2) by (simp add: u(2))
  assume f: "f \<in> set fs"
  show "pop 15 (pf_regs f) (mem u) = pop 15 (pf_regs f) (mem s)"
    by (rule pop_ctx, rule ctx_cong) (use frames [of f] f regs_in_frame [of f] in auto)
  show "pf_quanta (mem u) f = pf_quanta (mem s) f"
    using frames [of f "f + 193"] f offset_in_bytes [of 193 224 f] by (simp add: pf_quanta_def)
qed

text \<open>A timer tick leaves all variables alone that are not the scheduler's.\<close>

lemma TaskSwitch_rest:
  assumes "running s fs" and "stack_ok s fs stack" and "i < length fs" and "current s = fs ! i" and "TaskSwitch stack s = Inr ((), s')"
  shows "\<exists>m c t. s' = s\<lparr>mem := m, current := c, trace := t\<rparr>"
proof -
  obtain m c where "s' = (RTC_Check s)\<lparr>mem := m, current := c\<rparr>" using TaskSwitch_tick [OF assms(1-4)] assms(5) by auto
  then have "s' = s\<lparr>mem := m, current := c, trace := trace (RTC_Check s)\<rparr>" by (subst (asm) RTC_Check_trace) simp
  then show ?thesis by blast
qed

section \<open>A small system\<close>

text \<open>
  The machine of \<open>demo_apic\<close> with the array \<open>idt\<close> at \<open>0x500000\<close> and the routines at multiples of 256; and
  the two tasks of \<open>demo_sched\<close> on it.
\<close>

definition demo_code :: "routine \<Rightarrow> addr" where
  "demo_code r = (case r of TimerIrq \<Rightarrow> 0xFFFFFFFF80001000 | KeyboardIrq \<Rightarrow> 0xFFFFFFFF80002000 | _ \<Rightarrow> 0xFFFFFFFF80003000)"

definition demo_idt :: idts where
  "demo_idt = apic.extend (demo_apic 12) (idts.fields 0x500000 0 0 demo_code)"

definition demo_tasks :: idts where
  "demo_tasks = demo_idt\<lparr>mem := demo_frames_mem, prochead := 0x302000, current := 0x300000, schedulingStarted := True\<rparr>"

lemma demo_idt_boot: "irq_boot demo_idt [(1, 12, 0xFEC00000)]"
proof -
  have f: "mem demo_idt = mem (demo_apic 12)" "madtPtr demo_idt = 0x720000" "idt demo_idt = 0x500000" "serial_ready demo_idt"
    using demo_apic_mem(2,3) [of 12] by (simp_all add: demo_idt_def apic.defs idts.defs serial_ready_def)
  have "ic_type (mem (demo_apic 12)) 0x72002C = 1" "ic_length (mem (demo_apic 12)) 0x72002C = 12"
    by (simp_all add: demo_apic_mem ic_type_def ic_length_def store_le_def drop_bit_eq_div)
  then have "madt_at (mem (demo_apic 12)) 0x720000 [(1, 12, 0xFEC00000)]"
    by (simp add: madt_at_def demo_madt ics_len_def ic_address_def)
  moreover have "mem (demo_apic 12) x = 0" if "x \<in> bytes 0x500000 4096" for x
  proof -
    have away: "x \<notin> bytes a 4" if "bytes 0x500000 4096 \<inter> bytes a 4 = {}" for a using that \<open>x \<in> bytes 0x500000 4096\<close> by blast
    have "x \<notin> bytes 0x720004 4" "x \<notin> bytes 0x720024 4" "x \<notin> bytes 0x72002C 4" "x \<notin> bytes 0x720030 4"
      by (rule away, rule bytes_disjoint; simp)+
    then show ?thesis by (simp add: demo_apic_mem store_le_outside)
  qed
  moreover have "bytes 0x500000 4096 \<inter> bytes 0x720000 64 = {}" by (rule bytes_disjoint) simp_all
  ultimately show ?thesis by (simp add: irq_boot_def f ics_len_def)
qed

lemma demo_tasks_running:
  "running demo_tasks [0x300000, 0x301000]" "stack_ok demo_tasks [0x300000, 0x301000] 0x400000"
  using demo_running by (simp_all add: running_def tasks_def stack_ok_def demo_tasks_def demo_sched_def)

section \<open>Properties\<close>

text \<open>
  C19: after \<open>InitializeIDT\<close> the processor delivers exactly the vectors of \<open>idt_plan\<close>, each to its
  routine through a gate on the kernel code segment of the descriptor table; every other
  vector has no gate, among them vector 0, the one a division error raises. Memory outside
  the array \<open>idt\<close> is not changed.
\<close>

theorem idt_vectors:
  assumes "irq_boot s es"
  shows "\<exists>s'. InitializeIDT s = Inr ((), s') \<and> (\<forall>v < 256. delivered s' v = map_option (code_of s) (map_of idt_plan v)) \<and>
    delivered s' 0 = None \<and> (\<forall>x. x \<notin> bytes (idt s) 4096 \<longrightarrow> mem s' x = mem s x)"
proof -
  from InitializeIDT_effect [OF assms] obtain s' where s': "InitializeIDT s = Inr ((), s')" "mem s' = idt_mem s" "idtr_limit s' = 0x0fff" "idtr_ptr s' = idt s"
    by auto
  have zero: "mem s x = 0" if "x \<in> bytes (idt s) 4096" for x using assms that by (simp add: irq_boot_def)
  have all: "delivered s' v = map_option (code_of s) (map_of idt_plan v)" if "v < 256" for v
    using idt_mem_target [OF zero that] that by (simp add: delivered_def s')
  moreover have "map_of idt_plan 0 = None" by (simp add: idt_plan_def)
  ultimately show ?thesis using all [of 0] s' by (auto simp: idt_mem_outside)
qed

theorem idt_vectors_witness:
  "\<exists>s'. InitializeIDT demo_idt = Inr ((), s') \<and> delivered s' 40 = Some 0xFFFFFFFF80001000 \<and> delivered s' 14 = Some 0xFFFFFFFF80003000 \<and>
    delivered s' 0 = None"
  using idt_vectors [OF demo_idt_boot] by (auto simp: idt_plan_def demo_idt_def apic.defs idts.defs demo_code_def)

text \<open>What the redirection entry of a pin of the I/O APIC says after the events so far.\<close>

definition pin_entry :: "'z apic_scheme \<Rightarrow> u32 \<Rightarrow> redirection" where
  "pin_entry s pin = (let regs = snd (ioapic_state (ioAPIC s) (trace s)) in
     redir_of (push_bit 32 (ucast (regs (0x11 + 2 * pin))) OR ucast (regs (0x10 + 2 * pin))))"



text \<open>
  C21: whatever state the two 8259 controllers are in, \<open>RemapPIC\<close> followed by \<open>DisablePIC\<close> leaves them
  initialised with the two vector offsets and with every line masked.
\<close>

theorem pics_remapped_masked:
  "\<exists>es. DisablePIC (RemapPIC o1 o2 s) = s\<lparr>trace := trace s @ es\<rparr> \<and>
    pic_state 0x20 p es = \<lparr>phase = 0, icw4 = True, voffset = ucast o1, imr = 0xFF\<rparr> \<and>
    pic_state 0xA0 q es = \<lparr>phase = 0, icw4 = True, voffset = ucast o2, imr = 0xFF\<rparr>"
proof -
  obtain a1 a2 where r: "RemapPIC o1 o2 s = s\<lparr>trace := trace s @ remap_events o1 o2 a1 a2\<rparr>" using RemapPIC_events by blast
  have "DisablePIC (RemapPIC o1 o2 s) = s\<lparr>trace := trace s @ remap_events o1 o2 a1 a2 @ [OutB 0xA1 0xFF, OutB 0x21 0xFF]\<rparr>"
    by (simp add: r DisablePIC_def outb_def emit_def)
  then show ?thesis
    by (intro exI [of _ "remap_events o1 o2 a1 a2 @ [OutB 0xA1 0xFF, OutB 0x21 0xFF]"] conjI)
      (simp_all add: pic_state_def remap_events_def bits_0x11)
qed



text \<open>
  C23: an exception in a task does not reach the other tasks: each of the nine handlers marks
  the running task and halts, and the next timer tick takes that task off the list, keeps all
  others and resumes the first of them with its saved context.
\<close>

theorem exception_isolated:
  assumes "(h, msg) \<in> set exceptions" and "schedulingStarted s" and "tasks s (as @ f # bs)" and "current s = f"
    and "read_str (mem s) (pf_name f) = Some name" and "\<forall>a \<in> set as. pf_pid (mem s) a \<noteq> pf_pid (mem s) f"
    and "serial_ready s" and "stack_ok s (as @ f # bs) stack" and "as @ bs = g # gs" and "pf_quanta (mem s) g \<noteq> 0"
  shows "\<exists>s1 s2. h s = Inl (Endless, s1) \<and> TaskSwitch stack s1 = Inr ((), s2) \<and> tasks s2 (as @ bs) \<and>
    current s2 = g \<and> ctx (mem s2) stack = ctx (mem s) (pf_regs g)"
proof -
  have "f \<noteq> 0" using assms(3) chain_nonzero [of 216 "mem s" "pf_next (mem s) (prochead s)" "as @ f # bs" f] by (simp add: tasks_def)
  with CommonExceptionHandler_marks [OF assms(7,2), of name msg] assms(4,5) obtain s1 where
    s1: "h s = Inl (Endless, s1)" "mem s1 = set_invalid f (mem s)" "prochead s1 = prochead s" "current s1 = f" "device s1 = device s"
    unfolding exceptions_common [OF assms(1)] by auto
  from marked_task_reaped [OF assms(3,6-10) s1(2-5)] s1(1) show ?thesis by blast
qed

theorem exception_isolated_witness:
  "\<exists>s1 s2. PageFaultHandler demo_tasks = Inl (Endless, s1) \<and> TaskSwitch 0x400000 s1 = Inr ((), s2) \<and>
    tasks s2 [0x301000] \<and> current s2 = 0x301000"
proof -
  have "mem demo_tasks (pf_name 0x300000) = 0" by (simp add: demo_tasks_def demo_frames_mem_def pf_name_def store_le_def)
  then have "read_str (mem demo_tasks) (pf_name 0x300000) = Some []" by (intro read_str_cstr) (simp_all add: cstr_at_def)
  moreover have "(PageFaultHandler, ''Page fault'') \<in> set exceptions" by (simp add: exceptions_def)
  moreover have "serial_ready demo_tasks" using demo_idt_boot by (simp add: demo_tasks_def irq_boot_def serial_ready_def)
  ultimately show ?thesis
    using exception_isolated [of PageFaultHandler "''Page fault''" demo_tasks "[]" "0x300000" "[0x301000]" "[]" "0x400000" "0x301000" "[]"]
      demo_tasks_running by (auto simp: running_def demo_tasks_def demo_frames)
qed

text \<open>
  C24: a keyboard interrupt prints the character of the key, if one went down, keeps the state of
  the shift key, and ends with the end-of-interrupt signal to the local APIC; the kernel's page
  table is loaded first. It does not touch memory.
\<close>

theorem keyboard_interrupt:
  fixes s :: "'z apic_scheme"
  assumes "serial_ready s" and "c = (ucast (device s (trace s @ [Cr3Load (pml4 s)]) 0x60) :: u8)" and "c \<noteq> 0x80"
  shows "\<exists>es. KeyboardHandler s = Inr ((), s\<lparr>shiftpressed := shift_after (shiftpressed s) c,
    trace := trace s @ [Cr3Load (pml4 s), InB 0x60 c] @ es @ [MmioW (localAPIC s + 0x0B0) 0]\<rparr>) \<and>
    sent es = crlf (key_char (shiftpressed s) c)"
proof -
  define u where "u = s\<lparr>trace := trace s @ [Cr3Load (pml4 s), InB 0x60 c]\<rparr>"
  have start: "KeyboardHandler s = bindR (KeyboardDriver (uint c) u) (\<lambda>_ s. Inr ((), LAPIC_EOI s))"
    by (simp add: KeyboardHandler_def LoadKernelPML4_def cr3load_def inb_def emit_def u_def assms(2) Let_def)
  have "serial_ready u" using assms(1) by (simp add: u_def serial_ready_def)
  from KeyboardDriver_step [OF this assms(3)] obtain es where
    "KeyboardDriver (uint c) u = Inr ((), u\<lparr>trace := trace u @ es, shiftpressed := shift_after (shiftpressed u) c\<rparr>)"
    "sent es = crlf (key_char (shiftpressed u) c)" by blast
  then show ?thesis unfolding start
    by (intro exI [of _ es]) (simp add: LAPIC_EOI_def mmio_out_def emit_def u_def)
qed

theorem keyboard_interrupt_witness:
  "\<exists>s'. KeyboardHandler (demo_idt\<lparr>device := (\<lambda>t port. if port = 0x60 then 0x2A else 0x20)\<rparr>) = Inr ((), s') \<and> shiftpressed s'"
proof -
  let ?s = "demo_idt\<lparr>device := (\<lambda>t port. if port = 0x60 then 0x2A else 0x20)\<rparr>"
  have "serial_ready ?s" by (simp add: serial_ready_def)
  from keyboard_interrupt [OF this, of "0x2A"] show ?thesis by (auto simp: shift_after_def)
qed



end
