(* ===== verification/Pcie.thy ===== *)
theory Pcie
  imports Acpi
begin

text \<open>
  The PCI Express driver, \<open>drivers/pci/pcie.c\<close> and \<open>pcie.h\<close>: it walks the configuration space that
  the MCFG describes, bus by bus, and reports every device function it finds. The
  configuration space is part of memory. The reference it is compared with is the text of the
  report, written from the addresses \<open>ecam\<close> of the PCI Express specification.
\<close>

section \<open>Names\<close>

definition IdentifyVendor :: "int \<Rightarrow> string" where
  "IdentifyVendor VendorCode =
     (case map_of
        [(0x8086, ''Intel Corporation''),
         (0x1022, ''Advanced Micro Devices, Inc. [AMD]''),
         (0x1414, ''Microsoft Corporation''),
         (0x1234, ''Generic/Emulator''),
         (0x144D, ''Samsung Electronics Co Ltd'')] VendorCode of
       Some name \<Rightarrow> name | None \<Rightarrow> ''Unknown'')"

definition ClassCodeType :: "int \<Rightarrow> string" where
  "ClassCodeType ClassCode =
     (case map_of
        [(0, ''Unclassified''), (1, ''Mass Storage Controller''), (2, ''Network Controller''),
         (3, ''Display Controller''), (4, ''Multimedia Controller''), (5, ''Memory Controller''),
         (6, ''Bridge''), (7, ''Communication Controller''), (8, ''Generic System Peripheral''),
         (9, ''Input Device Controller''), (10, ''Docking Station''), (11, ''Processor''),
         (12, ''Serial Bus Controller''), (13, ''Wireless Controller''), (14, ''Intelligent Controller''),
         (15, ''Satellite Communications Controller''), (16, ''Encryption Controller''),
         (17, ''Signal Processing Controller''), (18, ''Processing Accelerators''),
         (19, ''Non-Essential Instrumentation'')] ClassCode of
       Some name \<Rightarrow> name | None \<Rightarrow> ''???'')"

text \<open>The tables of subclass names; \<open>None\<close> is an entry that is a null pointer.\<close>

definition subclassMassStorageController :: "string option list" where
  "subclassMassStorageController = map Some [''SCSI Storage controller'', ''IDE interface'',
     ''Floppy disk controller'', ''IPI bus controller'', ''RAID bus controller'', ''ATA controller'',
     ''SATA controller'', ''Serial Attached SCSI controller'', ''Non-Volatile memory controller'',
     ''Universal Flash Storage controller'']"

definition subclassNetworkController :: "string option list" where
  "subclassNetworkController = map Some [''Ethernet controller'', ''Token ring network controller'',
     ''FDDI network controller'', ''ATM network controller'', ''ISDN controller'', ''WorldFip controller'',
     ''PICMG controller'', ''Infiniband controller'', ''Fabric controller'']"

definition subclassDisplayController :: "string option list" where
  "subclassDisplayController = map Some [''VGA compatible controller'', ''XGA compatible controller'',
     ''3D controller'']"

definition subclassMultimediaController :: "string option list" where
  "subclassMultimediaController = map Some [''Multimedia video controller'',
     ''Multimedia audio controller'', ''Computer telephony device'', ''Audio device'']"

definition subclassMemoryController :: "string option list" where
  "subclassMemoryController = map Some [''RAM memory'', ''FLASH memory'', ''CXL'']"

definition subclassBridge :: "string option list" where
  "subclassBridge = map Some [''Host bridge'', ''ISA bridge'', ''EISA bridge'', ''MicroChannel bridge'',
     ''PCI bridge'', ''PCMCIA bridge'', ''NuBus bridge'', ''CardBus bridge'', ''RACEway bridge'',
     ''Semi-transparent PCI-to-PCI bridge'', ''InfiniBand to PCI host bridge'']"

definition subclassCommunicationController :: "string option list" where
  "subclassCommunicationController = map Some [''Serial controller'', ''Parallel controller'',
     ''Multiport serial controller'', ''Modem'', ''GPIB controller'', ''Smart Card controller'']"

definition subclassGenericSystemPeripheral :: "string option list" where
  "subclassGenericSystemPeripheral = map Some [''PIC'', ''DMA controller'', ''Timer'', ''RTC'',
     ''PCI Hot-plug controller'', ''SD Host controller'',
     ''IOMMU''] @ replicate 92 None @ map Some [''Timing card'']"

definition subclassInputDeviceController :: "string option list" where
  "subclassInputDeviceController = map Some [''Keyboard controller'', ''Digitizer pen'',
     ''Mouse controller'', ''Scanner controller'', ''Gameport controller'']"

definition subclassProcessor :: "string option list" where
  "subclassProcessor = map Some [''386'', ''486'',
     ''Pentium''] @ replicate 7 None @ map Some [''Alpha''] @ replicate 7 None @ map Some [''Power PC''] @ replicate 7 None @ map Some [''MIPS''] @ replicate 7 None @ map Some [''Co-processor'']"

definition subclassSerialBusController :: "string option list" where
  "subclassSerialBusController = map Some [''FireWire (IEEE 1394)'', ''ACCESS Bus'', ''SSA'',
     ''USB controller'', ''Fibre Channel'', ''SMBus'', ''InfiniBand'', ''IPMI Interface'',
     ''SERCOS interface'', ''CANBUS'']"

definition subclassWirelessController :: "string option list" where
  "subclassWirelessController = map Some [''IRDA Controller'', ''Consumer IR controller'',
     ''RF controller'', ''Bluetooth'', ''Broadband'', ''802.1a controller'', ''802.1b controller'']"

definition subclassSatelliteCommunicationsController :: "string option list" where
  "subclassSatelliteCommunicationsController = map Some [''Satellite TV controller'',
     ''Satellite audio communication controller'', ''Satellite voice communication controller'',
     ''Satellite data communication controller'']"

definition subclassEncryptionController :: "string option list" where
  "subclassEncryptionController = map Some [''Network and computing encryption device'',
     ''Entertainment encryption device'']"

definition subclassSignalProcessingController :: "string option list" where
  "subclassSignalProcessingController = map Some [''DPIO module'', ''Performance counters'',
     ''Communication synchronizer'', ''Signal processing management'']"

definition subclassProcessingAccelerators :: "string option list" where
  "subclassProcessingAccelerators = map Some [''Processing accelerators'',
     ''SNIA Smart Data Accelerator Interface (SDXI) controller'']"

text \<open>An array read: \<open>None\<close> is a read outside the array, which has no meaning in C.\<close>

definition array_read :: "'a list \<Rightarrow> int \<Rightarrow> 'a option" where
  "array_read xs i = (if 0 \<le> i \<and> i < int (length xs) then Some (xs ! nat i) else None)"

definition SubclassType :: "int \<Rightarrow> int \<Rightarrow> string option option" where
  "SubclassType ClassCode SubclassCode =
     (if SubclassCode = 0x80 then Some (Some ''N/A'')
      else if ClassCode = 1 then array_read subclassMassStorageController SubclassCode
      else if ClassCode = 2 then array_read subclassNetworkController SubclassCode
      else if ClassCode = 3 then array_read subclassDisplayController SubclassCode
      else if ClassCode = 4 then array_read subclassMultimediaController SubclassCode
      else if ClassCode = 5 then array_read subclassMemoryController SubclassCode
      else if ClassCode = 6 then array_read subclassBridge SubclassCode
      else if ClassCode = 7 then array_read subclassCommunicationController SubclassCode
      else if ClassCode = 8 then array_read subclassGenericSystemPeripheral SubclassCode
      else if ClassCode = 9 then array_read subclassInputDeviceController SubclassCode
      else if ClassCode = 10 then Some (Some ''Generic Docking Station'')
      else if ClassCode = 11 then array_read subclassProcessor SubclassCode
      else if ClassCode = 12 then array_read subclassSerialBusController SubclassCode
      else if ClassCode = 13 then array_read subclassWirelessController SubclassCode
      else if ClassCode = 14 then Some (Some ''I20'')
      else if ClassCode = 15 then array_read subclassSatelliteCommunicationsController SubclassCode
      else if ClassCode = 16 then array_read subclassEncryptionController SubclassCode
      else if ClassCode = 17 then array_read subclassSignalProcessingController SubclassCode
      else if ClassCode = 18 then array_read subclassProcessingAccelerators SubclassCode
      else Some (Some ''???''))"

section \<open>Enumeration\<close>

text \<open>
  The fields read of \<open>struct PCIDeviceStruct\<close> (16 bytes), of \<open>struct PCIHdrType0\<close> (the base address
  registers follow the header) and of \<open>struct PCIConfigEntry\<close>.
\<close>

definition VendorID :: "memory \<Rightarrow> addr \<Rightarrow> u16" where "VendorID m p = load16 m p"
definition SubClass :: "memory \<Rightarrow> addr \<Rightarrow> u8" where "SubClass m p = m (p + 10)"
definition ClassCode :: "memory \<Rightarrow> addr \<Rightarrow> u8" where "ClassCode m p = m (p + 11)"
definition HdrType :: "memory \<Rightarrow> addr \<Rightarrow> u8" where "HdrType m p = m (p + 14)"
definition BAR :: "nat \<Rightarrow> memory \<Rightarrow> addr \<Rightarrow> u32" where "BAR k m p = load32 m (p + 16 + 4 * of_nat k)"
definition config_base :: "memory \<Rightarrow> addr \<Rightarrow> u64" where "config_base m p = load64 m p"
definition startPCIBus :: "memory \<Rightarrow> addr \<Rightarrow> u8" where "startPCIBus m p = m (p + 10)"
definition endPCIBus :: "memory \<Rightarrow> addr \<Rightarrow> u8" where "endPCIBus m p = m (p + 11)"

text \<open>\<open>for (int i = ...; i < ...; i++)\<close> over the values the variable takes.\<close>

fun for_each :: "nat list \<Rightarrow> (nat \<Rightarrow> 's \<Rightarrow> (unit, 's) res) \<Rightarrow> 's \<Rightarrow> (unit, 's) res" where
  "for_each [] body s = Inr ((), s)"
| "for_each (i # is) body s = bindR (body i s) (\<lambda>_ s. for_each is body s)"

text \<open>
  The four lines that describe a device. A subclass outside its table has no meaning in C; a
  null entry is printed up to the point where \<open>print\<close> reads through the null pointer.
\<close>

definition print_device :: "addr \<Rightarrow> 'z acpi_scheme \<Rightarrow> (unit, 'z acpi_scheme) res" where
  "print_device dev s =
     bindR (printf (lit (''Device:'' @ newline)) [] s) (\<lambda>_ s.
     bindR (printf (lit (''    - Vendor: %s'' @ newline)) [Str (lit (IdentifyVendor (uint (VendorID (mem s) dev))))] s) (\<lambda>_ s.
     bindR (printf (lit (''    - Device type: %s'' @ newline)) [Str (lit (ClassCodeType (uint (ClassCode (mem s) dev))))] s) (\<lambda>_ s.
     case SubclassType (uint (ClassCode (mem s) dev)) (uint (SubClass (mem s) dev)) of
       None \<Rightarrow> Inl (Undefined, s)
     | Some None \<Rightarrow> bindR (printf (lit ''    - Device subtype: '') [] s) (\<lambda>_ s. Inl (NullDeref, s))
     | Some (Some name) \<Rightarrow> printf (lit (''    - Device subtype: %s'' @ newline)) [Str (lit name)] s)))"

text \<open>The lines for the base address registers, formats and arguments.\<close>

definition bar_lines :: "memory \<Rightarrow> addr \<Rightarrow> (u8 list \<times> vararg list) list" where
  "bar_lines m p =
     [(lit (''    - BAR 0: 0x%x'' @ newline), [Num (ucast (BAR 0 m p))]),
      (lit (''    - BAR 1: 0x%x'' @ newline), [Num (ucast (BAR 1 m p))]),
      (lit (''    - BAR 2: 0x%x'' @ newline), [Num (ucast (BAR 2 m p))]),
      (lit (''    - BAR 3: 0x%x'' @ newline), [Num (ucast (BAR 3 m p))]),
      (lit (''    - BAR 4: 0x%x'' @ newline), [Num (ucast (BAR 4 m p))]),
      (lit (''    - BAR 5: 0x%x'' @ newline), [Num (ucast (BAR 5 m p))])]"

text \<open>The offsets are cut to an \<open>int\<close> and sign-extended when they are added to the base.\<close>

definition PCIEEnumerateFunction :: "addr \<Rightarrow> u64 \<Rightarrow> 'z acpi_scheme \<Rightarrow> (unit, 'z acpi_scheme) res" where
  "PCIEEnumerateFunction base functionid s =
     (let off = ucast (push_bit 12 functionid) :: i32;
          dev = base + scast off
      in if VendorID (mem s) dev = 0xFFFF then Inr ((), s) else print_device dev s)"

definition PCIEEnumerateDevice :: "addr \<Rightarrow> u64 \<Rightarrow> 'z acpi_scheme \<Rightarrow> (unit, 'z acpi_scheme) res" where
  "PCIEEnumerateDevice base deviceid s =
     (let off = ucast (push_bit 15 deviceid) :: i32;
          addr = base + scast off
      in if VendorID (mem s) addr = 0xFFFF then Inr ((), s)
         else if HdrType (mem s) addr AND push_bit 7 1 = 0 then
           bindR (print_device addr s) (\<lambda>_ s.
           if HdrType (mem s) addr = 0 then
             printfs (bar_lines (mem s) addr) s
           else Inr ((), s))
         else for_each [0..<8] (\<lambda>i. PCIEEnumerateFunction addr (of_nat i)) s)"

definition PCIEEnumerateBus :: "addr \<Rightarrow> u64 \<Rightarrow> 'z acpi_scheme \<Rightarrow> (unit, 'z acpi_scheme) res" where
  "PCIEEnumerateBus base busid s =
     (let off = ucast (push_bit 20 busid) :: i32;
          addr = base + scast off
      in if VendorID (mem s) addr = 0xFFFF then Inr ((), s)
         else for_each [0..<32] (\<lambda>i. PCIEEnumerateDevice addr (of_nat i)) s)"

text \<open>One entry of the MCFG; \<open>44 + (16 * i)\<close> is an \<open>int\<close> expression.\<close>

definition pcie_entry :: "addr \<Rightarrow> nat \<Rightarrow> 'z acpi_scheme \<Rightarrow> (unit, 'z acpi_scheme) res" where
  "pcie_entry mcfg i s =
     (if 2 ^ 31 \<le> 44 + 16 * i then Inl (Undefined, s)
      else
        let entry = mcfg + of_nat (44 + 16 * i) in
        for_each [unat (startPCIBus (mem s) entry)..<unat (endPCIBus (mem s) entry)]
          (\<lambda>b s. PCIEEnumerateBus (config_base (mem s) entry) (of_nat b) s) s)"

text \<open>The number of entries is computed in 64 bits and cut to an \<open>int\<close>.\<close>

definition entryCount :: "u32 \<Rightarrow> int" where
  "entryCount len = sint (ucast (((ucast len :: u64) - (36 + 8)) div 16) :: i32)"

definition InitializePCIE :: "'z acpi_scheme \<Rightarrow> (unit, 'z acpi_scheme) res" where
  "InitializePCIE s =
     bindR (printf (lit (''PCI driver initializing...'' @ newline)) [] s) (\<lambda>_ s.
     bindR (printf (lit (''------------------------------'' @ newline)) [] s) (\<lambda>_ s.
     let mcfg = GetMCFG s in
     if mcfg = 0
     then KernelSoftError ''System ACPI tables do not contain MCFG -- unable to initialize PCI-e.'' s
     else
       bindR (for_each [0..<nat (entryCount (sdt_length (mem s) mcfg))] (pcie_entry mcfg) s) (\<lambda>_ s.
       printf (lit (''------------------------------'' @ newline)) [] s)))"

section \<open>The report\<close>

text \<open>
  Function \<open>f\<close> of device \<open>d\<close> on bus \<open>b\<close> has its configuration space at \<open>ecam base b d f\<close>; a vendor of
  \<open>0xFFFF\<close> says that nothing is there.
\<close>

definition ecam :: "addr \<Rightarrow> nat \<Rightarrow> nat \<Rightarrow> nat \<Rightarrow> addr" where
  "ecam base b d f = base + of_nat (2 ^ 20 * b + 2 ^ 15 * d + 2 ^ 12 * f)"

definition present :: "memory \<Rightarrow> addr \<Rightarrow> bool" where
  "present m p \<longleftrightarrow> VendorID m p \<noteq> 0xFFFF"

definition subtype :: "memory \<Rightarrow> addr \<Rightarrow> string option" where
  "subtype m p = (case SubclassType (uint (ClassCode m p)) (uint (SubClass m p)) of Some (Some name) \<Rightarrow> Some name | _ \<Rightarrow> None)"

definition identity_text :: "memory \<Rightarrow> addr \<Rightarrow> u8 list" where
  "identity_text m p =
     lit (''Device:'' @ newline @ ''    - Vendor: '' @ IdentifyVendor (uint (VendorID m p)) @ newline @
       ''    - Device type: '' @ ClassCodeType (uint (ClassCode m p)) @ newline @
       ''    - Device subtype: '' @ (case subtype m p of Some name \<Rightarrow> name | None \<Rightarrow> []) @ newline)"

definition bar_text :: "memory \<Rightarrow> addr \<Rightarrow> u8 list" where
  "bar_text m p = concat (map (\<lambda>k.
     lit ''    - BAR '' @ [of_nat (48 + k)] @ lit '': 0x'' @ hex_text (ucast (BAR k m p)) @ lit newline) [0..<6])"

text \<open>
  A device with bit 7 of the header type set has up to eight functions, each reported by its
  identity; another one only has function 0, reported with its base address registers if its
  header is of type 0.
\<close>

definition multi_function :: "memory \<Rightarrow> addr \<Rightarrow> bool" where
  "multi_function m p \<longleftrightarrow> bit (HdrType m p) 7"

definition dev_functions :: "memory \<Rightarrow> addr \<Rightarrow> nat \<Rightarrow> nat \<Rightarrow> nat list" where
  "dev_functions m base b d =
     (if \<not> present m (ecam base b d 0) then []
      else if multi_function m (ecam base b d 0) then filter (\<lambda>f. present m (ecam base b d f)) [0..<8]
      else [0])"

definition function_text :: "memory \<Rightarrow> addr \<Rightarrow> nat \<Rightarrow> nat \<Rightarrow> nat \<Rightarrow> u8 list" where
  "function_text m base b d f =
     identity_text m (ecam base b d f) @ (if HdrType m (ecam base b d 0) = 0 then bar_text m (ecam base b d f) else [])"

definition bus_devices :: "memory \<Rightarrow> addr \<Rightarrow> nat \<Rightarrow> nat list" where
  "bus_devices m base b = (if present m (ecam base b 0 0) then [0..<32] else [])"

text \<open>All functions of the buses from \<open>lo\<close> to before \<open>hi\<close>, in the order of their numbers.\<close>

definition functions_of :: "memory \<Rightarrow> addr \<Rightarrow> nat \<Rightarrow> nat \<Rightarrow> (nat \<times> nat \<times> nat) list" where
  "functions_of m base lo hi =
     [(b, d, f). b \<leftarrow> [lo..<hi], d \<leftarrow> bus_devices m base b, f \<leftarrow> dev_functions m base b d]"

definition named :: "memory \<Rightarrow> addr \<Rightarrow> bool" where
  "named m p \<longleftrightarrow> subtype m p \<noteq> None"

section \<open>The driver prints the report\<close>

lemma cut_offset:
  assumes "2 ^ k * n < 2 ^ 31"
  shows "scast (ucast (push_bit k (of_nat n :: u64)) :: i32) = (of_nat (2 ^ k * n) :: u64)"
proof -
  have "push_bit k (of_nat n :: u64) = of_nat (2 ^ k * n)" by (simp add: push_bit_eq_mult mult.commute)
  moreover have "unat (of_nat (2 ^ k * n) :: u64) = 2 ^ k * n" using assms by (intro unat_of_nat64) simp
  ultimately have u: "(ucast (push_bit k (of_nat n :: u64)) :: i32) = of_nat (2 ^ k * n)" by (metis ucast_nat)
  have "(scast (of_nat (2 ^ k * n) :: i32) :: u64) = of_int (sint (of_nat (2 ^ k * n) :: i32))" by simp
  also have "\<dots> = of_nat (2 ^ k * n)" unfolding sint_of_nat32 [OF assms] by simp
  finally show ?thesis unfolding u .
qed

lemma bit7: "(w :: u8) AND push_bit 7 1 = 0 \<longleftrightarrow> \<not> bit w 7"
  by (simp add: push_bit_eq_mult flip: and_exp_eq_0_iff_not_bit)

lemma for_each_outputs:
  assumes "\<And>i t. i \<in> set is \<Longrightarrow> outputs (s\<lparr>trace := t\<rparr>) (body i (s\<lparr>trace := t\<rparr>)) (txt i)"
  shows "outputs s (for_each is body s) (concat (map txt is))"
  using assms
proof (induction "is" arbitrary: s)
  case Nil
  then show ?case by simp
next
  case (Cons i "is")
  have "outputs s (body i s) (txt i)" using Cons.prems [of i "trace s"] by simp
  moreover have "outputs (s\<lparr>trace := t\<rparr>) (for_each is body (s\<lparr>trace := t\<rparr>)) (concat (map txt is))" for t
    by (rule Cons.IH) (use Cons.prems in auto)
  ultimately show ?case by (auto intro: outputs_bind)
qed

lemma mem_trace: "mem (s\<lparr>trace := t\<rparr>) = mem s" and trace_twice: "s\<lparr>trace := t\<rparr>\<lparr>trace := u\<rparr> = s\<lparr>trace := u\<rparr>"
  by simp_all

lemma mcfg_trace: "mcfgPtr (s\<lparr>trace := t\<rparr>) = mcfgPtr s"
  by simp

lemma print_device_outputs:
  assumes "serial_ready s" and "named (mem s) p"
  shows "outputs s (print_device p s) (identity_text (mem s) p)"
proof -
  obtain name where sub: "SubclassType (uint (ClassCode (mem s) p)) (uint (SubClass (mem s) p)) = Some (Some name)"
    using assms(2) by (auto simp: named_def subtype_def split: option.splits)
  have lines: "identity_text (mem s) p = lit (''Device:'' @ newline) @
      (lit (''    - Vendor: '' @ IdentifyVendor (uint (VendorID (mem s) p)) @ newline) @
      (lit (''    - Device type: '' @ ClassCodeType (uint (ClassCode (mem s) p)) @ newline) @
       lit (''    - Device subtype: '' @ name @ newline)))"
    by (simp add: identity_text_def subtype_def sub)
  have line: "outputs (s\<lparr>trace := t\<rparr>) (printf f args (s\<lparr>trace := t\<rparr>)) out" if "render f args = Some out" for f args out t
    using printf_outputs [of "s\<lparr>trace := t\<rparr>", OF _ that] assms(1) by simp
  have first: "outputs s (printf (lit (''Device:'' @ newline)) [] s) (lit (''Device:'' @ newline))"
    using line [of "lit (''Device:'' @ newline)" "[]", of _ "trace s"] by simp
  have vendor: "outputs (s\<lparr>trace := t\<rparr>) (printf (lit (''    - Vendor: %s'' @ newline)) [Str (lit v)] (s\<lparr>trace := t\<rparr>))
      (lit (''    - Vendor: '' @ v @ newline))" for t v by (rule line) simp
  have type: "outputs (s\<lparr>trace := t\<rparr>) (printf (lit (''    - Device type: %s'' @ newline)) [Str (lit v)] (s\<lparr>trace := t\<rparr>))
      (lit (''    - Device type: '' @ v @ newline))" for t v by (rule line) simp
  have sub_line: "outputs (s\<lparr>trace := t\<rparr>) (printf (lit (''    - Device subtype: %s'' @ newline)) [Str (lit v)] (s\<lparr>trace := t\<rparr>))
      (lit (''    - Device subtype: '' @ v @ newline))" for t v by (rule line) simp
  show ?thesis
    unfolding lines print_device_def
    by (intro outputs_bind first) (simp_all only: mem_trace trace_twice sub option.case vendor type sub_line)
qed

lemma ecam_step:
  "f < 8 \<Longrightarrow> ecam base b d 0 + scast (ucast (push_bit 12 (of_nat f :: u64)) :: i32) = ecam base b d f"
  "d < 32 \<Longrightarrow> ecam base b 0 0 + scast (ucast (push_bit 15 (of_nat d :: u64)) :: i32) = ecam base b d 0"
  "b < 256 \<Longrightarrow> base + scast (ucast (push_bit 20 (of_nat b :: u64)) :: i32) = ecam base b 0 0"
  by (subst cut_offset; simp add: ecam_def)+

lemma concat_filter: "concat (map g (filter P xs)) = concat (map (\<lambda>x. if P x then g x else []) xs)"
  by (induction xs) auto

lemma function_outputs:
  assumes "serial_ready s" and "f < 8" and "present (mem s) (ecam base b d f) \<Longrightarrow> named (mem s) (ecam base b d f)"
  shows "outputs s (PCIEEnumerateFunction (ecam base b d 0) (of_nat f) s)
    (if present (mem s) (ecam base b d f) then identity_text (mem s) (ecam base b d f) else [])"
  using print_device_outputs [OF assms(1), of "ecam base b d f"] assms(3)
  by (simp add: PCIEEnumerateFunction_def Let_def ecam_step(1) [OF assms(2)] present_def)

lemma bars_outputs:
  assumes "serial_ready s"
  shows "outputs s (printfs (bar_lines (mem s) p) s) (bar_text (mem s) p)"
proof (rule printfs_outputs [OF assms])
  have "[0..<6] = [0, 1, 2, 3, 4, 5 :: nat]" by code_simp
  then show "renders  (bar_lines (mem s) p) = Some (bar_text (mem s) p)"
    by (simp add: bar_text_def bar_lines_def)
qed

lemma device_outputs:
  assumes ready: "serial_ready s" and d: "d < 32"
    and named: "\<And>f. f \<in> set (dev_functions (mem s) base b d) \<Longrightarrow> named (mem s) (ecam base b d f)"
  shows "outputs s (PCIEEnumerateDevice (ecam base b 0 0) (of_nat d) s)
    (concat (map (function_text (mem s) base b d) (dev_functions (mem s) base b d)))"
proof -
  let ?p = "ecam base b d 0"
  note addr = ecam_step(2) [OF d, of base b]
  consider (absent) "\<not> present (mem s) ?p" | (multi) "present (mem s) ?p" "multi_function (mem s) ?p"
    | (single) "present (mem s) ?p" "\<not> multi_function (mem s) ?p" by blast
  then show ?thesis
  proof cases
    case absent
    then show ?thesis by (simp add: PCIEEnumerateDevice_def addr Let_def dev_functions_def present_def)
  next
    case multi
    have fs: "dev_functions (mem s) base b d = filter (\<lambda>f. present (mem s) (ecam base b d f)) [0..<8]"
      using multi by (simp add: dev_functions_def)
    have hdr: "HdrType (mem s) ?p \<noteq> 0" "HdrType (mem s) ?p AND push_bit 7 1 \<noteq> 0"
      using multi(2) unfolding multi_function_def bit7 by auto
    have "PCIEEnumerateDevice (ecam base b 0 0) (of_nat d) s = for_each [0..<8] (\<lambda>i. PCIEEnumerateFunction ?p (of_nat i)) s"
      using multi(1) hdr by (simp add: PCIEEnumerateDevice_def addr Let_def present_def)
    moreover have "outputs s (for_each [0..<8] (\<lambda>i. PCIEEnumerateFunction ?p (of_nat i)) s)
        (concat (map (\<lambda>f. if present (mem s) (ecam base b d f) then identity_text (mem s) (ecam base b d f) else []) [0..<8]))"
    proof (rule for_each_outputs)
      fix i t assume i: "i \<in> set [0..<8 :: nat]"
      show "outputs (s\<lparr>trace := t\<rparr>) (PCIEEnumerateFunction ?p (of_nat i) (s\<lparr>trace := t\<rparr>))
          (if present (mem s) (ecam base b d i) then identity_text (mem s) (ecam base b d i) else [])"
        using function_outputs [of "s\<lparr>trace := t\<rparr>" i base b d, unfolded mem_trace] ready i named [of i] fs by simp
    qed
    moreover have "function_text (mem s) base b d = (\<lambda>f. identity_text (mem s) (ecam base b d f))"
      using hdr(1) by (intro ext) (simp add: function_text_def)
    ultimately show ?thesis by (simp add: fs concat_filter)
  next
    case single
    have fs: "dev_functions (mem s) base b d = [0]" using single by (simp add: dev_functions_def)
    have hdr: "HdrType (mem s) ?p AND push_bit 7 1 = 0" using single(2) unfolding multi_function_def bit7 .
    have id: "outputs s (print_device ?p s) (identity_text (mem s) ?p)"
      by (rule print_device_outputs [OF ready named]) (simp add: fs)
    have "outputs s (PCIEEnumerateDevice (ecam base b 0 0) (of_nat d) s)
        (identity_text (mem s) ?p @ (if HdrType (mem s) ?p = 0 then bar_text (mem s) ?p else []))"
      unfolding PCIEEnumerateDevice_def addr Let_def
    proof (simp only: hdr simp_thms if_True if_False single(1) [unfolded present_def], rule outputs_bind [OF id])
      fix t
      have ready': "serial_ready (s\<lparr>trace := t\<rparr>)" using ready by simp
      show "outputs (s\<lparr>trace := t\<rparr>) (if HdrType (mem (s\<lparr>trace := t\<rparr>)) ?p = 0 then printfs (bar_lines (mem (s\<lparr>trace := t\<rparr>)) ?p) (s\<lparr>trace := t\<rparr>)
        else Inr ((), s\<lparr>trace := t\<rparr>)) (if HdrType (mem s) ?p = 0 then bar_text (mem s) ?p else [])"
        using bars_outputs [OF ready', of ?p, unfolded mem_trace] unfolding mem_trace by (simp only: if_True if_False outputs_nothing split: if_split) simp
    qed
    then show ?thesis by (simp add: fs function_text_def)
  qed
qed

definition bus_text :: "memory \<Rightarrow> addr \<Rightarrow> nat \<Rightarrow> u8 list" where
  "bus_text m base b = concat (map (\<lambda>d. concat (map (function_text m base b d) (dev_functions m base b d))) (bus_devices m base b))"

lemma bus_outputs:
  assumes ready: "serial_ready s" and b: "b < 256"
    and named: "\<And>d f. d \<in> set (bus_devices (mem s) base b) \<Longrightarrow> f \<in> set (dev_functions (mem s) base b d) \<Longrightarrow>
      named (mem s) (ecam base b d f)"
  shows "outputs s (PCIEEnumerateBus base (of_nat b) s) (bus_text (mem s) base b)"
proof (cases "present (mem s) (ecam base b 0 0)")
  case False
  then show ?thesis by (simp add: PCIEEnumerateBus_def Let_def ecam_step(3) [OF b] present_def bus_text_def bus_devices_def)
next
  case True
  have ds: "bus_devices (mem s) base b = [0..<32]" using True by (simp add: bus_devices_def)
  have "outputs s (for_each [0..<32] (\<lambda>i. PCIEEnumerateDevice (ecam base b 0 0) (of_nat i)) s) (bus_text (mem s) base b)"
    unfolding bus_text_def ds
  proof (rule for_each_outputs)
    fix i t assume "i \<in> set [0..<32 :: nat]"
    with device_outputs [of "s\<lparr>trace := t\<rparr>" i base b, unfolded mem_trace] ready named [of i] ds
    show "outputs (s\<lparr>trace := t\<rparr>) (PCIEEnumerateDevice (ecam base b 0 0) (of_nat i) (s\<lparr>trace := t\<rparr>))
        (concat (map (function_text (mem s) base b i) (dev_functions (mem s) base b i)))" by simp
  qed
  with True show ?thesis by (simp add: PCIEEnumerateBus_def Let_def ecam_step(3) [OF b] present_def)
qed

text \<open>The MCFG as its entries, each a base address and the first and last bus number it gives.\<close>

definition mcfg_at :: "memory \<Rightarrow> addr \<Rightarrow> (addr \<times> u8 \<times> u8) list \<Rightarrow> bool" where
  "mcfg_at m p es \<longleftrightarrow> 44 + 16 * length es < 2 ^ 31 \<and> sdt_length m p = of_nat (44 + 16 * length es) \<and>
     (\<forall>i < length es. let q = p + of_nat (44 + 16 * i) in (config_base m q, startPCIBus m q, endPCIBus m q) = es ! i)"

definition entry_text :: "memory \<Rightarrow> addr \<times> u8 \<times> u8 \<Rightarrow> u8 list" where
  "entry_text m e = (case e of (base, lo, hi) \<Rightarrow>
     concat (map (\<lambda>(b, d, f). function_text m base b d f) (functions_of m base (unat lo) (unat hi))))"

definition all_named :: "memory \<Rightarrow> addr \<times> u8 \<times> u8 \<Rightarrow> bool" where
  "all_named m e \<longleftrightarrow> (case e of (base, lo, hi) \<Rightarrow>
     list_all (\<lambda>(b, d, f). named m (ecam base b d f)) (functions_of m base (unat lo) (unat hi)))"

lemma concat_flatten: "concat (concat xss) = concat (map concat xss)"
  by (induction xss) auto

lemma functions_of_text:
  "concat (map (bus_text m base) [lo..<hi]) = concat (map (\<lambda>(b, d, f). function_text m base b d f) (functions_of m base lo hi))"
  by (simp add: functions_of_def bus_text_def [abs_def] map_concat concat_flatten comp_def)

lemma entry_outputs:
  assumes ready: "serial_ready s" and at: "mcfg_at (mem s) p es" and i: "i < length es" and named: "all_named (mem s) (es ! i)"
  shows "outputs s (pcie_entry p i s) (entry_text (mem s) (es ! i))"
proof -
  let ?q = "p + of_nat (44 + 16 * i)"
  obtain base lo hi where e: "es ! i = (base, lo, hi)" by (cases "es ! i")
  with at i have q: "config_base (mem s) ?q = base" "startPCIBus (mem s) ?q = lo" "endPCIBus (mem s) ?q = hi"
    by (auto simp: mcfg_at_def Let_def)
  have small: "\<not> 2 ^ 31 \<le> 44 + 16 * i" using at i by (auto simp: mcfg_at_def)
  have "outputs s (for_each [unat lo..<unat hi] (\<lambda>b s. PCIEEnumerateBus (config_base (mem s) ?q) (of_nat b) s) s)
      (concat (map (bus_text (mem s) base) [unat lo..<unat hi]))"
  proof (rule for_each_outputs)
    fix b t assume b: "b \<in> set [unat lo..<unat hi]"
    have "unat hi < 256" using unsigned_less [of hi, where ?'a = nat] by simp
    then have "b < 256" using b by simp
    moreover have "named (mem s) (ecam base b d f)"
      if "d \<in> set (bus_devices (mem s) base b)" "f \<in> set (dev_functions (mem s) base b d)" for d f
    proof -
      have "(b, d, f) \<in> set (functions_of (mem s) base (unat lo) (unat hi))" using b that by (force simp: functions_of_def)
      with named show ?thesis by (auto simp: all_named_def e list_all_iff)
    qed
    ultimately show "outputs (s\<lparr>trace := t\<rparr>) (PCIEEnumerateBus (config_base (mem (s\<lparr>trace := t\<rparr>)) ?q) (of_nat b) (s\<lparr>trace := t\<rparr>)) (bus_text (mem s) base b)"
      using bus_outputs [of "s\<lparr>trace := t\<rparr>" b base, unfolded mem_trace] ready q(1) by simp
  qed
  with small q(2,3) show ?thesis by (simp add: pcie_entry_def Let_def entry_text_def e functions_of_text)
qed

lemma entryCount_exact:
  assumes "44 + 16 * n < 2 ^ 31"
  shows "entryCount (of_nat (44 + 16 * n)) = int n"
proof -
  have "unat (of_nat (44 + 16 * n) :: u32) = 44 + 16 * n" using assms by (intro unat_of_nat32) simp
  then have "(ucast (of_nat (44 + 16 * n) :: u32) :: u64) = of_nat (44 + 16 * n)" by (rule ucast_nat)
  then have d: "(ucast (of_nat (44 + 16 * n) :: u32) :: u64) - (36 + 8) = of_nat (16 * n)" by simp
  have "unat (of_nat (16 * n) :: u64) = 16 * n" using assms by (intro unat_of_nat64) simp
  then have "unat ((of_nat (16 * n) :: u64) div 16) = n" by (simp add: unat_div)
  then have "(ucast ((of_nat (16 * n) :: u64) div 16) :: i32) = of_nat n" by (rule ucast_nat)
  then show ?thesis unfolding entryCount_def d using assms by (simp add: sint_of_nat32)
qed

lemma entryCount_short:
  assumes "len < 44"
  shows "entryCount len < 0"
proof -
  obtain k where k: "unat len = k" "k < 44" using assms by (simp add: word_less_nat_alt)
  then have "(ucast len :: u64) = of_nat k" by (intro ucast_nat)
  then have "(ucast len :: u64) - (36 + 8) = - of_nat (44 - k)" using k(2) by (simp add: of_nat_diff)
  moreover have "unat (- of_nat (44 - k) :: u64) = 2 ^ 64 - (44 - k)"
  proof -
    have "(of_nat (2 ^ 64 - (44 - k)) :: u64) = of_nat (2 ^ 64) - of_nat (44 - k)" by (rule of_nat_diff) simp
    also have "of_nat (2 ^ 64) = (0 :: u64)" by simp
    finally have neg: "- of_nat (44 - k) = (of_nat (2 ^ 64 - (44 - k)) :: u64)" by simp
    show ?thesis unfolding neg using k(2) by (intro unat_of_nat64) simp
  qed
  ultimately have "unat (((ucast len :: u64) - (36 + 8)) div 16) = (2 ^ 64 - (44 - k)) div 16" by (simp add: unat_div)
  then have "(ucast (((ucast len :: u64) - (36 + 8)) div 16) :: i32) = of_nat ((2 ^ 64 - (44 - k)) div 16)" by (rule ucast_nat)
  moreover have "(2 ^ 64 - (44 - k)) div 16 \<in> {2 ^ 60 - 3 ..< 2 ^ 60 :: nat}" using k(2) by auto
  then have "(2 ^ 64 - (44 - k)) div 16 = 2 ^ 60 - 3 \<or> (2 ^ 64 - (44 - k)) div 16 = 2 ^ 60 - 2 \<or> (2 ^ 64 - (44 - k)) div 16 = (2 ^ 60 - 1 :: nat)"
    by auto
  ultimately show ?thesis unfolding entryCount_def by (elim disjE) (simp_all only:, simp_all)
qed

definition rule_line :: string where
  "rule_line = ''------------------------------'' @ newline"

lemma InitializePCIE_start:
  assumes "serial_ready s"
    and "\<And>t. outputs (s\<lparr>trace := t\<rparr>) (if mcfgPtr s = 0
      then KernelSoftError ''System ACPI tables do not contain MCFG -- unable to initialize PCI-e.'' (s\<lparr>trace := t\<rparr>)
      else bindR (for_each [0..<nat (entryCount (sdt_length (mem s) (mcfgPtr s)))] (pcie_entry (mcfgPtr s)) (s\<lparr>trace := t\<rparr>))
        (\<lambda>_ s. printf (lit rule_line) [] s)) out"
  shows "outputs s (InitializePCIE s) (lit (''PCI driver initializing...'' @ newline @ rule_line) @ out)"
proof -
  have line: "outputs (s\<lparr>trace := t\<rparr>) (printf (lit f) [] (s\<lparr>trace := t\<rparr>)) (lit f)" if "of_char (CHR ''%'') \<notin> set (lit f)" for f t
    using printf_outputs [of "s\<lparr>trace := t\<rparr>", OF _ render_plain [OF that]] assms(1) by simp
  have first: "outputs s (printf (lit (''PCI driver initializing...'' @ newline)) [] s) (lit (''PCI driver initializing...'' @ newline))"
    using line [of "''PCI driver initializing...'' @ newline" "trace s"] by simp
  have second: "outputs (s\<lparr>trace := t\<rparr>) (printf (lit rule_line) [] (s\<lparr>trace := t\<rparr>)) (lit rule_line)" for t
    by (rule line) (simp add: rule_line_def)
  have "outputs s (InitializePCIE s) (lit (''PCI driver initializing...'' @ newline) @ lit rule_line @ out)"
    unfolding InitializePCIE_def rule_line_def [symmetric] GetMCFG_def Let_def
    by (intro outputs_bind first) (simp_all only: trace_twice second mem_trace mcfg_trace assms(2))
  then show ?thesis by (simp add: rule_line_def)
qed

section \<open>A small system\<close>

text \<open>
  An MCFG with one entry for the buses 0 and 1, and a configuration space in which bus 0 has
  an Intel host bridge with a header of type 0 as its device 0 and nothing else; the class and
  subclass of that device are parameters.
\<close>

definition demo_pci_byte :: "u8 \<Rightarrow> u8 \<Rightarrow> nat \<Rightarrow> u8" where
  "demo_pci_byte c sc a =
     (if a = 0x710004 then 60
      else if a = 0x71002F then 0xE0
      else if a = 0x710037 then 1
      else if a = 0xE0000000 then 0x86
      else if a = 0xE0000001 then 0x80
      else if a = 0xE000000A then sc
      else if a = 0xE000000B then c
      else if 0xE0001000 \<le> a \<and> a < 0xF0000000 then 0xFF
      else 0)"

definition demo_pci_mem :: "u8 \<Rightarrow> u8 \<Rightarrow> memory" where
  "demo_pci_mem c sc a = demo_pci_byte c sc (unat a)"

definition demo_pcie :: "u8 \<Rightarrow> u8 \<Rightarrow> acpi" where
  "demo_pcie c sc = demo_acpi\<lparr>mcfgPtr := 0x710000, mem := demo_pci_mem c sc\<rparr>"

lemma demo_pcie_simps: "serial_ready (demo_pcie c sc)" "mcfgPtr (demo_pcie c sc) = 0x710000" "mem (demo_pcie c sc) = demo_pci_mem c sc"
  using demo_acpi_mem(1) by (simp_all add: demo_pcie_def serial_ready_def)

lemma load_step: "load_le n m a = (if n = 0 then 0 else ucast (m a) OR push_bit 8 (load_le (n - 1) m (a + 1)))"
  by (cases n) simp_all

lemma load_bytes: "(load_le 2 m a :: 'a::len word) = ucast (m a) OR push_bit 8 (ucast (m (a + 1)))"
  by (simp add: numeral_2_eq_2)

lemma demo_mcfg: "mcfg_at (demo_pci_mem c sc) 0x710000 [(0xE0000000, 0, 1)]"
proof -
  have "load32 (demo_pci_mem c sc) 0x710004 = 60"
    by (subst load_step, simp add: demo_pci_mem_def demo_pci_byte_def)+
  moreover have "load64 (demo_pci_mem c sc) 0x71002C = 0xE0000000"
    by (subst load_step, simp add: demo_pci_mem_def demo_pci_byte_def)+
  ultimately show ?thesis
    by (simp add: mcfg_at_def sdt_length_def config_base_def startPCIBus_def endPCIBus_def demo_pci_mem_def demo_pci_byte_def)
qed

lemma demo_absent:
  assumes "0 < d" and "d < 32"
  shows "\<not> present (demo_pci_mem c sc) (ecam 0xE0000000 0 d 0)"
proof -
  have a: "ecam 0xE0000000 0 d 0 = of_nat (0xE0000000 + 32768 * d)" and b: "ecam 0xE0000000 0 d 0 + 1 = of_nat (0xE0000001 + 32768 * d)"
    by (simp_all add: ecam_def)
  have u: "unat (of_nat (0xE0000000 + 32768 * d) :: u64) = 0xE0000000 + 32768 * d"
    "unat (of_nat (0xE0000001 + 32768 * d) :: u64) = 0xE0000001 + 32768 * d"
    using assms(2) by (intro unat_of_nat64; simp)+
  have "demo_pci_mem c sc (ecam 0xE0000000 0 d 0) = 0xFF"
    unfolding demo_pci_mem_def a u using assms by (auto simp: demo_pci_byte_def)
  moreover have "demo_pci_mem c sc (ecam 0xE0000000 0 d 0 + 1) = 0xFF"
    unfolding demo_pci_mem_def b u using assms by (auto simp: demo_pci_byte_def)
  ultimately show ?thesis by (simp add: present_def VendorID_def load_bytes)
qed

lemma demo_functions: "functions_of (demo_pci_mem 6 0) 0xE0000000 0 1 = [(0, 0, 0)]"
proof -
  let ?m = "demo_pci_mem 6 0" and ?b = "0xE0000000 :: addr"
  have zero: "ecam ?b 0 0 0 = ?b" by (simp add: ecam_def)
  have "present ?m ?b" by (simp add: present_def VendorID_def load_bytes demo_pci_mem_def demo_pci_byte_def)
  moreover have "\<not> multi_function ?m ?b" by (simp add: multi_function_def HdrType_def demo_pci_mem_def demo_pci_byte_def)
  ultimately have first: "bus_devices ?m ?b 0 = [0..<32]" "dev_functions ?m ?b 0 0 = [0]"
    by (simp_all add: bus_devices_def dev_functions_def zero)
  have "[0..<32] = 0 # [1..<32 :: nat]" by (simp add: upt_rec [of 0])
  then have "functions_of ?m ?b 0 1 = (0, 0, 0) # concat (map (\<lambda>fs. map (\<lambda>(d, f). (0, d, f)) fs)
      (map (\<lambda>d. map (\<lambda>f. (d, f)) (dev_functions ?m ?b 0 d)) [1..<32]))"
    by (simp add: functions_of_def first comp_def)
  also have "map (\<lambda>d. map (\<lambda>f. (d, f)) (dev_functions ?m ?b 0 d)) [1..<32] = map (\<lambda>_. []) [1..<32]"
    by (rule map_cong) (use demo_absent [of _ 6 0] in \<open>auto simp: dev_functions_def\<close>)
  finally show ?thesis by (simp add: comp_def)
qed

lemma pcie_outputs:
  assumes "serial_ready s" and "mcfgPtr s \<noteq> 0" and "mcfg_at (mem s) (mcfgPtr s) es" and "list_all (all_named (mem s)) es"
  shows "outputs s (InitializePCIE s)
    (lit (''PCI driver initializing...'' @ newline @ rule_line) @ concat (map (entry_text (mem s)) es) @ lit rule_line)"
proof (rule InitializePCIE_start [OF assms(1)])
  fix t
  have n: "nat (entryCount (sdt_length (mem s) (mcfgPtr s))) = length es"
    using assms(3) entryCount_exact [of "length es"] by (simp add: mcfg_at_def)
  have last: "outputs (s\<lparr>trace := t\<rparr>) (printf (lit rule_line) [] (s\<lparr>trace := t\<rparr>)) (lit rule_line)" for t
    by (rule printf_outputs) (use assms(1) in \<open>simp_all add: render_plain rule_line_def\<close>)
  have "outputs (s\<lparr>trace := t\<rparr>) (for_each [0..<length es] (pcie_entry (mcfgPtr s)) (s\<lparr>trace := t\<rparr>))
      (concat (map (\<lambda>i. entry_text (mem s) (es ! i)) [0..<length es]))"
  proof (rule for_each_outputs)
    fix i u assume "i \<in> set [0..<length es]"
    with entry_outputs [of "s\<lparr>trace := t, trace := u\<rparr>" "mcfgPtr s" es i, unfolded mem_trace] assms
    show "outputs (s\<lparr>trace := t, trace := u\<rparr>) (pcie_entry (mcfgPtr s) i (s\<lparr>trace := t, trace := u\<rparr>)) (entry_text (mem s) (es ! i))"
      by (simp add: list_all_length)
  qed
  moreover have "map (\<lambda>i. entry_text (mem s) (es ! i)) [0..<length es] = map (entry_text (mem s)) es"
    by (rule nth_equalityI) simp_all
  ultimately have entries: "outputs (s\<lparr>trace := t\<rparr>) (for_each [0..<length es] (pcie_entry (mcfgPtr s)) (s\<lparr>trace := t\<rparr>))
      (concat (map (entry_text (mem s)) es))" by simp
  show "outputs (s\<lparr>trace := t\<rparr>) (if mcfgPtr s = 0
      then KernelSoftError ''System ACPI tables do not contain MCFG -- unable to initialize PCI-e.'' (s\<lparr>trace := t\<rparr>)
      else bindR (for_each [0..<nat (entryCount (sdt_length (mem s) (mcfgPtr s)))] (pcie_entry (mcfgPtr s)) (s\<lparr>trace := t\<rparr>))
        (\<lambda>_ s. printf (lit rule_line) [] s)) (concat (map (entry_text (mem s)) es) @ lit rule_line)"
    unfolding n using assms(2) outputs_bind [OF entries, of "\<lambda>_ s. printf (lit rule_line) [] s"] last by simp
qed

section \<open>What the driver depends on\<close>

text \<open>The MCFG and the 256 MiB of each configuration space; memory elsewhere does not matter.\<close>

definition pcie_memory :: "addr \<Rightarrow> (addr \<times> u8 \<times> u8) list \<Rightarrow> addr set" where
  "pcie_memory p es = bytes p (44 + 16 * length es) \<union> (\<Union>e \<in> set es. bytes (fst e) (2 ^ 28))"

lemma ecam_inside:
  assumes "b < 256" and "d < 32" and "f < 8"
  shows "bytes (ecam base b d f) 16 \<subseteq> bytes base (2 ^ 28)"
  unfolding ecam_def using assms by (intro subrange) simp_all

lemma config_cong:
  assumes same: "\<And>x. x \<in> bytes base (2 ^ 28) \<Longrightarrow> m' x = m x" and bdf: "b < 256" "d < 32" "f < 8"
  shows "VendorID m' (ecam base b d f) = VendorID m (ecam base b d f)"
    "HdrType m' (ecam base b d f) = HdrType m (ecam base b d f)" "named m' (ecam base b d f) = named m (ecam base b d f)"
proof -
  let ?p = "ecam base b d f"
  have eq: "m' x = m x" if "x \<in> bytes ?p 16" for x using that ecam_inside [OF bdf, of base] by (intro same) blast
  have off: "m' (?p + of_nat k) = m (?p + of_nat k)" if "k < 16" for k using that by (intro eq offset_in_bytes) simp_all
  show "VendorID m' ?p = VendorID m ?p"
    unfolding VendorID_def by (rule load_le_cong) (use eq bytes_mono [of 2 16 ?p] in auto)
  show "HdrType m' ?p = HdrType m ?p" using off [of 14] by (simp add: HdrType_def)
  have "ClassCode m' ?p = ClassCode m ?p" "SubClass m' ?p = SubClass m ?p"
    using off [of 11] off [of 10] by (simp_all add: ClassCode_def SubClass_def)
  then show "named m' ?p = named m ?p" by (simp add: named_def subtype_def)
qed

lemma functions_of_cong:
  assumes same: "\<And>x. x \<in> bytes base (2 ^ 28) \<Longrightarrow> m' x = m x" and hi: "hi \<le> 256"
  shows "functions_of m' base lo hi = functions_of m base lo hi"
proof -
  note c = config_cong [of base m' m, OF same]
  have devs: "bus_devices m' base b = bus_devices m base b" if "b < 256" for b
    using c(1) [OF _ that, of 0 0] by (simp add: bus_devices_def present_def)
  have "filter (\<lambda>f. VendorID m' (ecam base b d f) \<noteq> 0xFFFF) [0..<8] = filter (\<lambda>f. VendorID m (ecam base b d f) \<noteq> 0xFFFF) [0..<8]"
    if "b < 256" "d < 32" for b d by (rule filter_cong) (use c(1) that in auto)
  then have fns: "dev_functions m' base b d = dev_functions m base b d" if "b < 256" "d < 32" for b d
    using c(1,2) [OF _ that, of 0] that by (simp add: dev_functions_def present_def multi_function_def)
  have "dev_functions m' base b d = dev_functions m base b d" if "b < 256" "d \<in> set (bus_devices m base b)" for b d
    using fns that by (auto simp: bus_devices_def split: if_splits)
  then show ?thesis
    unfolding functions_of_def using hi devs by (intro arg_cong [where f = concat] map_cong) auto
qed

lemma all_named_cong:
  assumes same: "\<And>x. x \<in> bytes (fst e) (2 ^ 28) \<Longrightarrow> m' x = m x"
  shows "all_named m' e = all_named m e"
proof -
  obtain base lo hi where e: "e = (base, lo, hi)" by (cases e)
  have hi: "unat hi \<le> 256" using unsigned_less [of hi, where ?'a = nat] by simp
  have bound: "b < 256 \<and> d < 32 \<and> f < 8" if "(b, d, f) \<in> set (functions_of m base (unat lo) (unat hi))" for b d f
    using that hi by (auto simp: functions_of_def bus_devices_def dev_functions_def split: if_splits)
  have "named m' (ecam base b d f) = named m (ecam base b d f)" if "(b, d, f) \<in> set (functions_of m base (unat lo) (unat hi))" for b d f
    using config_cong(3) [of base m' m b d f] same bound [OF that] by (simp add: e)
  then show ?thesis
    using functions_of_cong [of base m' m "unat hi" "unat lo", OF _ hi] same by (auto simp: e all_named_def list_all_iff)
qed

lemma pcie_cong:
  assumes same: "\<And>x. x \<in> pcie_memory p es \<Longrightarrow> m' x = m x" and at: "mcfg_at m p es" and named: "list_all (all_named m) es"
  shows "mcfg_at m' p es" "list_all (all_named m') es"
proof -
  let ?n = "44 + 16 * length es"
  have eq: "m' x = m x" if "x \<in> bytes p ?n" for x using that by (intro same) (simp add: pcie_memory_def)
  have n: "?n < 2 ^ 31" using at by (simp add: mcfg_at_def)
  have sub: "m' x = m x" if "x \<in> bytes (p + of_nat k) l" "k + l \<le> ?n" for x k l
    using that n by (intro eq subsetD [OF subrange [of k l ?n p]]) simp_all
  have "sdt_length m' p = sdt_length m p"
    unfolding sdt_length_def by (rule load_le_cong) (use sub [of _ 4 4] in auto)
  moreover have "(config_base m' q, startPCIBus m' q, endPCIBus m' q) = (config_base m q, startPCIBus m q, endPCIBus m q)"
    if i: "i < length es" and q: "q = p + of_nat (44 + 16 * i)" for i q
  proof -
    have e: "m' x = m x" if "x \<in> bytes q 16" for x by (rule sub [of _ "44 + 16 * i" 16]) (use that q i in simp_all)
    have off: "m' (q + of_nat k) = m (q + of_nat k)" if "k < 16" for k using that by (intro e offset_in_bytes) simp_all
    have "config_base m' q = config_base m q"
      unfolding config_base_def by (rule load_le_cong) (use e bytes_mono [of 8 16 q] in auto)
    then show ?thesis using off [of 10] off [of 11] by (simp add: startPCIBus_def endPCIBus_def)
  qed
  ultimately show "mcfg_at m' p es" using at by (simp add: mcfg_at_def Let_def)
  have "all_named m' e = all_named m e" if "e \<in> set es" for e
    using that by (intro all_named_cong same) (auto simp: pcie_memory_def)
  then show "list_all (all_named m') es" using named by (simp add: list_all_iff)
qed

section \<open>Properties\<close>



text \<open>
  The code treats the end bus of an MCFG entry as exclusive: an entry for a single bus,
  whose first and last bus are the same, is not scanned at all. Whatever that bus holds, the
  report is empty.
\<close>

theorem pcie_single_bus_silent:
  assumes "serial_ready s" and "mcfgPtr s \<noteq> 0" and "mcfg_at (mem s) (mcfgPtr s) [(base, b, b)]"
  shows "outputs s (InitializePCIE s) (lit (''PCI driver initializing...'' @ newline @ rule_line @ rule_line))"
proof -
  have none: "functions_of (mem s) base (unat b) (unat b) = []" by (simp add: functions_of_def)
  have n: "nat (entryCount (sdt_length (mem s) (mcfgPtr s))) = 1"
    using assms(3) entryCount_exact [of 1] by (simp add: mcfg_at_def)
  have "all_named (mem s) (base, b, b)" by (simp add: all_named_def none)
  then have entry: "outputs (s\<lparr>trace := t\<rparr>) (pcie_entry (mcfgPtr s) 0 (s\<lparr>trace := t\<rparr>)) []" for t
    using entry_outputs [of "s\<lparr>trace := t\<rparr>" "mcfgPtr s" "[(base, b, b)]" 0] assms(1,3) by (simp add: entry_text_def none)
  have last: "outputs (s\<lparr>trace := t\<rparr>) (printf (lit rule_line) [] (s\<lparr>trace := t\<rparr>)) (lit rule_line)" for t
    by (rule printf_outputs) (use assms(1) in \<open>simp_all add: render_plain rule_line_def\<close>)
  have "outputs (s\<lparr>trace := t\<rparr>) (for_each [0..<1] (pcie_entry (mcfgPtr s)) (s\<lparr>trace := t\<rparr>)) []" for t
    using for_each_outputs [of "[0..<1]" "s\<lparr>trace := t\<rparr>" "pcie_entry (mcfgPtr s)" "\<lambda>_. []"] entry by simp
  from outputs_bind [OF this, where f = "\<lambda>_ s. printf (lit rule_line) [] s"]
  have "outputs s (InitializePCIE s) (lit (''PCI driver initializing...'' @ newline @ rule_line) @ lit rule_line)"
    by (intro InitializePCIE_start [OF assms(1)]) (use assms(2) n last in simp)
  then show ?thesis by simp
qed

theorem pcie_single_bus_silent_witness:
  "outputs (demo_pcie 6 0\<lparr>mem := (demo_pci_mem 6 0)(0x710037 := 0)\<rparr>) (InitializePCIE (demo_pcie 6 0\<lparr>mem := (demo_pci_mem 6 0)(0x710037 := 0)\<rparr>))
    (lit (''PCI driver initializing...'' @ newline @ rule_line @ rule_line))"
proof -
  let ?s = "demo_pcie 6 0\<lparr>mem := (demo_pci_mem 6 0)(0x710037 := 0)\<rparr>"
  have "mcfg_at (mem ?s) 0x710000 [(0xE0000000, 0, 0)]"
    using demo_mcfg [of 6 0] by (simp add: mcfg_at_def sdt_length_def config_base_def startPCIBus_def endPCIBus_def load_upd_away)
  moreover have "serial_ready ?s" using demo_pcie_simps(1) [of 6 0] by (simp add: serial_ready_def)
  ultimately show ?thesis using pcie_single_bus_silent [of ?s "0xE0000000" 0] by (simp add: demo_pcie_simps(2))
qed

text \<open>
  No function checks a subclass against the size of its table: a present single-function
  device whose class has a table and whose subclass, other than \<open>0x80\<close>, lies outside it makes the
  driver read outside the array.
\<close>

theorem pcie_subclass_outside:
  assumes "serial_ready s" and "d < 32" and "present (mem s) (ecam base b d 0)" and "\<not> multi_function (mem s) (ecam base b d 0)"
    and "SubclassType (uint (ClassCode (mem s) (ecam base b d 0))) (uint (SubClass (mem s) (ecam base b d 0))) = None"
  shows "\<exists>s'. PCIEEnumerateDevice (ecam base b 0 0) (of_nat d) s = Inl (Undefined, s')"
proof -
  let ?p = "ecam base b d 0"
  have line: "\<exists>u. printf f args (s\<lparr>trace := t\<rparr>) = Inr ((), s\<lparr>trace := u\<rparr>)" if "render f args = Some out" for f args out t
    using said [of "s\<lparr>trace := t\<rparr>", OF _ that] assms(1) by simp
  obtain t1 where t1: "printf (lit (''Device:'' @ newline)) [] s = Inr ((), s\<lparr>trace := t1\<rparr>)"
    using line [of "lit (''Device:'' @ newline)" "[]" _ "trace s"] by fastforce
  have "\<exists>out. render (lit (''    - Vendor: %s'' @ newline)) [Str v] = Some out" for v by simp
  then obtain t2 where t2: "printf (lit (''    - Vendor: %s'' @ newline)) [Str (lit (IdentifyVendor (uint (VendorID (mem s) ?p))))] (s\<lparr>trace := t1\<rparr>) =
      Inr ((), s\<lparr>trace := t2\<rparr>)" using line by blast
  have "\<exists>out. render (lit (''    - Device type: %s'' @ newline)) [Str v] = Some out" for v by simp
  then obtain t3 where t3: "printf (lit (''    - Device type: %s'' @ newline)) [Str (lit (ClassCodeType (uint (ClassCode (mem s) ?p))))] (s\<lparr>trace := t2\<rparr>) =
      Inr ((), s\<lparr>trace := t3\<rparr>)" using line by blast
  have "print_device ?p s = Inl (Undefined, s\<lparr>trace := t3\<rparr>)"
    by (simp only: print_device_def t1 t2 t3 bindR_Inr mem_trace assms(5) option.case)
  moreover have "HdrType (mem s) ?p AND push_bit 7 1 = 0" using assms(4) unfolding multi_function_def bit7 .
  ultimately show ?thesis
    using assms(3) by (simp add: PCIEEnumerateDevice_def ecam_step(2) [OF assms(2)] Let_def present_def)
qed

theorem pcie_subclass_outside_witness:
  "\<exists>s'. PCIEEnumerateDevice (ecam 0xE0000000 0 0 0) 0 (demo_pcie 6 0x40) = Inl (Undefined, s')"
proof -
  have b: "demo_pci_mem 6 0x40 0xE000000A = 0x40" "demo_pci_mem 6 0x40 0xE000000B = 6" "demo_pci_mem 6 0x40 0xE000000E = 0"
    "demo_pci_mem 6 0x40 0xE0000000 = 0x86" "demo_pci_mem 6 0x40 0xE0000001 = 0x80"
    by (simp_all add: demo_pci_mem_def demo_pci_byte_def)
  show ?thesis
    using pcie_subclass_outside [OF demo_pcie_simps(1), of 0 6 "0x40" "0xE0000000" 0]
    by (simp add: demo_pcie_simps(3) present_def VendorID_def load_bytes multi_function_def HdrType_def ClassCode_def SubClass_def
      SubclassType_def array_read_def subclassBridge_def b ecam_def)
qed

end
