(* ===== verification/Bootloader.thy ===== *)
theory Bootloader
  imports Allocator
begin

text \<open>
  What the bootloader hands over, \<open>bootstrap/bootloader.c\<close> and \<open>bootloader.h\<close>, with the structures of
  \<open>limine.h\<close> it reads, and the processor identification, \<open>system/cpuid.c\<close>.
\<close>

section \<open>Responses\<close>

text \<open>The fields the kernel reads of a framebuffer and of a file.\<close>

record limine_framebuffer =
  fb_address :: addr
  fb_width :: u64
  fb_height :: u64
  fb_pitch :: u64
  fb_bpp :: u16

record limine_file =
  file_address :: addr
  file_size :: u64

text \<open>
  The eight static requests: the bootloader sets the field \<open>response\<close> of a request or leaves it
  null, which is \<open>None\<close>. The arrays of pointers in a response are lists.
\<close>

record limine_requests =
  framebuffer_request :: "limine_framebuffer list option"
  mm_request :: "limine_memmap_response option"
  rsdp_request :: "addr option"
  hhdm_request :: "u64 option"
  ka_request :: "(u64 \<times> u64) option"
  kf_request :: "limine_file option"
  module_request :: "limine_file list option"
  efi_request :: "addr option"

text \<open>
  \<open>struct Bootloader\<close>. The member \<open>fb\<close> is a copy of the response; without one it stays zero, and its
  array a null pointer: \<open>None\<close>. The member \<open>mod\<close> is a pointer that may be null.
\<close>

record Bootloader =
  fb :: "limine_framebuffer list option"
  mmap :: limine_memmap_response
  rsdp :: u64
  ka_phys_base :: u64
  ka_virt_base :: u64
  hhdm_base :: u64
  kernelSize :: u64
  bl_mod :: "limine_file list option"
  efiSystemTable :: addr

text \<open>
  The responses to \<open>hhdm_request\<close> and \<open>kf_request\<close> are read without a test for null. A value that is zero
  is not copied; the member is zero anyway.
\<close>

definition InitializeBootloader :: "limine_requests \<Rightarrow> stop + Bootloader" where
  "InitializeBootloader r =
     (let ret = \<lparr>fb = None, mmap = [], rsdp = 0, ka_phys_base = 0, ka_virt_base = 0, hhdm_base = 0, kernelSize = 0,
                 bl_mod = None, efiSystemTable = 0\<rparr>;
          ret = (case framebuffer_request r of Some f \<Rightarrow> ret\<lparr>fb := Some f\<rparr> | None \<Rightarrow> ret);
          ret = (case mm_request r of Some m \<Rightarrow> ret\<lparr>mmap := m\<rparr> | None \<Rightarrow> ret\<lparr>mmap := []\<rparr>);
          ret = (case rsdp_request r of Some a \<Rightarrow> ret\<lparr>rsdp := a\<rparr> | None \<Rightarrow> ret\<lparr>rsdp := 0\<rparr>);
          ret = (case ka_request r of Some (p, v) \<Rightarrow> ret\<lparr>ka_phys_base := p, ka_virt_base := v\<rparr>
                 | None \<Rightarrow> ret\<lparr>ka_phys_base := 0, ka_virt_base := 0\<rparr>)
      in case hhdm_request r of
        None \<Rightarrow> Inl NullDeref
      | Some off \<Rightarrow>
          let ret = (if off \<noteq> 0 then ret\<lparr>hhdm_base := off\<rparr> else ret) in
          (case kf_request r of
             None \<Rightarrow> Inl NullDeref
           | Some kf \<Rightarrow>
               let ret = (if file_size kf \<noteq> 0 then ret\<lparr>kernelSize := file_size kf\<rparr> else ret);
                   ret = (case module_request r of Some m \<Rightarrow> ret\<lparr>bl_mod := Some m\<rparr> | None \<Rightarrow> ret);
                   ret = (case efi_request r of Some a \<Rightarrow> ret\<lparr>efiSystemTable := a\<rparr> | None \<Rightarrow> ret)
               in Inr ret))"

section \<open>Processor identification\<close>

record CPUIDRegisters =
  eax :: u32
  ebx :: u32
  ecx :: u32
  edx :: u32

text \<open>The instruction \<open>cpuid\<close> is a function of the leaf, a parameter.\<close>

definition getCpuidData :: "(u32 \<Rightarrow> u32 \<times> u32 \<times> u32 \<times> u32) \<Rightarrow> CPUIDRegisters" where
  "getCpuidData cpuid = (let (a, b, c, d) = cpuid 0x80000001 in \<lparr>eax = a, ebx = b, ecx = c, edx = d\<rparr>)"

section \<open>What the kernel gets\<close>

definition the0 :: "'a::zero option \<Rightarrow> 'a" where
  "the0 x = (case x of None \<Rightarrow> 0 | Some v \<Rightarrow> v)"

text \<open>With the two responses that are not tested every member is that of its response, or zero.\<close>

lemma InitializeBootloader_total:
  assumes "hhdm_request r = Some off" and "kf_request r = Some kf"
  shows "InitializeBootloader r = Inr \<lparr>fb = framebuffer_request r,
    mmap = (case mm_request r of None \<Rightarrow> [] | Some m \<Rightarrow> m), rsdp = the0 (rsdp_request r),
    ka_phys_base = the0 (map_option fst (ka_request r)), ka_virt_base = the0 (map_option snd (ka_request r)),
    hhdm_base = off, kernelSize = file_size kf, bl_mod = module_request r, efiSystemTable = the0 (efi_request r)\<rparr>"
  by (simp add: InitializeBootloader_def Let_def assms the0_def split: option.split prod.split)

lemma InitializeBootloader_null:
  "hhdm_request r = None \<or> kf_request r = None \<Longrightarrow> InitializeBootloader r = Inl NullDeref"
  by (auto simp: InitializeBootloader_def Let_def split: option.split)

end
