(* ===== verification/AddressSpace.thy ===== *)
theory AddressSpace
  imports Paging
begin

text \<open>
  Address spaces as a whole. The kernel builds one by many calls of \<open>MapMemory\<close> in loops; here such a
  run is a list of requests, and the tables it leaves implement the abstract specification that the last
  request for an address decides its translation. Below that stands a second abstraction, a function
  from virtual to physical page numbers, and a bound on the number of tables a run needs.
\<close>

section \<open>Requests\<close>

record request =
  rq_virt :: u64
  rq_phys :: u64
  rq_size :: PageSizes
  rq_user :: bool

fun level :: "PageSizes \<Rightarrow> nat" where
  "level PS_4K = 0"
| "level PS_2M = 1"

definition request_ok :: "request \<Rightarrow> bool" where
  "request_ok r \<longleftrightarrow> unat (rq_virt r) mod 4096 = 0 \<and> unat (rq_phys r) mod 2 ^ (12 + 9 * level (rq_size r)) = 0 \<and>
     unat (rq_phys r) < 2 ^ 52"

definition covers :: "request \<Rightarrow> u64 \<Rightarrow> bool" where
  "covers r w \<longleftrightarrow> same_page (level (rq_size r)) (rq_virt r) w"

definition rq_target :: "request \<Rightarrow> u64 \<Rightarrow> u64" where
  "rq_target r w = rq_phys r + take_bit (12 + 9 * level (rq_size r)) w"

text \<open>The last request for an address.\<close>

fun serves :: "request list \<Rightarrow> u64 \<Rightarrow> request option" where
  "serves [] w = None"
| "serves (r # rs) w = (case serves rs w of None \<Rightarrow> if covers r w then Some r else None | Some q \<Rightarrow> Some q)"

lemma serves_append: "serves (as @ bs) w = (case serves bs w of None \<Rightarrow> serves as w | Some r \<Rightarrow> Some r)"
  by (induction as) (auto split: option.splits)

text \<open>The run: one statement per request, as in the loops of the kernel.\<close>

primrec map_all :: "addr \<Rightarrow> request list \<Rightarrow> 'z heap_scheme \<Rightarrow> (unit, 'z heap_scheme) res" where
  "map_all root [] s = Inr ((), s)"
| "map_all root (r # rs) s = bindR (map_page root (rq_virt r) (rq_phys r) (rq_size r) (rq_user r) s) (\<lambda>_ s. map_all root rs s)"

lemma map_all_append: "map_all root (as @ bs) s = bindR (map_all root as s) (\<lambda>_ s. map_all root bs s)"
  by (induction as arbitrary: s) (simp_all add: bindR_assoc)

text \<open>
  A large and a small page in the same 2 MiB exclude each other: the kernel does not split a large
  page, and drops a page table when it puts a large page in its place.
\<close>

definition clash :: "request \<Rightarrow> request \<Rightarrow> bool" where
  "clash a b \<longleftrightarrow> rq_size a \<noteq> rq_size b \<and> same_page 1 (rq_virt a) (rq_virt b)"

definition no_clash :: "request list \<Rightarrow> bool" where
  "no_clash rs \<longleftrightarrow> (\<forall>a \<in> set rs. \<forall>b \<in> set rs. \<not> clash a b)"

text \<open>The tables a list of requests needs, by their paths.\<close>

definition needs :: "request list \<Rightarrow> u64 list set" where
  "needs rs = (\<Union>r \<in> set rs. way (rq_virt r) (3 - level (rq_size r)))"

lemma finite_needs [simp]: "finite (needs rs)"
  by (simp add: needs_def)

lemma needs_simps [simp]: "needs [] = {}" "needs (r # rs) = way (rq_virt r) (3 - level (rq_size r)) \<union> needs rs"
  "needs (as @ bs) = needs as \<union> needs bs"
  by (auto simp: needs_def)

section \<open>The abstraction\<close>

text \<open>The address space below \<open>root\<close> is the one asked for by \<open>rs\<close>.\<close>

definition translates :: "memory \<Rightarrow> addr \<Rightarrow> u64 \<Rightarrow> request option \<Rightarrow> bool" where
  "translates m root w q \<longleftrightarrow> (case q of None \<Rightarrow> translate m root w = None
     | Some r \<Rightarrow> \<exists>e. translate m root w = Some (rq_target r w, e) \<and> RW e \<and> (rq_user r \<longrightarrow> UserSupervisor e))"

definition space :: "addr \<Rightarrow> 'z heap_scheme \<Rightarrow> request list \<Rightarrow> bool" where
  "space root s rs \<longleftrightarrow> tree_ok s root \<and> tabs (mem s) root = needs rs \<and> (\<forall>w. translates (mem s) root w (serves rs w)) \<and>
     (\<forall>v. small_path (mem s) root v 2) \<and>
     (\<forall>v. (\<forall>r \<in> set rs. rq_size r = PS_2M \<longrightarrow> \<not> same_page 1 (rq_virt r) v) \<longrightarrow> small_path (mem s) root v 3)"

lemma spaceD:
  assumes "space root s rs"
  shows "tree_ok s root" and "tabs (mem s) root = needs rs" and "translates (mem s) root w (serves rs w)"
    and "small_path (mem s) root v 2"
    and "(\<And>r. r \<in> set rs \<Longrightarrow> rq_size r = PS_2M \<Longrightarrow> \<not> same_page 1 (rq_virt r) v) \<Longrightarrow> small_path (mem s) root v 3"
  using assms by (auto simp: space_def)

lemma mapped_translates:
  assumes "mapped (level (rq_size r)) root (rq_virt r) (rq_phys r) (rq_user r) s s'"
    and "\<And>w. translates (mem s) root w (serves rs w)"
  shows "translates (mem s') root w (serves (rs @ [r]) w)"
  using mappedD(3) [OF assms(1) refl, THEN spec, of w] assms(2) [of w]
  by (auto simp: serves_append translates_def covers_def rq_target_def split: if_splits option.splits)

lemma page_table_path:
  assumes "take 3 (walk_path a) \<in> way b (3 - l)"
  shows "l = 0 \<and> same_page 1 a b"
proof -
  from assms obtain k where k: "k < 3 - l" "take 3 (walk_path a) = take (Suc k) (walk_path b)" by (auto simp: way_def)
  have "length (take 3 (walk_path a)) = length (take (Suc k) (walk_path b))" using k(2) by simp
  then have 2: "k = 2" using k(1) by simp
  with k(2) have "prefix (take (3 - 1) (walk_path a) @ [idx 1 a]) (walk_path b)" by (simp add: walk_path_def)
  with through_iff [of 1 a b] 2 k(1) show ?thesis by simp
qed

text \<open>What a run changes outside the tables: nothing but the memory the allocator had free.\<close>

definition run_frame :: "addr \<Rightarrow> 'z heap_scheme \<Rightarrow> 'z heap_scheme \<Rightarrow> bool" where
  "run_frame root s s' \<longleftrightarrow> s' = s\<lparr>mem := mem s'\<rparr> \<and> table_bytes s' = table_bytes s \<and> free_pages s' \<subseteq> free_pages s \<and>
     reserved s' root \<subseteq> reserved s root \<and> (\<forall>x. x \<notin> reserved s root \<longrightarrow> mem s' x = mem s x)"

lemma run_frame_refl: "run_frame root s s"
  by (simp add: run_frame_def)

lemma run_frame_trans: "run_frame root s s1 \<Longrightarrow> run_frame root s1 s2 \<Longrightarrow> run_frame root s s2"
  unfolding run_frame_def by (metis mem_mem_update subset_iff)

lemma mapped_frame: "mapped l root v p u s s' \<Longrightarrow> run_frame root s s'"
  by (simp add: mapped_def run_frame_def)

lemma space_step:
  assumes sp: "space root s as" and ok: "request_ok r" and nc: "\<forall>a \<in> set as. \<not> clash a r"
    and avail: "card (needs (as @ [r])) \<le> card (needs as) + card (free_pages s)"
  shows "\<exists>s'. map_page root (rq_virt r) (rq_phys r) (rq_size r) (rq_user r) s = Inr ((), s') \<and> space root s' (as @ [r]) \<and>
    run_frame root s s' \<and> card (needs (as @ [r])) + card (free_pages s') = card (needs as) + card (free_pages s)"
proof -
  let ?v = "rq_virt r" and ?p = "rq_phys r"
  have al: "unat ?v mod 4096 = 0" "unat ?p < 2 ^ 52" using ok by (simp_all add: request_ok_def)
  have room: "card (way ?v (3 - level (rq_size r)) - tabs (mem s) root) \<le> card (free_pages s)"
  proof -
    have "card (needs (as @ [r])) = card (needs as) + card (way ?v (3 - level (rq_size r)) - needs as)"
      by (subst card_Un_disjoint [symmetric]) (auto intro: arg_cong [where f = card])
    with avail spaceD(2) [OF sp] show ?thesis by simp
  qed
  show ?thesis
  proof (cases "rq_size r")
    case PS_4K
    have small: "small_path (mem s) root ?v 3"
      using nc PS_4K by (intro spaceD(5) [OF sp]) (auto simp: clash_def)
    have pa: "unat ?p mod 4096 = 0" and room: "card (way ?v 3 - tabs (mem s) root) \<le> card (free_pages s)"
      using ok room PS_4K by (simp_all add: request_ok_def)
    from MapMemory_4K_maps [OF spaceD(1) [OF sp] small room al(1) pa al(2), of "rq_user r"] obtain s' where s': "MapMemory root ?v ?p PS_4K (rq_user r) s = Inr (KSTATUS_SUCCESS, s')"
      "mapped 0 root ?v ?p (rq_user r) s s'" "\<forall>v d. d \<le> 3 \<longrightarrow> small_path (mem s) root v d \<longrightarrow> small_path (mem s') root v d"
      "tabs (mem s') root = way ?v 3 \<union> tabs (mem s) root"
      "card (tabs (mem s') root) + card (free_pages s') = card (tabs (mem s) root) + card (free_pages s)" by blast
    have "space root s' (as @ [r])"
      unfolding space_def
    proof (intro conjI allI impI)
      show "translates (mem s') root w (serves (as @ [r]) w)" for w
        by (rule mapped_translates) (use s'(2) PS_4K spaceD(3) [OF sp] in simp_all)
    qed (use s'(3,4) PS_4K spaceD [OF sp] mappedD(1) [OF s'(2)] in \<open>auto simp: Un_commute\<close>)
    with s' PS_4K spaceD(2) [OF sp] mapped_frame [OF s'(2)] show ?thesis
      by (auto simp: map_page_def Un_commute)
  next
    case PS_2M
    have new: "take 3 (walk_path ?v) \<notin> tabs (mem s) root"
    proof
      assume "take 3 (walk_path ?v) \<in> tabs (mem s) root"
      then obtain a where a: "a \<in> set as" "take 3 (walk_path ?v) \<in> way (rq_virt a) (3 - level (rq_size a))"
        using spaceD(2) [OF sp] by (auto simp: needs_def)
      from page_table_path [OF a(2)] have "level (rq_size a) = 0" "same_page 1 ?v (rq_virt a)" by auto
      then have "clash a r" using PS_2M by (cases "rq_size a") (auto simp: clash_def intro: same_page_sym)
      with nc a(1) show False by blast
    qed
    have pa: "unat ?p mod 0x200000 = 0" and room: "card (way ?v 2 - tabs (mem s) root) \<le> card (free_pages s)"
      using ok room PS_2M by (simp_all add: request_ok_def)
    from MapMemory_2M_maps [OF spaceD(1,4) [OF sp] room al(1) pa al(2) new, of "rq_user r"] obtain s' where s': "MapMemory root ?v ?p PS_2M (rq_user r) s = Inr (KSTATUS_SUCCESS, s')"
      "mapped 1 root ?v ?p (rq_user r) s s'" "\<forall>v. small_path (mem s) root v 2 \<longrightarrow> small_path (mem s') root v 2"
      "\<forall>v. \<not> same_page 1 ?v v \<longrightarrow> small_path (mem s) root v 3 \<longrightarrow> small_path (mem s') root v 3"
      "tabs (mem s') root = way ?v 2 \<union> tabs (mem s) root"
      "card (tabs (mem s') root) + card (free_pages s') = card (tabs (mem s) root) + card (free_pages s)" by blast
    have "space root s' (as @ [r])"
      unfolding space_def
    proof (intro conjI allI impI)
      show "translates (mem s') root w (serves (as @ [r]) w)" for w
        by (rule mapped_translates) (use s'(2) PS_2M spaceD(3) [OF sp] in simp_all)
      fix v assume "\<forall>q \<in> set (as @ [r]). rq_size q = PS_2M \<longrightarrow> \<not> same_page 1 (rq_virt q) v"
      with s'(4) PS_2M spaceD(5) [OF sp] show "small_path (mem s') root v 3" by auto
    qed (use s'(3,5) PS_2M spaceD [OF sp] mappedD(1) [OF s'(2)] in \<open>auto simp: Un_commute\<close>)
    with s' PS_2M spaceD(2) [OF sp] mapped_frame [OF s'(2)] show ?thesis
      by (auto simp: map_page_def Un_commute)
  qed
qed

lemma map_all_space:
  assumes "space root s as" and "\<forall>r \<in> set rs. request_ok r" and "no_clash (as @ rs)"
    and "card (needs (as @ rs)) \<le> card (needs as) + card (free_pages s)"
  shows "\<exists>s'. map_all root rs s = Inr ((), s') \<and> space root s' (as @ rs) \<and> run_frame root s s' \<and>
    card (needs (as @ rs)) + card (free_pages s') = card (needs as) + card (free_pages s)"
  using assms
proof (induction rs arbitrary: as s)
  case Nil
  then show ?case by (simp add: run_frame_refl)
next
  case (Cons r rs)
  have "card (needs (as @ [r])) \<le> card (needs (as @ r # rs))" by (intro card_mono) auto
  with Cons.prems(4) have "card (needs (as @ [r])) \<le> card (needs as) + card (free_pages s)" by simp
  moreover have "\<forall>a \<in> set as. \<not> clash a r" "request_ok r" using Cons.prems(2,3) by (auto simp: no_clash_def)
  ultimately obtain s1 where s1: "map_page root (rq_virt r) (rq_phys r) (rq_size r) (rq_user r) s = Inr ((), s1)"
    "space root s1 (as @ [r])" "run_frame root s s1"
    "card (needs (as @ [r])) + card (free_pages s1) = card (needs as) + card (free_pages s)"
    using space_step [OF Cons.prems(1)] by blast
  have "card (needs ((as @ [r]) @ rs)) \<le> card (needs (as @ [r])) + card (free_pages s1)" using Cons.prems(4) s1(4) by simp
  with Cons.IH [OF s1(2)] Cons.prems(2,3) obtain s2 where "map_all root rs s1 = Inr ((), s2)"
    "space root s2 (as @ r # rs)" "run_frame root s1 s2"
    "card (needs (as @ r # rs)) + card (free_pages s2) = card (needs (as @ [r])) + card (free_pages s1)"
    by (auto simp: no_clash_def)
  with s1 show ?case by (auto intro: run_frame_trans)
qed

text \<open>A page just allocated is the empty address space.\<close>

lemma empty_space:
  assumes "alloc_ok s" and "\<forall>p \<in> free_pages s. unat p < 2 ^ 40" and "PageAlloc s = Inr (root, s')"
  shows "space root s' []"
proof -
  note e = empty_root [OF assms]
  have none: "table_at (mem s') root q = None" if "path_ok q" "q \<noteq> []" for q
    using that e(5) by (cases q) (auto simp: child_def path_ok_def)
  have "q \<notin> tabs (mem s') root" for q by (cases "q = []") (auto simp: tabs_def none)
  then have "tabs (mem s') root = {}" by blast
  with e(1,2,3) show ?thesis by (simp add: space_def translates_def)
qed

section \<open>Loops\<close>

text \<open>The values of a counter that does not wrap around, and a loop as a run over them.\<close>

definition count :: "u64 \<Rightarrow> u64 \<Rightarrow> u64 \<Rightarrow> nat" where
  "count first limit step = (unat limit - unat first + unat step - 1) div unat step"

definition steps :: "u64 \<Rightarrow> u64 \<Rightarrow> nat \<Rightarrow> u64 list" where
  "steps first step n = map (\<lambda>k. first + step * of_nat k) [0..<n]"

primrec each :: "(u64 \<Rightarrow> 's \<Rightarrow> (unit, 's) res) \<Rightarrow> u64 list \<Rightarrow> 's \<Rightarrow> (unit, 's) res" where
  "each body [] s = Inr ((), s)"
| "each body (i # is) s = bindR (body i s) (\<lambda>_ s. each body is s)"

lemma steps_Suc: "steps first step (Suc n) = first # steps (first + step) step n"
proof -
  have "[0..<Suc n] = 0 # map Suc [0..<n]" by (simp only: map_Suc_upt upt_conv_Cons [OF zero_less_Suc])
  then show ?thesis by (simp add: steps_def distrib_left add.assoc del: upt_Suc)
qed

lemma for_up_each:
  assumes "n = count first limit step" and "0 < unat step" and "unat limit + unat step \<le> 2 ^ 64"
  shows "for_up limit step body first s = Some (each body (steps first step n) s)"
  using assms(1)
proof (induction n arbitrary: first s)
  case 0
  then have "unat limit - unat first + unat step - 1 < unat step" using assms(2) by (simp add: count_def div_eq_0_iff)
  then have "\<not> first < limit" using assms(2) by (simp add: word_less_nat_alt)
  then show ?case by (subst for_up.simps) (simp add: steps_def)
next
  case (Suc n)
  have less: "unat first < unat limit"
  proof (rule ccontr)
    assume "\<not> unat first < unat limit"
    then have "count first limit step = (unat step - 1) div unat step" by (simp add: count_def)
    also have "\<dots> = 0" using assms(2) by simp
    finally show False using Suc.prems by simp
  qed
  have nx: "unat (first + step) = unat first + unat step"
    using less assms(3) by (intro unat_add_lem [THEN iffD1]) simp
  have "count first limit step = Suc ((unat limit - unat first - 1) div unat step)"
  proof -
    have "unat limit - unat first + unat step - 1 = (unat limit - unat first - 1) + unat step" using less assms(2) by simp
    then have "count first limit step = ((unat limit - unat first - 1) + unat step) div unat step" by (simp only: count_def)
    then show ?thesis using assms(2) by (simp only: div_add_self2)
  qed
  moreover have "count (first + step) limit step = (unat limit - unat first - 1) div unat step"
  proof (cases "unat first + unat step \<le> unat limit")
    case True
    then have "unat limit - (unat first + unat step) + unat step - 1 = unat limit - unat first - 1" by simp
    then show ?thesis by (simp add: count_def nx)
  next
    case False
    then show ?thesis using less assms(2) by (simp add: count_def nx)
  qed
  ultimately have "n = count (first + step) limit step" using Suc.prems by simp
  note IH = Suc.IH [OF this]
  show ?case
    by (subst for_up.simps) (use less IH in \<open>auto simp: steps_Suc word_less_nat_alt bindR_def split: sum.split prod.split\<close>)
qed

lemma for_loop_each:
  "0 < unat step \<Longrightarrow> unat limit + unat step \<le> 2 ^ 64 \<Longrightarrow>
    for_loop first limit step body s = each body (steps first step (count first limit step)) s"
  by (simp add: for_loop_def for_up_each)

lemma each_map_all:
  "(\<And>i s. i \<in> set is \<Longrightarrow> body i s = map_all root (rq i) s) \<Longrightarrow> each body is s = map_all root (concat (map rq is)) s"
  by (induction "is" arbitrary: s) (simp_all add: map_all_append)

lemma bindR_unit [simp]: "bindR r (\<lambda>_ s. Inr ((), s)) = r"
  by (cases r) (auto simp: bindR_def split: prod.split)

section \<open>Page numbers\<close>

text \<open>The number of the virtual page of an address: the 36 bits of it that the walk uses.\<close>

definition vp :: "u64 \<Rightarrow> nat" where
  "vp v = unat (take_bit 48 v) div 4096"

lemma unat_take_bit: "unat (take_bit n (x :: u64)) = unat x mod 2 ^ n"
  by (simp add: unsigned_take_bit_eq take_bit_eq_mod [of _ "unat x"])

lemma unat_drop_bit: "unat (drop_bit n (x :: u64)) = unat x div 2 ^ n"
proof -
  have "unat x < 2 ^ LENGTH(64)" by (rule unsigned_less)
  then show ?thesis by (simp add: unsigned_drop_bit_eq drop_bit_eq_div [of _ "unat x"] take_bit_nat_eq_self)
qed

lemma of_nat_unat_id: "of_nat (unat x) = (x :: u64)"
  by simp

lemma mod_mult_div: "0 < a \<Longrightarrow> x mod (a * b) div a = x div a mod b" for a b x :: nat
  by (simp add: mod_mult2_eq)

lemma vp_eq: "vp v = unat v mod 2 ^ 48 div 4096"
  by (simp only: vp_def unat_take_bit)

lemma vp_less: "vp v < 2 ^ 36"
  by (simp add: vp_eq div_less_iff_less_mult)

lemma same_page_vp: "l \<le> 4 \<Longrightarrow> same_page l v w \<longleftrightarrow> vp v div 512 ^ l = vp w div 512 ^ l"
proof -
  assume "l \<le> 4"
  have "unat (drop_bit (12 + 9 * l) (take_bit 48 x)) = vp x div 512 ^ l" for x :: u64
  proof -
    have "unat (drop_bit (12 + 9 * l) (take_bit 48 x)) = unat (take_bit 48 x) div 2 ^ (12 + 9 * l)" by (rule unat_drop_bit)
    also have "(2 :: nat) ^ (12 + 9 * l) = 4096 * 512 ^ l" by (simp add: power_add power_mult)
    finally show ?thesis by (simp add: vp_def div_mult2_eq)
  qed
  then show ?thesis by (simp add: same_page_def word_unat_eq_iff)
qed

lemma same_page_0_vp: "same_page 0 v w \<longleftrightarrow> vp v = vp w"
  using same_page_vp [of 0 v w] by simp

lemma same_page_1_vp: "same_page 1 v w \<longleftrightarrow> vp v div 512 = vp w div 512"
  using same_page_vp [of 1 v w] by simp

lemma vp_add: "vp (b + 4096 * of_nat k) = (vp b + k) mod 2 ^ 36"
proof -
  have "unat (4096 * of_nat k :: u64) = 4096 * k mod 2 ^ 64" by (simp add: unat_word_ariths unat_of_nat mod_mult_right_eq)
  then have "unat (b + 4096 * of_nat k) mod 2 ^ 48 = (unat b + 4096 * k mod 2 ^ 64) mod 2 ^ 64 mod 2 ^ 48"
    by (simp add: unat_word_ariths(1))
  also have "\<dots> = (unat b + 4096 * k) mod 2 ^ 48" by (simp add: mod_mod_cancel mod_add_right_eq)
  finally have "vp (b + 4096 * of_nat k) = (unat b mod 2 ^ 48 + 4096 * k) mod (4096 * 2 ^ 36) div 4096"
    by (simp add: vp_eq mod_add_left_eq)
  also have "\<dots> = (unat b mod 2 ^ 48 + 4096 * k) div 4096 mod 2 ^ 36" by (rule mod_mult_div) simp
  finally show ?thesis by (simp add: vp_eq add.commute)
qed

lemma idx_vp: "l \<le> 3 \<Longrightarrow> idx l v = of_nat (vp v div 512 ^ l mod 512)"
proof -
  assume l: "l \<le> 3"
  have "unat (idx l v) = unat v div 2 ^ (12 + 9 * l) mod 512"
    by (simp only: idx_def unat_take_bit unat_drop_bit) simp
  also have "\<dots> = unat v mod 2 ^ 48 div 2 ^ (12 + 9 * l) mod 512"
  proof -
    have "(2 :: nat) ^ 48 = 2 ^ (12 + 9 * l) * (512 * 2 ^ (27 - 9 * l))"
    proof -
      have "(2 :: nat) ^ (12 + 9 * l) * (512 * 2 ^ (27 - 9 * l)) = 2 ^ ((12 + 9 * l) + 9 + (27 - 9 * l))" by (simp only: power_add) simp
      also have "(12 + 9 * l) + 9 + (27 - 9 * l) = 48" using l by simp
      finally show ?thesis by simp
    qed
    then have "unat v mod 2 ^ 48 div 2 ^ (12 + 9 * l) = unat v div 2 ^ (12 + 9 * l) mod (512 * 2 ^ (27 - 9 * l))"
      by (simp only: mod_mult_div zero_less_power zero_less_numeral)
    then show ?thesis by (simp add: mod_mult2_eq mod_mod_cancel)
  qed
  also have "(2 :: nat) ^ (12 + 9 * l) = 4096 * 512 ^ l" by (simp add: power_add power_mult)
  finally have "unat (idx l v) = vp v div 512 ^ l mod 512" by (simp add: vp_eq div_mult2_eq)
  then have "of_nat (unat (idx l v)) = (of_nat (vp v div 512 ^ l mod 512) :: u64)" by (simp only:)
  then show ?thesis by simp
qed

section \<open>How many tables\<close>

text \<open>The paths of the tables for a page, from the numbers of the 512 GiB, 1 GiB and 2 MiB it lies in.\<close>

definition path1 :: "nat \<Rightarrow> u64 list" where "path1 j = [of_nat (j mod 512)]"
definition path2 :: "nat \<Rightarrow> u64 list" where "path2 j = path1 (j div 512) @ [of_nat (j mod 512)]"
definition path3 :: "nat \<Rightarrow> u64 list" where "path3 j = path2 (j div 512) @ [of_nat (j mod 512)]"

lemma way_paths:
  assumes "d \<le> 3"
  shows "way v d \<subseteq> {path1 (vp v div 2 ^ 27), path2 (vp v div 2 ^ 18), path3 (vp v div 2 ^ 9)}"
proof -
  have i: "idx 3 v = of_nat (vp v div 2 ^ 27 mod 512)" "idx 2 v = of_nat (vp v div 2 ^ 18 mod 512)" "idx 1 v = of_nat (vp v div 2 ^ 9 mod 512)"
    using idx_vp [of 3 v] idx_vp [of 2 v] idx_vp [of 1 v] by simp_all
  have "take (Suc k) (walk_path v) \<in> {path1 (vp v div 2 ^ 27), path2 (vp v div 2 ^ 18), path3 (vp v div 2 ^ 9)}" if "k < 3" for k
  proof -
    have d: "vp v div 2 ^ 18 div 512 = vp v div 2 ^ 27" "vp v div 2 ^ 9 div 512 = vp v div 2 ^ 18" by (simp_all add: div_mult2_eq [symmetric])
    have "k = 0 \<or> k = 1 \<or> k = 2" using that by auto
    then show ?thesis
      by (elim disjE) (simp_all only: walk_path_def i path1_def path2_def path3_def d, simp_all)
  qed
  moreover have "k < 3" if "k < d" for k using that assms by simp
  ultimately show ?thesis unfolding way_def by (intro image_subsetI) (simp only: lessThan_iff)
qed

lemma card_div_range: "card ((\<lambda>x. x div d) ` {P..<P + n}) \<le> n div d + 2" if "0 < d" for d n P :: nat
proof (cases "n = 0")
  case False
  have "(\<lambda>x. x div d) ` {P..<P + n} \<subseteq> {P div d..(P + n) div d}" 
  proof (rule image_subsetI)
    fix x assume "x \<in> {P..<P + n}"
    then have "P \<le> x" "x \<le> P + n" by simp_all
    then show "x div d \<in> {P div d..(P + n) div d}" using div_le_mono [of P x d] div_le_mono [of x "P + n" d] by simp
  qed
  then have "card ((\<lambda>x. x div d) ` {P..<P + n}) \<le> Suc ((P + n) div d) - P div d" 
    using card_mono [of "{P div d..(P + n) div d}"] by simp
  also have "(P + n) div d \<le> P div d + n div d + 1"
  proof -
    have "P = d * (P div d) + P mod d" "n = d * (n div d) + n mod d" by simp_all
    then have "P + n = d * (P div d + n div d) + (P mod d + n mod d)" by (metis add.assoc add.left_commute distrib_left)
    moreover have "P mod d + n mod d < d * 2" using that mod_less_divisor [OF that, of P] mod_less_divisor [OF that, of n] by linarith
    ultimately have "P + n < d * (P div d + n div d + 2)" unfolding distrib_left by linarith
    then show ?thesis using that by (simp add: div_less_iff_less_mult mult.commute less_Suc_eq_le [symmetric])
  qed
  finally show ?thesis by simp
qed simp

definition tables_for :: "nat \<Rightarrow> nat" where
  "tables_for n = n div 2 ^ 27 + n div 2 ^ 18 + n div 2 ^ 9 + 6"

definition range_paths :: "nat \<Rightarrow> nat \<Rightarrow> u64 list set" where
  "range_paths P n = path1 ` (\<lambda>x. x div 2 ^ 27) ` {P..<P + n} \<union> path2 ` (\<lambda>x. x div 2 ^ 18) ` {P..<P + n} \<union> path3 ` (\<lambda>x. x div 2 ^ 9) ` {P..<P + n}"

lemma card_range_paths: "card (range_paths P n) \<le> tables_for n"
proof -
  have "card (f ` (\<lambda>x. x div 2 ^ e) ` {P..<P + n}) \<le> n div 2 ^ e + 2" for f :: "nat \<Rightarrow> u64 list" and e :: nat
    using card_image_le [of "(\<lambda>x. x div 2 ^ e) ` {P..<P + n}" f] card_div_range [of "2 ^ e" P n] by (meson finite_atLeastLessThan finite_imageI order_trans zero_less_numeral zero_less_power)
  from this [of path1 27] this [of path2 18] this [of path3 9] show ?thesis
    unfolding range_paths_def tables_for_def by (intro order_trans [OF card_Un_le] order_trans [OF add_mono [OF card_Un_le order_refl]]) linarith
qed

lemma needs_bound:
  assumes "\<forall>r \<in> set rs. \<exists>(P, n) \<in> set ranges. P \<le> vp (rq_virt r) \<and> vp (rq_virt r) < P + n"
  shows "card (needs rs) \<le> (\<Sum>(P, n) \<leftarrow> ranges. tables_for n)"
proof -
  have "needs rs \<subseteq> (\<Union>(P, n) \<in> set ranges. range_paths P n)"
  proof
    fix q assume "q \<in> needs rs"
    then obtain r where r: "r \<in> set rs" "q \<in> way (rq_virt r) (3 - level (rq_size r))" by (auto simp: needs_def)
    from assms r(1) obtain P n where "(P, n) \<in> set ranges" "vp (rq_virt r) \<in> {P..<P + n}" by fastforce
    moreover from this(2) r(2) way_paths [of "3 - level (rq_size r)" "rq_virt r"] have "q \<in> range_paths P n"
      unfolding range_paths_def by auto
    ultimately show "q \<in> (\<Union>(P, n) \<in> set ranges. range_paths P n)" by blast
  qed
  then have "card (needs rs) \<le> card (\<Union>(P, n) \<in> set ranges. range_paths P n)"
    by (intro card_mono) (auto simp: range_paths_def)
  also have "\<dots> \<le> (\<Sum>(P, n) \<leftarrow> ranges. tables_for n)"
  proof (induction ranges)
    case (Cons a ranges)
    obtain P n where a: "a = (P, n)" by (cases a)
    have "card (\<Union>(P, n) \<in> set (a # ranges). range_paths P n) \<le> card (range_paths P n) + card (\<Union>(P, n) \<in> set ranges. range_paths P n)"
      by (simp add: a card_Un_le)
    with Cons card_range_paths [of P n] show ?case by (simp add: a)
  qed simp
  finally show ?thesis .
qed

section \<open>Address spaces by page numbers\<close>

text \<open>
  A request agrees with a function from virtual to physical page numbers: what it maps is what the
  function says.
\<close>

definition obeys :: "(nat \<Rightarrow> nat option) \<Rightarrow> request \<Rightarrow> bool" where
  "obeys f r \<longleftrightarrow> request_ok r \<and> (case rq_size r of
       PS_4K \<Rightarrow> f (vp (rq_virt r)) = Some (unat (rq_phys r) div 4096)
     | PS_2M \<Rightarrow> vp (rq_virt r) mod 512 = 0 \<and> (\<forall>j < 512. f (vp (rq_virt r) + j) = Some (unat (rq_phys r) div 4096 + j)))"

definition page_addr :: "nat \<Rightarrow> u64 \<Rightarrow> u64" where
  "page_addr m w = of_nat (4096 * m) + take_bit 12 w"

lemma obeys_target:
  assumes "obeys f r" and "covers r w"
  shows "\<exists>m. f (vp w) = Some m \<and> rq_target r w = page_addr m w"
proof -
  let ?p = "rq_phys r"
  have ok: "request_ok r" using assms(1) by (simp add: obeys_def)
  have "unat ?p mod 4096 = 0"
  proof -
    have "(4096 :: nat) dvd 2 ^ (12 + 9 * level (rq_size r))" by (simp add: power_add)
    with ok show ?thesis unfolding request_ok_def by (metis mod_0_imp_dvd dvd_trans dvd_imp_mod_0)
  qed
  then have "4096 * (unat ?p div 4096) = unat ?p" by auto
  then have p: "of_nat (4096 * (unat ?p div 4096)) = ?p" by (metis of_nat_unat_id)
  show ?thesis
  proof (cases "rq_size r")
    case PS_4K
    with assms have "f (vp w) = Some (unat ?p div 4096)" by (simp add: obeys_def covers_def same_page_0_vp)
    with PS_4K p show ?thesis by (simp add: rq_target_def page_addr_def)
  next
    case PS_2M
    let ?j = "vp w mod 512"
    have al: "vp (rq_virt r) mod 512 = 0" and f: "\<forall>j < 512. f (vp (rq_virt r) + j) = Some (unat ?p div 4096 + j)"
      using assms(1) PS_2M by (simp_all add: obeys_def)
    have "vp (rq_virt r) div 512 = vp w div 512" using assms(2) PS_2M same_page_1_vp by (simp add: covers_def)
    then have "vp (rq_virt r) + ?j = vp w" using al by (metis add.right_neutral div_mult_mod_eq)
    then have "f (vp w) = Some (unat ?p div 4096 + ?j)" using f by (metis mod_less_divisor zero_less_numeral)
    moreover have "take_bit 21 w = of_nat (4096 * ?j) + take_bit 12 w"
    proof -
      have "unat w mod 2 ^ 21 = 4096 * (unat w div 4096 mod 512) + unat w mod 4096" using mod_mult2_eq [of "unat w" 4096 512] by simp
      moreover have "unat w div 4096 mod 512 = ?j"
      proof -
        have "unat w mod 2 ^ 48 div 4096 = unat w div 4096 mod 2 ^ 36" using mod_mult_div [of 4096 "unat w" "2 ^ 36"] by simp
        then show ?thesis by (simp add: vp_eq mod_mod_cancel)
      qed
      ultimately have "unat w mod 2 ^ 21 = 4096 * ?j + unat w mod 4096" by simp
      then have "(of_nat (unat w mod 2 ^ 21) :: u64) = of_nat (4096 * ?j) + of_nat (unat w mod 2 ^ 12)" by simp
      then show ?thesis by (simp only: unat_take_bit [symmetric] of_nat_unat_id)
    qed
    ultimately show ?thesis using PS_2M p by (simp add: rq_target_def page_addr_def distrib_left algebra_simps)
  qed
qed

lemma serves_SomeD: "serves rs w = Some r \<Longrightarrow> r \<in> set rs \<and> covers r w"
  by (induction rs) (auto split: option.splits if_splits)

lemma serves_None: "serves rs w = None \<longleftrightarrow> (\<forall>r \<in> set rs. \<not> covers r w)"
  by (induction rs) (auto split: option.splits if_splits)

text \<open>The refinement: tables that implement requests that agree with a function implement the function.\<close>

definition implements :: "memory \<Rightarrow> addr \<Rightarrow> (nat \<Rightarrow> nat option) \<Rightarrow> bool" where
  "implements m root f \<longleftrightarrow> (\<forall>w. case f (vp w) of None \<Rightarrow> translate m root w = None
     | Some n \<Rightarrow> \<exists>e. translate m root w = Some (page_addr n w, e) \<and> RW e)"

lemma space_implements:
  assumes "space root s rs" and "\<forall>r \<in> set rs. obeys f r"
    and "\<And>w. f (vp w) \<noteq> None \<Longrightarrow> \<exists>r \<in> set rs. covers r w"
  shows "implements (mem s) root f"
  unfolding implements_def
proof
  fix w
  show "case f (vp w) of None \<Rightarrow> translate (mem s) root w = None
     | Some n \<Rightarrow> \<exists>e. translate (mem s) root w = Some (page_addr n w, e) \<and> RW e"
  proof (cases "serves rs w")
    case None
    have "f (vp w) = None" using assms(3) [of w] None unfolding serves_None by blast
    with None spaceD(3) [OF assms(1), of w] show ?thesis by (simp add: translates_def)
  next
    case (Some r)
    from serves_SomeD [OF this] assms(2) obtain m where "f (vp w) = Some m" "rq_target r w = page_addr m w"
      using obeys_target by blast
    with Some spaceD(3) [OF assms(1), of w] show ?thesis by (auto simp: translates_def)
  qed
qed

text \<open>No clash, when the large pages and the small ones lie in different 2 MiB.\<close>

lemma no_clashI:
  assumes "\<forall>r \<in> set rs. (rq_size r = PS_2M) = (vp (rq_virt r) div 512 \<in> L)"
  shows "no_clash rs"
  unfolding no_clash_def
proof (intro ballI notI)
  fix a b assume ab: "a \<in> set rs" "b \<in> set rs" "clash a b"
  from ab(3) have "vp (rq_virt a) div 512 = vp (rq_virt b) div 512" "rq_size a \<noteq> rq_size b"
    by (simp_all add: clash_def same_page_1_vp [unfolded One_nat_def])
  with assms ab(1,2) show False by (cases "rq_size a"; cases "rq_size b") auto
qed

end
