(* ===== verification/KernelSpace.thy ===== *)
theory KernelSpace
  imports AddressSpace
begin

text \<open>
  The address spaces the kernel builds, \<open>CreateDefaultMappings\<close>, \<open>InitializePaging\<close> and
  \<open>CreateProcessPML4\<close> of \<open>mm/paging/paging.c\<close>: their loops are runs of requests, and the tables they leave
  implement the functions \<open>default_frame\<close> and \<open>process_frame\<close>.
\<close>

section \<open>The loops of the kernel\<close>

definition small :: "u64 \<Rightarrow> u64 \<Rightarrow> bool \<Rightarrow> request" where
  "small v p user = \<lparr>rq_virt = v, rq_phys = p, rq_size = PS_4K, rq_user = user\<rparr>"

definition large :: "u64 \<Rightarrow> u64 \<Rightarrow> request" where
  "large v p = \<lparr>rq_virt = v, rq_phys = p, rq_size = PS_2M, rq_user = False\<rparr>"

lemma small_fields [simp]: "rq_virt (small v p u) = v" "rq_phys (small v p u) = p" "rq_size (small v p u) = PS_4K" "rq_user (small v p u) = u"
  by (simp_all add: small_def)

lemma large_fields [simp]: "rq_virt (large v p) = v" "rq_phys (large v p) = p" "rq_size (large v p) = PS_2M" "\<not> rq_user (large v p)"
  by (simp_all add: large_def)

definition kernel_requests :: "paging_info \<Rightarrow> request list" where
  "kernel_requests g = concat (map (\<lambda>i. [small (gp_kernelVirtBase g + i) (gp_kernelPhysBase g + i) False])
     (steps 0 4096 (count 0 (gp_kernelSize g) 4096)))"

definition low_requests :: "paging_info \<Rightarrow> request list" where
  "low_requests g = concat (map (\<lambda>i. (if i \<noteq> 0 then [small i i False] else []) @ [small (gp_hhdm_base g + i) i False])
     (steps 0 4096 512))"

definition large_requests :: "paging_info \<Rightarrow> request list" where
  "large_requests g = concat (map (\<lambda>i. [large i i, large (gp_hhdm_base g + i) i]) (steps 0x200000 0x200000 511))"

definition high_requests :: "paging_info \<Rightarrow> request list" where
  "high_requests g = concat (map (\<lambda>i. [small i i False, small (gp_hhdm_base g + i) i False]) (steps 0x40000000 4096 786432))"

definition entry_pages :: "limine_memmap_entry \<Rightarrow> nat" where
  "entry_pages e = count (me_base e) (me_base e + me_length e) 4096"

definition entry_requests :: "limine_memmap_entry \<Rightarrow> request list" where
  "entry_requests e = concat (map (\<lambda>j. if j mod 4096 \<noteq> 0 then [] else [small j j False]) (steps (me_base e) 4096 (entry_pages e)))"

definition fb_pages :: "paging_info \<Rightarrow> nat" where
  "fb_pages g = count (gp_fbBase g) (gp_fbBase g + gp_fbSize g) 4096"

definition fb_requests :: "paging_info \<Rightarrow> request list" where
  "fb_requests g = concat (map (\<lambda>i. [small i (i - gp_hhdm_base g) False]) (steps (gp_fbBase g) 4096 (fb_pages g)))"

definition default_requests :: "paging_info \<Rightarrow> request list" where
  "default_requests g = (kernel_requests g @ low_requests g) @ large_requests g @ high_requests g @
     concat (map entry_requests (gp_mmap g)) @ fb_requests g"

text \<open>The ends of all ranges stay a page below the end of the address space, so that no counter wraps around.\<close>

definition ends_ok :: "paging_info \<Rightarrow> bool" where
  "ends_ok g \<longleftrightarrow> unat (gp_kernelSize g) + 4096 \<le> 2 ^ 64 \<and> unat (gp_fbBase g + gp_fbSize g) + 4096 \<le> 2 ^ 64 \<and>
     (\<forall>e \<in> set (gp_mmap g). unat (me_base e + me_length e) + 4096 \<le> 2 ^ 64)"

lemma loop_run:
  assumes "0 < unat step" and "unat limit + unat step \<le> 2 ^ 64" and "count first limit step = n"
    and "\<And>i s. body i s = map_all root (rq i) s"
  shows "for_loop first limit step body s = map_all root (concat (map rq (steps first step n))) s"
  unfolding for_loop_each [OF assms(1,2)] assms(3) by (rule each_map_all) (rule assms(4))

lemma map_kernel_run:
  "GlobalPagingInfo s = g \<Longrightarrow> ends_ok g \<Longrightarrow> map_kernel root s = map_all root (kernel_requests g) s"
  unfolding map_kernel_def Let_def kernel_requests_def by (simp only:, rule loop_run) (simp_all add: ends_ok_def)

lemma map_low_2M_run: "GlobalPagingInfo s = g \<Longrightarrow> map_low_2M root s = map_all root (large_requests g) s"
  unfolding map_low_2M_def Let_def large_requests_def by (simp only:, rule loop_run) (simp_all add: count_def)

lemma map_entries_run:
  "\<forall>e \<in> set es. unat (me_base e + me_length e) + 4096 \<le> 2 ^ 64 \<Longrightarrow>
    map_entries root es s = map_all root (concat (map entry_requests es)) s"
proof (induction es arbitrary: s)
  case (Cons e es)
  have "for_loop (me_base e) (me_base e + me_length e) 4096
      (\<lambda>j s. if j mod 4096 \<noteq> 0 then Inr ((), s) else map_page root j j PS_4K False s) s = map_all root (entry_requests e) s" for s :: "'a paging_scheme"
    unfolding entry_requests_def entry_pages_def using Cons.prems by (intro loop_run) simp_all
  moreover have "map_entries root es = (map_all root (concat (map entry_requests es)) :: 'a paging_scheme \<Rightarrow> _)" by (rule ext) (rule Cons.IH, use Cons.prems in simp)
  ultimately show ?case by (simp add: map_all_append)
qed simp

lemma CreateDefaultMappings_run:
  assumes g: "GlobalPagingInfo s = g" and ends: "ends_ok g"
    and stage: "map_all root (kernel_requests g @ low_requests g) s = Inr ((), s1)" "GlobalPagingInfo s1 = g"
  shows "CreateDefaultMappings root s = map_all root (default_requests g) s"
proof -
  have low: "for_loop 0 0x200000 4096 (\<lambda>i s. bindR (if i \<noteq> 0 then map_page root i i PS_4K False s else Inr ((), s))
      (\<lambda>_ s. map_page root (gp_hhdm_base g + i) i PS_4K False s)) s = map_all root (low_requests g) s" for s :: "'a paging_scheme"
    unfolding low_requests_def by (rule loop_run) (simp_all add: count_def)
  have high: "for_loop 0x40000000 0x100000000 0x1000 (\<lambda>i s. bindR (map_page root i i PS_4K False s)
      (\<lambda>_ s. map_page root (gp_hhdm_base g + i) i PS_4K False s)) s = map_all root (high_requests g) s" for s :: "'a paging_scheme"
    unfolding high_requests_def by (rule loop_run) (simp_all add: count_def)
  have fb: "for_loop (gp_fbBase g) (gp_fbBase g + gp_fbSize g) 4096 (\<lambda>i s. map_page root i (i - gp_hhdm_base g) PS_4K False s) s =
      map_all root (fb_requests g) s" for s :: "'a paging_scheme"
    unfolding fb_requests_def by (rule loop_run) (use ends in \<open>simp_all add: ends_ok_def fb_pages_def\<close>)
  have es: "\<forall>e \<in> set (gp_mmap g). unat (me_base e + me_length e) + 4096 \<le> 2 ^ 64" using ends by (simp add: ends_ok_def)
  have "CreateDefaultMappings root s = bindR (map_all root (kernel_requests g @ low_requests g) s) (\<lambda>_ s.
      bindR (map_low_2M root s) (\<lambda>_ s. bindR (map_all root (high_requests g) s) (\<lambda>_ s.
      bindR (map_entries root (gp_mmap g) s) (\<lambda>_ s. map_all root (fb_requests g) s))))"
    unfolding CreateDefaultMappings_def Let_def g low high fb map_kernel_run [OF g ends] map_all_append bindR_assoc ..
  also have "\<dots> = map_all root (large_requests g @ high_requests g @ concat (map entry_requests (gp_mmap g)) @ fb_requests g) s1"
    unfolding stage(1) bindR_Inr map_low_2M_run [OF stage(2)] map_entries_run [OF es] unfolding map_all_append ..
  also have "\<dots> = map_all root (default_requests g) s"
    unfolding default_requests_def by (subst (2) map_all_append) (simp only: stage(1) bindR_Inr)
  finally show ?thesis .
qed

section \<open>The kernel's address space\<close>

definition kernel_pages :: "paging_info \<Rightarrow> nat" where
  "kernel_pages g = count 0 (gp_kernelSize g) 4096"

text \<open>
  What the default mappings say: the kernel image; at \<open>hhdm_base\<close> all physical memory below 4 GiB and
  the framebuffer; and, at their own addresses, all pages below 4 GiB but the first and the pages
  of the memory map.
\<close>

definition default_frame :: "paging_info \<Rightarrow> nat \<Rightarrow> nat option" where
  "default_frame g n =
     (if vp (gp_kernelVirtBase g) \<le> n \<and> n < vp (gp_kernelVirtBase g) + kernel_pages g
      then Some (unat (gp_kernelPhysBase g) div 4096 + (n - vp (gp_kernelVirtBase g)))
      else if vp (gp_hhdm_base g) \<le> n \<and> n < vp (gp_hhdm_base g) + 2 ^ 20 \<or> vp (gp_fbBase g) \<le> n \<and> n < vp (gp_fbBase g) + fb_pages g
      then Some (n - vp (gp_hhdm_base g))
      else if 0 < n \<and> n < 2 ^ 20 \<or>
        (\<exists>e \<in> set (gp_mmap g). me_base e mod 4096 = 0 \<and> vp (me_base e) \<le> n \<and> n < vp (me_base e) + entry_pages e)
      then Some n else None)"

text \<open>
  The layout the kernel relies on: everything is aligned; \<open>hhdm_base\<close> is in the upper half; the kernel
  image is apart from the rest; the framebuffer lies in the direct map, outside its large pages;
  and no page of the memory map lies between 2 MiB and 1 GiB, where the identity map has
  large pages.
\<close>

definition layout_ok :: "paging_info \<Rightarrow> bool" where
  "layout_ok g \<longleftrightarrow> ends_ok g \<and>
     unat (gp_kernelVirtBase g) mod 4096 = 0 \<and> unat (gp_kernelPhysBase g) mod 4096 = 0 \<and>
     unat (gp_kernelPhysBase g) + 4096 * kernel_pages g \<le> 2 ^ 52 \<and>
     2 ^ 20 \<le> vp (gp_kernelVirtBase g) \<and> vp (gp_kernelVirtBase g) + kernel_pages g \<le> 2 ^ 36 \<and>
     unat (gp_hhdm_base g) mod 0x200000 = 0 \<and> 2 ^ 64 - 2 ^ 47 \<le> unat (gp_hhdm_base g) \<and> vp (gp_hhdm_base g) + 2 ^ 20 \<le> 2 ^ 36 \<and>
     (vp (gp_kernelVirtBase g) + kernel_pages g \<le> vp (gp_hhdm_base g) \<or> vp (gp_hhdm_base g) + 2 ^ 20 \<le> vp (gp_kernelVirtBase g)) \<and>
     unat (gp_fbBase g) mod 4096 = 0 \<and> unat (gp_hhdm_base g) \<le> unat (gp_fbBase g) \<and>
     vp (gp_hhdm_base g) + 2 ^ 18 \<le> vp (gp_fbBase g) \<and> vp (gp_fbBase g) + fb_pages g \<le> 2 ^ 36 \<and>
     (vp (gp_kernelVirtBase g) + kernel_pages g \<le> vp (gp_fbBase g) \<or> vp (gp_fbBase g) + fb_pages g \<le> vp (gp_kernelVirtBase g)) \<and>
     (\<forall>e \<in> set (gp_mmap g). me_base e mod 4096 = 0 \<longrightarrow> unat (me_base e) < 2 ^ 48 \<and>
        vp (me_base e) + entry_pages e \<le> vp (gp_hhdm_base g) \<and>
        (vp (me_base e) + entry_pages e \<le> 512 \<or> 2 ^ 18 \<le> vp (me_base e)) \<and>
        (vp (me_base e) + entry_pages e \<le> vp (gp_kernelVirtBase g) \<or> vp (gp_kernelVirtBase g) + kernel_pages g \<le> vp (me_base e)))"

lemma set_steps: "set (steps first step n) = (\<lambda>k. first + step * of_nat k) ` {..<n}"
  by (auto simp: steps_def)

abbreviation pg :: "nat \<Rightarrow> u64" where
  "pg k \<equiv> 4096 * of_nat k"

lemma unat_pg: "k < 2 ^ 52 \<Longrightarrow> unat (pg k) = 4096 * k"
proof -
  assume k: "k < 2 ^ 52"
  have "unat (of_nat (4096 * k) :: u64) = 4096 * k" using k by (intro unat_of_nat64) simp
  then show ?thesis by simp
qed

lemma vp_pg: "k < 2 ^ 36 \<Longrightarrow> vp (pg k) = k"
  using vp_add [of 0 k] by (simp add: vp_eq)

lemma kernel_set:
  "set (kernel_requests g) = (\<lambda>k. small (gp_kernelVirtBase g + pg k) (gp_kernelPhysBase g + pg k) False) ` {..<kernel_pages g}"
  by (auto simp: kernel_requests_def set_steps kernel_pages_def)

lemma low_set:
  "set (low_requests g) = (\<lambda>k. small (pg k) (pg k) False) ` {0<..<512} \<union> (\<lambda>k. small (gp_hhdm_base g + pg k) (pg k) False) ` {..<512}"
proof -
  have "pg k \<noteq> 0 \<longleftrightarrow> 0 < k" if "k < 512" for k using unat_pg [of k] that by (auto simp: word_unat_eq_iff)
  then show ?thesis by (auto simp: low_requests_def set_steps image_iff split: if_splits)
qed

lemma large_set:
  "set (large_requests g) = (\<lambda>k. large (pg (512 * k)) (pg (512 * k))) ` {0<..<512} \<union>
     (\<lambda>k. large (gp_hhdm_base g + pg (512 * k)) (pg (512 * k))) ` {0<..<512}"
proof -
  have "(0x200000 :: u64) + 0x200000 * of_nat k = pg (512 * Suc k)" for k by simp
  then have "set (steps 0x200000 0x200000 511) = (\<lambda>k. pg (512 * Suc k)) ` {..<511}" by (simp only: set_steps)
  also have "\<dots> = (\<lambda>k. pg (512 * k)) ` Suc ` {..<511}" by (simp only: image_image)
  also have "Suc ` {..<511} = {0<..<512}"
  proof -
    have "Suc ` {0..<511} = {Suc 0..<512}" by (simp only: image_Suc_atLeastLessThan) simp
    then show ?thesis by (simp only: atLeast0LessThan atLeastSucLessThan_greaterThanLessThan)
  qed
  finally have "set (steps 0x200000 0x200000 511) = (\<lambda>k. pg (512 * k)) ` {0<..<512}" .
  then show ?thesis by (auto simp: large_requests_def)
qed

lemma high_set:
  "set (high_requests g) = (\<lambda>k. small (pg k) (pg k) False) ` {2 ^ 18..<2 ^ 20} \<union>
     (\<lambda>k. small (gp_hhdm_base g + pg k) (pg k) False) ` {2 ^ 18..<2 ^ 20}"
proof -
  have "(0x40000000 :: u64) + 4096 * of_nat k = pg (2 ^ 18 + k)" for k by simp
  then have "set (steps 0x40000000 4096 786432) = (\<lambda>k. pg (2 ^ 18 + k)) ` {..<786432}" by (simp only: set_steps)
  also have "\<dots> = pg ` (+) (2 ^ 18) ` {..<786432}" by (simp only: image_image)
  also have "(+) (2 ^ 18) ` {..<786432} = {2 ^ 18..<2 ^ 20 :: nat}"
    unfolding lessThan_atLeast0 image_add_atLeastLessThan by simp
  finally have "set (steps 0x40000000 4096 786432) = pg ` {2 ^ 18..<2 ^ 20}" .
  then show ?thesis by (auto simp: high_requests_def)
qed

lemma entry_set:
  "set (entry_requests e) = (if me_base e mod 4096 = 0 then (\<lambda>k. small (me_base e + pg k) (me_base e + pg k) False) ` {..<entry_pages e} else {})"
proof -
  have m: "(me_base e + pg k) mod 4096 = me_base e mod 4096" for k
  proof -
    have "unat (me_base e + pg k) mod 4096 = unat (me_base e) mod 4096"
      by (simp add: unat_word_ariths mod_mod_cancel mod_add_right_eq)
    then show ?thesis by (simp add: word_unat_eq_iff unat_mod)
  qed
  show ?thesis
    unfolding entry_requests_def set_concat set_map set_steps image_image m
    by (cases "me_base e mod 4096 = 0") (simp_all only: simp_thms if_True if_False list.set, auto)
qed

lemma fb_set: "set (fb_requests g) = (\<lambda>k. small (gp_fbBase g + pg k) (gp_fbBase g + pg k - gp_hhdm_base g) False) ` {..<fb_pages g}"
  by (auto simp: fb_requests_def set_steps)

lemmas request_sets = kernel_set low_set large_set high_set entry_set fb_set

lemma aligned_pg: "unat b mod 4096 = 0 \<Longrightarrow> unat (b + pg k) mod 4096 = 0"
  by (simp add: unat_word_ariths mod_mod_cancel mod_add_right_eq)

lemma unat_add_pg: "unat b + 4096 * k < 2 ^ 64 \<Longrightarrow> unat (b + pg k) = unat b + 4096 * k"
proof -
  assume a: "unat b + 4096 * k < 2 ^ 64"
  then have "unat (pg k) = 4096 * k" by (intro unat_pg) simp
  with a show ?thesis by (simp add: unat_word_ariths(1))
qed

lemma vp_add_pg: "vp b + k < 2 ^ 36 \<Longrightarrow> vp (b + pg k) = vp b + k"
  by (simp add: vp_add)

lemma upper_half:
  assumes "2 ^ 64 - 2 ^ 47 \<le> unat a" and "unat a mod 4096 = 0"
  shows "unat a = 2 ^ 64 - 2 ^ 48 + 4096 * vp a" and "2 ^ 35 \<le> vp a"
proof -
  have "unat a < 2 ^ LENGTH(64)" by (rule unsigned_less)
  then have less: "unat a < 2 ^ 64" by simp
  define x where "x = unat a - (2 ^ 64 - 2 ^ 48)"
  have x: "unat a = x + 65535 * 2 ^ 48" "x < 2 ^ 48" using less assms(1) by (simp_all add: x_def)
  then have "unat a mod 2 ^ 48 = x" by (simp only: mod_mult_self1 mod_less)
  then have m: "unat a mod 2 ^ 48 = unat a - (2 ^ 64 - 2 ^ 48)" by (simp only: x_def)
  have "4096 dvd unat a - (2 ^ 64 - 2 ^ 48)" using assms(2) by (intro dvd_diff_nat mod_0_imp_dvd) simp_all
  with m show "unat a = 2 ^ 64 - 2 ^ 48 + 4096 * vp a" using assms(1) by (simp add: vp_eq)
  with assms(1) show "2 ^ 35 \<le> vp a" by simp
qed

lemma small_obeys:
  assumes "unat v mod 4096 = 0" and "unat p = 4096 * m" and "m < 2 ^ 40" and "f (vp v) = Some m"
  shows "obeys f (small v p u)"
  using assms by (simp add: obeys_def request_ok_def)

lemma large_obeys:
  assumes "unat v mod 4096 = 0" and "vp v mod 512 = 0" and "unat p = 4096 * (512 * k)" and "k < 2 ^ 31"
    and "\<forall>j < 512. f (vp v + j) = Some (512 * k + j)"
  shows "obeys f (large v p)"
  using assms by (simp add: obeys_def request_ok_def)

lemma hhdm_pages:
  assumes "layout_ok g"
  shows "2 ^ 35 \<le> vp (gp_hhdm_base g)" and "vp (gp_hhdm_base g) mod 512 = 0" and "unat (gp_hhdm_base g) mod 4096 = 0"
    and "k < fb_pages g \<Longrightarrow> unat (gp_fbBase g + pg k - gp_hhdm_base g) = 4096 * (vp (gp_fbBase g) + k - vp (gp_hhdm_base g))"
proof -
  let ?h = "gp_hhdm_base g" and ?f = "gp_fbBase g"
  have h: "2 ^ 64 - 2 ^ 47 \<le> unat ?h" "unat ?h mod 0x200000 = 0" using assms by (simp_all add: layout_ok_def)
  have "(4096 :: nat) dvd 0x200000" by simp
  then show al: "unat ?h mod 4096 = 0" using h(2) by (metis mod_0_imp_dvd dvd_trans dvd_imp_mod_0)
  note u = upper_half [OF h(1) al]
  show "2 ^ 35 \<le> vp ?h" by (rule u(2))
  have "0x200000 dvd (2 ^ 64 - 2 ^ 48) + 4096 * vp ?h" using h(2) u(1) by (metis mod_0_imp_dvd)
  moreover have "(0x200000 :: nat) dvd 2 ^ 64 - 2 ^ 48" by simp
  ultimately have "(0x200000 :: nat) dvd 4096 * vp ?h" by (simp only: dvd_add_right_iff)
  then have "4096 * 512 dvd 4096 * vp ?h" by simp
  then have "512 dvd vp ?h" by (simp only: nat_mult_dvd_cancel_disj) simp
  then show "vp ?h mod 512 = 0" by simp
  assume k: "k < fb_pages g"
  have f: "unat ?f mod 4096 = 0" "unat ?h \<le> unat ?f" "vp ?f + fb_pages g \<le> 2 ^ 36" "vp ?h \<le> vp ?f"
    using assms by (simp_all add: layout_ok_def)
  then have "2 ^ 64 - 2 ^ 47 \<le> unat ?f" using h(1) by simp
  note uf = upper_half [OF this f(1)]
  have "unat ?f + 4096 * k < 2 ^ 64" using uf(1) f(3) k by simp
  then have s: "unat (?f + pg k) = unat ?f + 4096 * k" by (rule unat_add_pg)
  then have "?h \<le> ?f + pg k" using f(2) by (simp add: word_le_nat_alt)
  then have "unat (?f + pg k - ?h) = unat ?f + 4096 * k - unat ?h" using s by (simp add: unat_sub)
  with uf(1) u(1) f(4) show "unat (?f + pg k - ?h) = 4096 * (vp ?f + k - vp ?h)" by simp
qed

lemma layout_entry:
  assumes "layout_ok g" and "e \<in> set (gp_mmap g)" and "me_base e mod 4096 = 0"
  shows "unat (me_base e) < 2 ^ 48" and "vp (me_base e) + entry_pages e \<le> vp (gp_hhdm_base g)"
    and "vp (me_base e) + entry_pages e \<le> 512 \<or> 2 ^ 18 \<le> vp (me_base e)"
    and "vp (me_base e) + entry_pages e \<le> vp (gp_kernelVirtBase g) \<or> vp (gp_kernelVirtBase g) + kernel_pages g \<le> vp (me_base e)"
proof -
  have "\<forall>e \<in> set (gp_mmap g). me_base e mod 4096 = 0 \<longrightarrow> unat (me_base e) < 2 ^ 48 \<and>
        vp (me_base e) + entry_pages e \<le> vp (gp_hhdm_base g) \<and>
        (vp (me_base e) + entry_pages e \<le> 512 \<or> 2 ^ 18 \<le> vp (me_base e)) \<and>
        (vp (me_base e) + entry_pages e \<le> vp (gp_kernelVirtBase g) \<or> vp (gp_kernelVirtBase g) + kernel_pages g \<le> vp (me_base e))"
    using assms(1) unfolding layout_ok_def by (elim conjE)
  from bspec [OF this assms(2)] assms(3) show "unat (me_base e) < 2 ^ 48" "vp (me_base e) + entry_pages e \<le> vp (gp_hhdm_base g)"
    "vp (me_base e) + entry_pages e \<le> 512 \<or> 2 ^ 18 \<le> vp (me_base e)"
    "vp (me_base e) + entry_pages e \<le> vp (gp_kernelVirtBase g) \<or> vp (gp_kernelVirtBase g) + kernel_pages g \<le> vp (me_base e)"
    by simp_all
qed

lemma default_frame_values:
  assumes "layout_ok g"
  shows "k < kernel_pages g \<Longrightarrow> default_frame g (vp (gp_kernelVirtBase g) + k) = Some (unat (gp_kernelPhysBase g) div 4096 + k)"
    and "k < 2 ^ 20 \<Longrightarrow> default_frame g (vp (gp_hhdm_base g) + k) = Some k"
    and "k < fb_pages g \<Longrightarrow> default_frame g (vp (gp_fbBase g) + k) = Some (vp (gp_fbBase g) + k - vp (gp_hhdm_base g))"
    and "0 < k \<Longrightarrow> k < 2 ^ 20 \<Longrightarrow> default_frame g k = Some k"
    and "e \<in> set (gp_mmap g) \<Longrightarrow> me_base e mod 4096 = 0 \<Longrightarrow> k < entry_pages e \<Longrightarrow>
      default_frame g (vp (me_base e) + k) = Some (vp (me_base e) + k)"
proof -
  have l: "2 ^ 20 \<le> vp (gp_kernelVirtBase g)" "vp (gp_hhdm_base g) \<le> vp (gp_fbBase g)" "2 ^ 35 \<le> vp (gp_hhdm_base g)"
    "vp (gp_kernelVirtBase g) + kernel_pages g \<le> vp (gp_hhdm_base g) \<or> vp (gp_hhdm_base g) + 2 ^ 20 \<le> vp (gp_kernelVirtBase g)"
    "vp (gp_kernelVirtBase g) + kernel_pages g \<le> vp (gp_fbBase g) \<or> vp (gp_fbBase g) + fb_pages g \<le> vp (gp_kernelVirtBase g)"
    using assms hhdm_pages(1) [OF assms] by (simp_all add: layout_ok_def)
  show "k < kernel_pages g \<Longrightarrow> default_frame g (vp (gp_kernelVirtBase g) + k) = Some (unat (gp_kernelPhysBase g) div 4096 + k)"
    by (simp add: default_frame_def)
  show "default_frame g (vp (gp_hhdm_base g) + k) = Some k" if "k < 2 ^ 20"
    using l(4) that by (auto simp: default_frame_def)
  show "default_frame g (vp (gp_fbBase g) + k) = Some (vp (gp_fbBase g) + k - vp (gp_hhdm_base g))" if "k < fb_pages g"
    using l(5) that by (auto simp: default_frame_def)
  show "default_frame g k = Some k" if "0 < k" "k < 2 ^ 20"
    using l(1-3) that by (simp add: default_frame_def)
  assume e: "e \<in> set (gp_mmap g)" "me_base e mod 4096 = 0" "k < entry_pages e"
  from layout_entry(2,4) [OF assms e(1,2)]
  have "\<not> (vp (gp_kernelVirtBase g) \<le> vp (me_base e) + k \<and> vp (me_base e) + k < vp (gp_kernelVirtBase g) + kernel_pages g)"
    "\<not> vp (gp_hhdm_base g) \<le> vp (me_base e) + k" "\<not> vp (gp_fbBase g) \<le> vp (me_base e) + k" using e(3) l(2) by linarith+
  moreover have "\<exists>e' \<in> set (gp_mmap g). me_base e' mod 4096 = 0 \<and> vp (me_base e') \<le> vp (me_base e) + k \<and> vp (me_base e) + k < vp (me_base e') + entry_pages e'"
    using e by (intro bexI [of _ e]) simp_all
  ultimately show "default_frame g (vp (me_base e) + k) = Some (vp (me_base e) + k)"
    unfolding default_frame_def by (simp only: simp_thms if_False if_True)
qed

lemma aligned_word: "a mod 4096 = 0 \<Longrightarrow> unat (a :: u64) mod 4096 = 0"
  by (simp add: word_unat_eq_iff unat_mod)

text \<open>Where large pages lie, by the number of the 2 MiB.\<close>

definition large_at :: "paging_info \<Rightarrow> nat \<Rightarrow> bool" where
  "large_at g q \<longleftrightarrow> 0 < q \<and> q < 512 \<or> vp (gp_hhdm_base g) div 512 < q \<and> q < vp (gp_hhdm_base g) div 512 + 512"

text \<open>The ranges of pages, as first page and number of pages.\<close>

definition default_ranges :: "paging_info \<Rightarrow> (nat \<times> nat) list" where
  "default_ranges g = [(vp (gp_kernelVirtBase g), kernel_pages g), (0, 2 ^ 20), (vp (gp_hhdm_base g), 2 ^ 20), (vp (gp_fbBase g), fb_pages g)] @
     map (\<lambda>e. (vp (me_base e), entry_pages e)) (gp_mmap g)"

definition placed :: "paging_info \<Rightarrow> request \<Rightarrow> bool" where
  "placed g r \<longleftrightarrow> obeys (default_frame g) r \<and> (rq_size r = PS_2M) = large_at g (vp (rq_virt r) div 512) \<and>
     (\<exists>(P, n) \<in> set (default_ranges g). P \<le> vp (rq_virt r) \<and> vp (rq_virt r) < P + n)"

lemma placed_kernel:
  assumes "layout_ok g" and "r \<in> set (kernel_requests g)"
  shows "placed g r"
proof -
  let ?v = "gp_kernelVirtBase g" and ?p = "gp_kernelPhysBase g"
  from assms(2) obtain k where k: "k < kernel_pages g" "r = small (?v + pg k) (?p + pg k) False" by (auto simp: kernel_set)
  have l: "unat ?v mod 4096 = 0" "unat ?p mod 4096 = 0" "unat ?p + 4096 * kernel_pages g \<le> 2 ^ 52"
    "vp ?v + kernel_pages g \<le> 2 ^ 36" "2 ^ 20 \<le> vp ?v"
    "vp ?v + kernel_pages g \<le> vp (gp_hhdm_base g) \<or> vp (gp_hhdm_base g) + 2 ^ 20 \<le> vp ?v"
    using assms(1) by (simp_all add: layout_ok_def)
  have v: "vp (?v + pg k) = vp ?v + k" using l(4) k(1) by (intro vp_add_pg) simp
  have "unat (?p + pg k) = unat ?p + 4096 * k" using l(3) k(1) by (intro unat_add_pg) simp
  also have "\<dots> = 4096 * (unat ?p div 4096 + k)" using l(2) by auto
  finally have "obeys (default_frame g) r"
    unfolding k(2) by (rule small_obeys [OF aligned_pg [OF l(1)]]) (use l(3) k(1) default_frame_values(1) [OF assms(1) k(1)] v in simp_all)
  moreover have "\<not> large_at g ((vp ?v + k) div 512)" using l(5,6) k(1) hhdm_pages(2) [OF assms(1)] by (auto simp: large_at_def)
  ultimately show ?thesis using k v by (simp add: placed_def default_ranges_def)
qed

lemma placed_identity:
  assumes "layout_ok g" and "0 < k" and "k < 2 ^ 20" and "\<not> large_at g (k div 512)"
  shows "placed g (small (pg k) (pg k) False)"
proof -
  have v: "vp (pg k) = k" "unat (pg k) = 4096 * k" using assms(3) by (simp_all add: vp_pg unat_pg)
  have "obeys (default_frame g) (small (pg k) (pg k) False)"
    by (rule small_obeys) (use v default_frame_values(4) [OF assms(1-3)] assms(3) in simp_all)
  with v assms(3,4) show ?thesis by (simp add: placed_def default_ranges_def)
qed

lemma placed_hhdm:
  assumes "layout_ok g" and "k < 2 ^ 20" and "\<not> large_at g ((vp (gp_hhdm_base g) + k) div 512)"
  shows "placed g (small (gp_hhdm_base g + pg k) (pg k) False)"
proof -
  let ?h = "gp_hhdm_base g"
  have "vp ?h + 2 ^ 20 \<le> 2 ^ 36" using assms(1) by (simp add: layout_ok_def)
  then have v: "vp (?h + pg k) = vp ?h + k" using assms(2) by (intro vp_add_pg) simp
  have "obeys (default_frame g) (small (?h + pg k) (pg k) False)"
    by (rule small_obeys [OF aligned_pg [OF hhdm_pages(3) [OF assms(1)]]])
      (use v default_frame_values(2) [OF assms(1,2)] assms(2) in \<open>simp_all add: unat_pg\<close>)
  with v assms(2,3) show ?thesis by (simp add: placed_def default_ranges_def)
qed

lemma placed_large:
  assumes "layout_ok g" and "r \<in> set (large_requests g)"
  shows "placed g r"
proof -
  let ?h = "gp_hhdm_base g"
  have h: "vp ?h + 2 ^ 20 \<le> 2 ^ 36" "vp ?h mod 512 = 0" using assms(1) hhdm_pages(2) [OF assms(1)] by (simp_all add: layout_ok_def)
  from assms(2) obtain k where k: "0 < k" "k < 512" and r: "r = large (pg (512 * k)) (pg (512 * k)) \<or> r = large (?h + pg (512 * k)) (pg (512 * k))"
    by (auto simp: large_set)
  have p: "unat (pg (512 * k)) = 4096 * (512 * k)" "vp (pg (512 * k)) = 512 * k" using k(2) unat_pg [of "512 * k"] vp_pg [of "512 * k"] by simp_all
  have v: "vp (?h + pg (512 * k)) = vp ?h + 512 * k" using h(1) k(2) by (intro vp_add_pg) simp
  have small: "512 * k + j < 2 ^ 20" if "j < 512" for j using k(2) that by simp
  from r show ?thesis
  proof
    assume r: "r = large (pg (512 * k)) (pg (512 * k))"
    have "obeys (default_frame g) r"
      unfolding r by (rule large_obeys [where k = k]) (use p k default_frame_values(4) [OF assms(1)] small in simp_all)
    then show ?thesis using r p(2) k by (simp add: placed_def default_ranges_def large_at_def)
  next
    assume r: "r = large (?h + pg (512 * k)) (pg (512 * k))"
    have "obeys (default_frame g) r"
      unfolding r by (rule large_obeys [OF aligned_pg [OF hhdm_pages(3) [OF assms(1)]], where k = k])
        (use p v k h(2) default_frame_values(2) [OF assms(1) small] in \<open>simp_all add: add.assoc\<close>)
    moreover have "(vp ?h + 512 * k) div 512 = vp ?h div 512 + k" by simp
    ultimately show ?thesis using r v k by (simp add: placed_def default_ranges_def large_at_def)
  qed
qed

lemma not_large:
  assumes "layout_ok g"
  shows "k < 512 \<or> 2 ^ 18 \<le> k \<and> k < vp (gp_hhdm_base g) \<Longrightarrow> \<not> large_at g (k div 512)"
    and "k < 512 \<or> 2 ^ 18 \<le> k \<Longrightarrow> \<not> large_at g ((vp (gp_hhdm_base g) + k) div 512)"
proof -
  let ?H = "vp (gp_hhdm_base g)"
  obtain q where q: "?H = 512 * q" using hhdm_pages(2) [OF assms] by auto
  have "2 ^ 35 \<le> ?H" by (rule hhdm_pages(1) [OF assms])
  then have big: "2 ^ 26 \<le> q" using q by simp
  show "\<not> large_at g (k div 512)" if "k < 512 \<or> 2 ^ 18 \<le> k \<and> k < ?H"
  proof -
    have "k div 512 = 0 \<or> 512 \<le> k div 512 \<and> k div 512 < q"
      using that q by (auto simp: div_less_iff_less_mult less_eq_div_iff_mult_less_eq)
    then show ?thesis using big q by (auto simp: large_at_def)
  qed
  show "\<not> large_at g ((?H + k) div 512)" if "k < 512 \<or> 2 ^ 18 \<le> k"
  proof -
    have "k div 512 = 0 \<or> 512 \<le> k div 512" using that by (auto simp: less_eq_div_iff_mult_less_eq)
    moreover have "(?H + k) div 512 = q + k div 512" using q by simp
    ultimately show ?thesis using big q by (auto simp: large_at_def)
  qed
qed

lemma placed_4K:
  assumes "layout_ok g" and "r \<in> set (low_requests g) \<union> set (high_requests g)"
  shows "placed g r"
proof -
  have H: "2 ^ 35 \<le> vp (gp_hhdm_base g)" by (rule hhdm_pages(1) [OF assms(1)])
  let ?S = "{k. k < 2 ^ 20 \<and> (k < 512 \<or> 2 ^ 18 \<le> k)}"
  have im: "f ` {0<..<512} \<subseteq> f ` (?S \<inter> {k. 0 < k})" "f ` {..<512} \<subseteq> f ` ?S"
    "f ` {2 ^ 18..<2 ^ 20} \<subseteq> f ` (?S \<inter> {k. 0 < k})" "f ` {2 ^ 18..<2 ^ 20} \<subseteq> f ` ?S" for f :: "nat \<Rightarrow> request" by (rule image_mono, auto)+
  have "set (low_requests g) \<union> set (high_requests g) \<subseteq>
      (\<lambda>k. small (pg k) (pg k) False) ` (?S \<inter> {k. 0 < k}) \<union> (\<lambda>k. small (gp_hhdm_base g + pg k) (pg k) False) ` ?S"
    unfolding low_set high_set by (rule Un_least [OF Un_mono [OF im(1,2)] Un_mono [OF im(3,4)]])
  with assms(2) obtain k where k: "k < 2 ^ 20" "k < 512 \<or> 2 ^ 18 \<le> k"
    and r: "0 < k \<and> r = small (pg k) (pg k) False \<or> r = small (gp_hhdm_base g + pg k) (pg k) False"
    by blast
  from r show ?thesis
  proof
    assume r: "0 < k \<and> r = small (pg k) (pg k) False"
    have "\<not> large_at g (k div 512)" using H k by (intro not_large(1) [OF assms(1)]) auto
    with placed_identity [OF assms(1) _ k(1)] r show ?thesis by simp
  next
    assume "r = small (gp_hhdm_base g + pg k) (pg k) False"
    with placed_hhdm [OF assms(1) k(1) not_large(2) [OF assms(1) k(2)]] show ?thesis by simp
  qed
qed

lemma placed_entry:
  assumes "layout_ok g" and "e \<in> set (gp_mmap g)" and "r \<in> set (entry_requests e)"
  shows "placed g r"
proof -
  let ?b = "me_base e"
  from assms(3) obtain k where al: "?b mod 4096 = 0" and k: "k < entry_pages e" "r = small (?b + pg k) (?b + pg k) False"
    by (auto simp: entry_set split: if_splits)
  note le = layout_entry [OF assms(1,2) al]
  have H: "vp (gp_hhdm_base g) + 2 ^ 20 \<le> 2 ^ 36" using assms(1) by (simp add: layout_ok_def)
  have lim: "vp ?b + k < vp (gp_hhdm_base g)" using le(2) k(1) by simp
  have v: "vp (?b + pg k) = vp ?b + k" using lim H by (intro vp_add_pg) simp
  have b: "unat ?b = 4096 * vp ?b" using aligned_word [OF al] le(1) by (auto simp: vp_eq)
  have "unat (?b + pg k) = 4096 * (vp ?b + k)" using b lim H by (subst unat_add_pg) simp_all
  then have "obeys (default_frame g) r"
    unfolding k(2) using default_frame_values(5) [OF assms(1,2) al k(1)] v lim H
    by (intro small_obeys aligned_pg aligned_word [OF al]) simp_all
  moreover have "\<not> large_at g ((vp ?b + k) div 512)" using le(3) lim k(1) by (intro not_large(1) [OF assms(1)]) auto
  moreover have "(vp ?b, entry_pages e) \<in> set (default_ranges g)" using assms(2) by (simp add: default_ranges_def)
  ultimately show ?thesis using k v by (auto simp: placed_def intro!: bexI [of _ "(vp ?b, entry_pages e)"])
qed

lemma placed_fb:
  assumes "layout_ok g" and "r \<in> set (fb_requests g)"
  shows "placed g r"
proof -
  let ?f = "gp_fbBase g" and ?h = "gp_hhdm_base g"
  from assms(2) obtain k where k: "k < fb_pages g" "r = small (?f + pg k) (?f + pg k - ?h) False" by (auto simp: fb_set)
  have l: "unat ?f mod 4096 = 0" "vp ?h + 2 ^ 18 \<le> vp ?f" "vp ?f + fb_pages g \<le> 2 ^ 36" using assms(1) by (simp_all add: layout_ok_def)
  have v: "vp (?f + pg k) = vp ?f + k" using l(3) k(1) by (intro vp_add_pg) simp
  have "obeys (default_frame g) r"
    unfolding k(2) by (rule small_obeys [OF aligned_pg [OF l(1)] hhdm_pages(4) [OF assms(1) k(1)]])
      (use l k v default_frame_values(3) [OF assms(1) k(1)] in simp_all)
  moreover have "\<not> large_at g ((vp ?h + (vp ?f + k - vp ?h)) div 512)" using l(2) by (intro not_large(2) [OF assms(1)] disjI2) simp
  then have "\<not> large_at g ((vp ?f + k) div 512)" using l(2) by simp
  ultimately show ?thesis using k v by (simp add: placed_def default_ranges_def)
qed

lemma default_placed: "layout_ok g \<Longrightarrow> r \<in> set (default_requests g) \<Longrightarrow> placed g r"
  unfolding default_requests_def
  by (auto intro: placed_kernel placed_4K placed_large placed_entry placed_fb)

lemma default_members:
  "k < kernel_pages g \<Longrightarrow> small (gp_kernelVirtBase g + pg k) (gp_kernelPhysBase g + pg k) False \<in> set (default_requests g)"
  "k < fb_pages g \<Longrightarrow> small (gp_fbBase g + pg k) (gp_fbBase g + pg k - gp_hhdm_base g) False \<in> set (default_requests g)"
  "k < 2 ^ 20 \<Longrightarrow> k < 512 \<or> 2 ^ 18 \<le> k \<Longrightarrow> small (gp_hhdm_base g + pg k) (pg k) False \<in> set (default_requests g)"
  "0 < k \<Longrightarrow> k < 2 ^ 20 \<Longrightarrow> k < 512 \<or> 2 ^ 18 \<le> k \<Longrightarrow> small (pg k) (pg k) False \<in> set (default_requests g)"
  "0 < k \<Longrightarrow> k < 512 \<Longrightarrow> large (gp_hhdm_base g + pg (512 * k)) (pg (512 * k)) \<in> set (default_requests g)"
  "0 < k \<Longrightarrow> k < 512 \<Longrightarrow> large (pg (512 * k)) (pg (512 * k)) \<in> set (default_requests g)"
proof -
  show "small (gp_kernelVirtBase g + pg k) (gp_kernelPhysBase g + pg k) False \<in> set (default_requests g)" if "k < kernel_pages g"
    using that unfolding default_requests_def set_append kernel_set by (intro UnI1 imageI) simp
  show "small (gp_fbBase g + pg k) (gp_fbBase g + pg k - gp_hhdm_base g) False \<in> set (default_requests g)" if "k < fb_pages g"
    using that unfolding default_requests_def set_append fb_set by (intro UnI2 imageI) simp
  have low: "x \<in> set (low_requests g) \<Longrightarrow> x \<in> set (default_requests g)" and lg: "x \<in> set (large_requests g) \<Longrightarrow> x \<in> set (default_requests g)"
    and high: "x \<in> set (high_requests g) \<Longrightarrow> x \<in> set (default_requests g)" for x by (simp_all add: default_requests_def)
  show "small (gp_hhdm_base g + pg k) (pg k) False \<in> set (default_requests g)" if k: "k < 2 ^ 20" "k < 512 \<or> 2 ^ 18 \<le> k"
    using k(2)
  proof
    assume "k < 512"
    then show ?thesis by (intro low) (unfold low_set, intro UnI2 imageI, simp)
  next
    assume "2 ^ 18 \<le> k"
    then show ?thesis using k(1) by (intro high) (unfold high_set, intro UnI2 imageI, simp)
  qed
  show "small (pg k) (pg k) False \<in> set (default_requests g)" if k: "0 < k" "k < 2 ^ 20" "k < 512 \<or> 2 ^ 18 \<le> k"
    using k(3)
  proof
    assume "k < 512"
    then show ?thesis using k(1) by (intro low) (unfold low_set, intro UnI1 imageI, simp)
  next
    assume "2 ^ 18 \<le> k"
    then show ?thesis using k(2) by (intro high) (unfold high_set, intro UnI1 imageI, simp)
  qed
  show "large (gp_hhdm_base g + pg (512 * k)) (pg (512 * k)) \<in> set (default_requests g)" if "0 < k" "k < 512"
    using that by (intro lg) (unfold large_set, intro UnI2 imageI, simp)
  show "large (pg (512 * k)) (pg (512 * k)) \<in> set (default_requests g)" if "0 < k" "k < 512"
    using that by (intro lg) (unfold large_set, intro UnI1 imageI, simp)
qed

lemma default_member_entry:
  assumes "e \<in> set (gp_mmap g)" and "me_base e mod 4096 = 0" and "k < entry_pages e"
  shows "small (me_base e + pg k) (me_base e + pg k) False \<in> set (default_requests g)"
proof -
  have "small (me_base e + pg k) (me_base e + pg k) False \<in> set (entry_requests e)"
    unfolding entry_set using assms(2,3) by (simp only: simp_thms if_True) (rule imageI, simp)
  with assms(1) show ?thesis by (auto simp: default_requests_def)
qed

lemma default_complete:
  assumes "layout_ok g" and "default_frame g (vp w) \<noteq> None"
  shows "\<exists>r \<in> set (default_requests g). covers r w"
proof -
  let ?n = "vp w" and ?K = "vp (gp_kernelVirtBase g)" and ?H = "vp (gp_hhdm_base g)" and ?F = "vp (gp_fbBase g)"
  have H: "?H + 2 ^ 20 \<le> 2 ^ 36" "?H mod 512 = 0" using assms(1) hhdm_pages(2) [OF assms(1)] by (simp_all add: layout_ok_def)
  have n: "?n < 2 ^ 36" by (rule vp_less)
  have at: "vp (b + pg (?n - vp b)) = ?n" if "vp b \<le> ?n" for b using that n by (subst vp_add_pg) simp_all
  have small: "covers (small v p u) w" if "vp v = ?n" for v p u using that by (simp add: covers_def same_page_0_vp)
  have direct: "\<exists>r \<in> set (default_requests g). covers r w" if b: "vp b = B" "B mod 512 = 0" "B \<le> ?n" "?n < B + 2 ^ 20"
    and mem: "\<And>k. k < 2 ^ 20 \<Longrightarrow> k = ?n - B \<Longrightarrow> k < 512 \<or> 2 ^ 18 \<le> k \<Longrightarrow> small (b + pg k) (pg k) False \<in> set (default_requests g)"
      "\<And>k. 0 < k \<Longrightarrow> k < 512 \<Longrightarrow> large (b + pg (512 * k)) (pg (512 * k)) \<in> set (default_requests g)" for b B
  proof (cases "?n - B < 512 \<or> 2 ^ 18 \<le> ?n - B")
    case True
    with mem(1) [of "?n - B"] b have "small (b + pg (?n - B)) (pg (?n - B)) False \<in> set (default_requests g)" by simp
    moreover have "covers (small (b + pg (?n - B)) (pg (?n - B)) False) w" using at [of b] b by (intro small) simp
    ultimately show ?thesis by blast
  next
    case False
    let ?k = "(?n - B) div 512"
    have k: "0 < ?k" "?k < 512" using False by (simp_all add: div_less_iff_less_mult div_greater_zero_iff)
    have "vp (b + pg (512 * ?k)) = B + 512 * ?k" using b n by (subst vp_add_pg) auto
    then have "vp (b + pg (512 * ?k)) div 512 = ?n div 512" using b(2,3)
      by (simp only:) (metis div_mult_self4 le_add_diff_inverse mod_0_imp_dvd dvd_div_mult_self div_add zero_neq_numeral nonzero_mult_div_cancel_left div_plus_div_distrib_dvd_left add.commute)
    then have "covers (large (b + pg (512 * ?k)) (pg (512 * ?k))) w" using same_page_1_vp by (simp add: covers_def)
    with mem(2) [OF k] show ?thesis by blast
  qed
  have "?K \<le> ?n \<and> ?n < ?K + kernel_pages g \<or> ?H \<le> ?n \<and> ?n < ?H + 2 ^ 20 \<or> ?F \<le> ?n \<and> ?n < ?F + fb_pages g \<or> 0 < ?n \<and> ?n < 2 ^ 20 \<or>
      (\<exists>e \<in> set (gp_mmap g). me_base e mod 4096 = 0 \<and> vp (me_base e) \<le> ?n \<and> ?n < vp (me_base e) + entry_pages e)"
    using assms(2) unfolding default_frame_def by (auto split: if_splits)
  then consider (kernel) "?K \<le> ?n" "?n < ?K + kernel_pages g" | (hhdm) "?H \<le> ?n" "?n < ?H + 2 ^ 20"
    | (fb) "?F \<le> ?n" "?n < ?F + fb_pages g" | (low) "0 < ?n" "?n < 2 ^ 20"
    | (entry) e where "e \<in> set (gp_mmap g)" "me_base e mod 4096 = 0" "vp (me_base e) \<le> ?n" "?n < vp (me_base e) + entry_pages e"
    by (elim disjE bexE conjE) metis+
  then show ?thesis
  proof cases
    case kernel
    with default_members(1) [of "?n - ?K" g] small [OF at [OF kernel(1)]] show ?thesis by force
  next
    case hhdm
    show ?thesis by (rule direct [OF refl H(2) hhdm default_members(3,5)])
  next
    case fb
    with default_members(2) [of "?n - ?F" g] small [OF at [OF fb(1)]] show ?thesis by force
  next
    case low
    have z: "vp 0 = 0" by (simp add: vp_eq)
    show ?thesis
      by (rule direct [OF z]) (use low default_members(4,6) in simp_all)
  next
    case (entry e)
    with default_member_entry [OF entry(1,2), of "?n - vp (me_base e)"] small [OF at [OF entry(3)]] show ?thesis by force
  qed
qed

definition default_tables :: "paging_info \<Rightarrow> nat" where
  "default_tables g = (\<Sum>(P, n) \<leftarrow> default_ranges g. tables_for n)"

lemma default_run:
  assumes "layout_ok g"
  shows "\<forall>r \<in> set (default_requests g). request_ok r" and "no_clash (default_requests g)"
    and "card (needs (default_requests g)) \<le> default_tables g"
proof -
  have pl: "obeys (default_frame g) r" "(rq_size r = PS_2M) = (vp (rq_virt r) div 512 \<in> Collect (large_at g))"
    "\<exists>(P, n) \<in> set (default_ranges g). P \<le> vp (rq_virt r) \<and> vp (rq_virt r) < P + n" if "r \<in> set (default_requests g)" for r
    using default_placed [OF assms that] by (simp_all add: placed_def)
  then show "\<forall>r \<in> set (default_requests g). request_ok r" by (simp add: obeys_def)
  show "no_clash (default_requests g)" by (rule no_clashI) (use pl(2) in blast)
  show "card (needs (default_requests g)) \<le> default_tables g"
    unfolding default_tables_def by (rule needs_bound) (use pl(3) in blast)
qed

lemma CreateDefaultMappings_builds:
  assumes sp: "space root s []" and g: "GlobalPagingInfo s = g" and lay: "layout_ok g"
    and room: "default_tables g \<le> card (free_pages s)"
  shows "\<exists>s'. CreateDefaultMappings root s = Inr ((), s') \<and> space root s' (default_requests g) \<and>
    implements (mem s') root (default_frame g) \<and> run_frame root s s' \<and> card (free_pages s) \<le> default_tables g + card (free_pages s')"
proof -
  let ?pre = "kernel_requests g @ low_requests g"
  obtain rest where rs: "default_requests g = ?pre @ rest" by (simp add: default_requests_def)
  note run = default_run [OF lay]
  have "card (needs ?pre) \<le> card (needs (default_requests g))" unfolding rs by (intro card_mono) auto
  then have "card (needs ([] @ ?pre)) \<le> card (needs []) + card (free_pages s)" using run(3) room by simp
  moreover have "\<forall>r \<in> set ?pre. request_ok r" "no_clash ([] @ ?pre)" using run(1,2) unfolding rs by (auto simp: no_clash_def)
  ultimately obtain s1 where s1: "map_all root ?pre s = Inr ((), s1)" "run_frame root s s1"
    using map_all_space [OF sp] by blast
  from s1(2) have "s1 = s\<lparr>mem := mem s1\<rparr>" by (simp add: run_frame_def)
  then have "GlobalPagingInfo s1 = GlobalPagingInfo (s\<lparr>mem := mem s1\<rparr>)" by (rule arg_cong)
  then have g1: "GlobalPagingInfo s1 = g" using g by simp
  have ends: "ends_ok g" using lay by (simp add: layout_ok_def)
  have "card (needs ([] @ default_requests g)) \<le> card (needs []) + card (free_pages s)" using run(3) room by simp
  from map_all_space [OF sp run(1) _ this] run(2) obtain s' where s': "map_all root (default_requests g) s = Inr ((), s')"
    "space root s' (default_requests g)" "run_frame root s s'"
    "card (needs (default_requests g)) + card (free_pages s') = card (free_pages s)" by auto
  have "implements (mem s') root (default_frame g)"
    using default_placed [OF lay] default_complete [OF lay] by (intro space_implements [OF s'(2)]) (auto simp: placed_def)
  with s' run(3) CreateDefaultMappings_run [OF g ends s1(1) g1] show ?thesis by auto
qed

section \<open>Setting up paging\<close>

lemma space_info [simp]: "space root (s\<lparr>pml4 := p, GlobalPagingInfo := g\<rparr>) rs = space root s rs"
  "free_pages (s\<lparr>pml4 := p, GlobalPagingInfo := g\<rparr>) = free_pages s" "table_bytes (s\<lparr>pml4 := p, GlobalPagingInfo := g\<rparr>) = table_bytes s"
  by (simp_all add: space_def tree_ok_def alloc_ok_def owned_page_def free_pages_def frame_table_def nframes_def table_bytes_def)

lemma empty_reserved:
  fixes s :: "'z heap_scheme"
  assumes "alloc_ok s" and "\<forall>p \<in> free_pages s. unat p < 2 ^ 40" and "PageAlloc s = Inr (root, s')"
  shows "reserved s' root \<subseteq> table_bytes s \<union> (\<Union>p \<in> free_pages s. bytes p 4096)"
proof -
  from pages.alloc_effect [OF assms(1,3)] have r: "root \<in> free_pages s" "free_pages s' = free_pages s - {root}" "table_bytes s' = table_bytes s" by auto
  have "q = []" if "path_ok q" "table_at (mem s') root q = Some t" for q t
    using that empty_space [OF assms] by (cases "q = []") (auto simp: space_def tabs_def)
  then have "\<Union> {bytes t 4096 |is t. path_ok is \<and> table_at (mem s') root is = Some t} \<subseteq> bytes root 4096" by fastforce
  also have "\<dots> \<subseteq> (\<Union>p \<in> free_pages s. bytes p 4096)" using r(1) by blast
  finally show ?thesis unfolding reserved_def r(2,3) by (intro Un_least) (blast, blast, rule le_supI2)
qed

lemma implements_cong:
  assumes "implements m root f" and "\<And>q t x. path_ok q \<Longrightarrow> table_at m root q = Some t \<Longrightarrow> x \<in> bytes t 4096 \<Longrightarrow> m' x = m x"
  shows "implements m' root f"
proof -
  have "agree_but None m' m root"
    unfolding agree_but_def using assms(2) by (intro allI impI pte_cong) blast+
  then have "translate m' root = translate m root" by (intro ext translate_agree [where x = None]) (simp_all add: avoids_def)
  with assms(1) show ?thesis by (simp only: implements_def simp_thms)
qed

section \<open>The address space of a task\<close>

text \<open>The pages of the task's code, from \<open>start\<close> to \<open>end\<close>; a kernel task has none of its own.\<close>

definition task_pages :: "u64 \<Rightarrow> u64 \<Rightarrow> bool \<Rightarrow> nat" where
  "task_pages start endp kern = (if kern then 0 else count start endp 4096)"

definition task_requests :: "u64 \<Rightarrow> nat \<Rightarrow> request list" where
  "task_requests start n = concat (map (\<lambda>a. [small a a True]) (steps start 4096 n))"

definition process_requests :: "paging_info \<Rightarrow> u64 \<Rightarrow> nat \<Rightarrow> request list" where
  "process_requests g start n = large_requests g @ kernel_requests g @ task_requests start n"

text \<open>
  A task sees the kernel image, the physical memory from 2 MiB to 1 GiB at its own addresses and in
  the direct map, and its own code.
\<close>

definition process_frame :: "paging_info \<Rightarrow> u64 \<Rightarrow> nat \<Rightarrow> nat \<Rightarrow> nat option" where
  "process_frame g start m n =
     (if vp (gp_kernelVirtBase g) \<le> n \<and> n < vp (gp_kernelVirtBase g) + kernel_pages g \<or> large_at g (n div 512) then default_frame g n
      else if vp start \<le> n \<and> n < vp start + m then Some n else None)"

definition task_ok :: "paging_info \<Rightarrow> u64 \<Rightarrow> u64 \<Rightarrow> nat \<Rightarrow> bool" where
  "task_ok g start endp n \<longleftrightarrow> n = 0 \<or> unat endp + 4096 \<le> 2 ^ 64 \<and> unat start mod 4096 = 0 \<and> unat start < 2 ^ 48 \<and>
     vp start + n \<le> vp (gp_hhdm_base g) \<and> (vp start + n \<le> 512 \<or> 2 ^ 18 \<le> vp start) \<and>
     (vp start + n \<le> vp (gp_kernelVirtBase g) \<or> vp (gp_kernelVirtBase g) + kernel_pages g \<le> vp start)"

definition process_tables :: "paging_info \<Rightarrow> nat \<Rightarrow> nat" where
  "process_tables g n = 2 * tables_for (2 ^ 18) + tables_for (kernel_pages g) + tables_for n"

lemma task_set: "set (task_requests start n) = (\<lambda>k. small (start + pg k) (start + pg k) True) ` {..<n}"
  by (auto simp: task_requests_def set_steps)

lemma obeys_cong:
  assumes "obeys f r" and "\<And>n. n div 512 = vp (rq_virt r) div 512 \<Longrightarrow> rq_size r = PS_2M \<Longrightarrow> f' n = f n"
    and "rq_size r = PS_4K \<Longrightarrow> f' (vp (rq_virt r)) = f (vp (rq_virt r))"
  shows "obeys f' r"
proof (cases "rq_size r")
  case PS_4K
  with assms(1,3) show ?thesis by (simp add: obeys_def)
next
  case PS_2M
  have "f' (vp (rq_virt r) + j) = f (vp (rq_virt r) + j)" if "vp (rq_virt r) mod 512 = 0" "j < 512" for j
    using that PS_2M by (intro assms(2)) auto
  with PS_2M assms(1) show ?thesis by (simp add: obeys_def)
qed

lemma process_placed:
  assumes lay: "layout_ok g" and task: "task_ok g start endp n" and r: "r \<in> set (process_requests g start n)"
  shows "obeys (process_frame g start n) r" and "(rq_size r = PS_2M) = (vp (rq_virt r) div 512 \<in> Collect (large_at g))"
    and "\<exists>(P, m) \<in> set [(0, 2 ^ 18), (vp (gp_hhdm_base g), 2 ^ 18), (vp (gp_kernelVirtBase g), kernel_pages g), (vp start, n)].
      P \<le> vp (rq_virt r) \<and> vp (rq_virt r) < P + m"
proof -
  let ?v = "gp_kernelVirtBase g" and ?h = "gp_hhdm_base g"
  have H: "vp ?h + 2 ^ 20 \<le> 2 ^ 36" using lay by (simp add: layout_ok_def)
  have "obeys (process_frame g start n) r \<and> (rq_size r = PS_2M) = (vp (rq_virt r) div 512 \<in> Collect (large_at g)) \<and>
      (\<exists>(P, m) \<in> set [(0, 2 ^ 18), (vp ?h, 2 ^ 18), (vp ?v, kernel_pages g), (vp start, n)]. P \<le> vp (rq_virt r) \<and> vp (rq_virt r) < P + m)"
    using r unfolding process_requests_def set_append
  proof (elim UnE)
    assume r: "r \<in> set (large_requests g)"
    from placed_large [OF lay r] have pl: "obeys (default_frame g) r" "(rq_size r = PS_2M) = large_at g (vp (rq_virt r) div 512)"
      by (simp_all add: placed_def)
    from r obtain k where k: "0 < k" "k < 512" "r = large (pg (512 * k)) (pg (512 * k)) \<or> r = large (?h + pg (512 * k)) (pg (512 * k))"
      by (auto simp: large_set)
    then have sz: "rq_size r = PS_2M" by auto
    have "obeys (process_frame g start n) r"
      by (rule obeys_cong [OF pl(1)]) (use pl(2) sz in \<open>simp_all add: process_frame_def\<close>)
    moreover have "vp (pg (512 * k)) = 512 * k" "vp (?h + pg (512 * k)) = vp ?h + 512 * k"
      using k(2) H vp_pg [of "512 * k"] vp_add_pg [of ?h "512 * k"] by simp_all
    ultimately show ?thesis using k pl(2) sz by auto
  next
    assume r: "r \<in> set (kernel_requests g)"
    from placed_kernel [OF lay r] have pl: "obeys (default_frame g) r" "(rq_size r = PS_2M) = large_at g (vp (rq_virt r) div 512)"
      by (simp_all add: placed_def)
    from r obtain k where k: "k < kernel_pages g" "r = small (?v + pg k) (gp_kernelPhysBase g + pg k) False" by (auto simp: kernel_set)
    have "vp ?v + kernel_pages g \<le> 2 ^ 36" using lay by (simp add: layout_ok_def)
    then have v: "vp (?v + pg k) = vp ?v + k" using k(1) by (intro vp_add_pg) simp
    have "obeys (process_frame g start n) r"
      by (rule obeys_cong [OF pl(1)]) (use k v in \<open>simp_all add: process_frame_def\<close>)
    with k v pl(2) show ?thesis by auto
  next
    assume "r \<in> set (task_requests start n)"
    then obtain k where k: "k < n" "r = small (start + pg k) (start + pg k) True" by (auto simp: task_set)
    with task have t: "unat start mod 4096 = 0" "unat start < 2 ^ 48" "vp start + n \<le> vp ?h" "vp start + n \<le> 512 \<or> 2 ^ 18 \<le> vp start"
      "vp start + n \<le> vp ?v \<or> vp ?v + kernel_pages g \<le> vp start" by (auto simp: task_ok_def)
    have lim: "vp start + k < vp ?h" using t(3) k(1) by simp
    have v: "vp (start + pg k) = vp start + k" using lim H by (intro vp_add_pg) simp
    have b: "unat start = 4096 * vp start" using t(1,2) by (auto simp: vp_eq)
    have p: "unat (start + pg k) = 4096 * (vp start + k)" using b lim H by (subst unat_add_pg) simp_all
    have nl: "\<not> large_at g ((vp start + k) div 512)" using t(4) lim k(1) by (intro not_large(1) [OF lay]) auto
    have nk: "\<not> (vp ?v \<le> vp start + k \<and> vp start + k < vp ?v + kernel_pages g)" using t(5) k(1) by linarith
    have "process_frame g start n (vp start + k) = Some (vp start + k)"
      unfolding process_frame_def using nl nk k(1) by auto
    with v p lim H have "obeys (process_frame g start n) r"
      unfolding k(2) by (intro small_obeys aligned_pg t(1)) simp_all
    with v nl k show ?thesis by auto
  qed
  then show "obeys (process_frame g start n) r" "(rq_size r = PS_2M) = (vp (rq_virt r) div 512 \<in> Collect (large_at g))"
    "\<exists>(P, m) \<in> set [(0, 2 ^ 18), (vp ?h, 2 ^ 18), (vp ?v, kernel_pages g), (vp start, n)]. P \<le> vp (rq_virt r) \<and> vp (rq_virt r) < P + m"
    by blast+
qed

lemma process_complete:
  assumes lay: "layout_ok g" and f: "process_frame g start n (vp w) \<noteq> None"
  shows "\<exists>r \<in> set (process_requests g start n). covers r w"
proof -
  let ?n = "vp w" and ?v = "gp_kernelVirtBase g" and ?h = "gp_hhdm_base g"
  have H: "vp ?h + 2 ^ 20 \<le> 2 ^ 36" "vp ?h mod 512 = 0" using lay hhdm_pages(2) [OF lay] by (simp_all add: layout_ok_def)
  have at: "vp (b + pg (?n - vp b)) = ?n" if "vp b \<le> ?n" for b using that vp_less [of w] by (subst vp_add_pg) simp_all
  have small: "covers (small v p u) w" if "vp v = ?n" for v p u using that by (simp add: covers_def same_page_0_vp)
  have large: "covers (large v p) w" if "vp v div 512 = ?n div 512" for v p using that same_page_1_vp by (simp add: covers_def)
  have mem: "x \<in> set (large_requests g) \<Longrightarrow> x \<in> set (process_requests g start n)" "x \<in> set (kernel_requests g) \<Longrightarrow> x \<in> set (process_requests g start n)"
    "x \<in> set (task_requests start n) \<Longrightarrow> x \<in> set (process_requests g start n)" for x by (simp_all add: process_requests_def)
  from f consider (kernel) "vp ?v \<le> ?n" "?n < vp ?v + kernel_pages g" | (large) "large_at g (?n div 512)"
    | (task) "vp start \<le> ?n" "?n < vp start + n" by (auto simp: process_frame_def split: if_splits)
  then show ?thesis
  proof cases
    case kernel
    have "small (?v + pg k) (gp_kernelPhysBase g + pg k) False \<in> set (kernel_requests g)" if "k < kernel_pages g" for k
      unfolding kernel_set using that by (intro imageI) simp
    from mem(2) [OF this, of "?n - vp ?v"] kernel small [OF at [OF kernel(1)]] show ?thesis by force
  next
    case task
    have "small (start + pg k) (start + pg k) True \<in> set (task_requests start n)" if "k < n" for k
      unfolding task_set using that by (intro imageI) simp
    from mem(3) [OF this, of "?n - vp start"] task small [OF at [OF task(1)]] show ?thesis by force
  next
    case large
    from large consider (low) "0 < ?n div 512" "?n div 512 < 512"
      | (high) "vp ?h div 512 < ?n div 512" "?n div 512 < vp ?h div 512 + 512" by (auto simp: large_at_def)
    then show ?thesis
    proof cases
      case low
      have "large (pg (512 * k)) (pg (512 * k)) \<in> set (large_requests g)" if "0 < k" "k < 512" for k
        unfolding large_set using that by (intro UnI1 imageI) simp
      from mem(1) [OF this, OF low] show ?thesis
        using \<open>\<And>v p. vp v div 512 = ?n div 512 \<Longrightarrow> covers (large v p) w\<close> [of "pg (512 * (?n div 512))"] vp_pg [of "512 * (?n div 512)"] low by force
    next
      case high
      define k where "k = ?n div 512 - vp ?h div 512"
      have k: "0 < k" "k < 512" "?n div 512 = vp ?h div 512 + k" using high by (simp_all add: k_def)
      have "large (?h + pg (512 * k)) (pg (512 * k)) \<in> set (large_requests g)"
        unfolding large_set using k(1,2) by (intro UnI2 imageI) simp
      moreover have "vp (?h + pg (512 * k)) = vp ?h + 512 * k" using k(2) H(1) by (intro vp_add_pg) simp
      ultimately show ?thesis using mem(1) k(3) \<open>\<And>v p. vp v div 512 = ?n div 512 \<Longrightarrow> covers (large v p) w\<close> [of "?h + pg (512 * k)"] by force
    qed
  qed
qed

lemma CreateProcessPML4_run:
  assumes g: "GlobalPagingInfo s = g" and ends: "ends_ok g" and task: "task_ok g start endp (task_pages start endp kern)"
    and ret: "PageAlloc s = Inr (root, s0)" "GlobalPagingInfo s0 = g"
    and stage: "map_all root (large_requests g) s0 = Inr ((), s1)" "GlobalPagingInfo s1 = g"
  shows "CreateProcessPML4 start endp kern s =
    bindR (map_all root (process_requests g start (task_pages start endp kern)) s0) (\<lambda>_ s. Inr (root, s))"
proof -
  have loop: "(if \<not> kern then for_loop start endp 4096 (\<lambda>a s. map_page root (a + 0) a PS_4K True s) s else Inr ((), s)) =
      map_all root (task_requests start (task_pages start endp kern)) s" for s :: "'a paging_scheme"
  proof (cases "task_pages start endp kern = 0")
    case True
    then have "\<not> kern \<Longrightarrow> \<not> start < endp"
      by (auto simp: task_pages_def count_def word_less_nat_alt div_eq_0_iff)
    with True show ?thesis by (simp add: task_requests_def steps_def for_loop_def for_up.simps)
  next
    case False
    then have k: "\<not> kern" by (auto simp: task_pages_def)
    with False task have e: "unat endp + 4096 \<le> 2 ^ 64" by (simp add: task_ok_def)
    have "for_loop start endp 4096 (\<lambda>a s. map_page root (a + 0) a PS_4K True s) s = map_all root (task_requests start (task_pages start endp kern)) s"
      unfolding task_requests_def by (rule loop_run) (use k e in \<open>simp_all add: task_pages_def\<close>)
    with k show ?thesis by simp
  qed
  have "CreateProcessPML4 start endp kern s = bindR (map_all root (kernel_requests g) s1) (\<lambda>_ s.
      bindR (map_all root (task_requests start (task_pages start endp kern)) s) (\<lambda>_ s. Inr (root, s)))"
    unfolding CreateProcessPML4_def ret(1) bindR_Inr Let_def map_low_2M_run [OF ret(2)] stage(1) map_kernel_run [OF stage(2) ends]
    using loop by (cases kern) simp_all
  also have "\<dots> = bindR (map_all root (process_requests g start (task_pages start endp kern)) s0) (\<lambda>_ s. Inr (root, s))"
    unfolding process_requests_def map_all_append stage(1) bindR_Inr bindR_assoc ..
  finally show ?thesis .
qed

lemma process_run:
  assumes "layout_ok g" and "task_ok g start endp n"
  shows "\<forall>r \<in> set (process_requests g start n). request_ok r" and "no_clash (process_requests g start n)"
    and "card (needs (process_requests g start n)) \<le> process_tables g n"
proof -
  note pl = process_placed [OF assms]
  show "\<forall>r \<in> set (process_requests g start n). request_ok r" using pl(1) by (simp add: obeys_def)
  show "no_clash (process_requests g start n)" by (rule no_clashI) (use pl(2) in blast)
  have "card (needs (process_requests g start n)) \<le>
      (\<Sum>(P, m) \<leftarrow> [(0, 2 ^ 18), (vp (gp_hhdm_base g), 2 ^ 18), (vp (gp_kernelVirtBase g), kernel_pages g), (vp start, n)]. tables_for m)"
    by (rule needs_bound) (use pl(3) in blast)
  then show "card (needs (process_requests g start n)) \<le> process_tables g n" by (simp add: process_tables_def)
qed

lemma CreateProcessPML4_builds:
  fixes s :: "'z paging_scheme"
  assumes ok: "alloc_ok s" "\<forall>p \<in> free_pages s. unat p < 2 ^ 40" and lay: "layout_ok (GlobalPagingInfo s)"
    and task: "task_ok (GlobalPagingInfo s) start endp n" and n: "n = task_pages start endp kern"
    and room: "process_tables (GlobalPagingInfo s) n < card (free_pages s)"
  shows "\<exists>root s'. CreateProcessPML4 start endp kern s = Inr (root, s') \<and> implements (mem s') root (process_frame (GlobalPagingInfo s) start n) \<and>
    tree_ok s' root \<and> root \<in> free_pages s \<and> s' = s\<lparr>mem := mem s'\<rparr> \<and> free_pages s' \<subseteq> free_pages s - {root} \<and> table_bytes s' = table_bytes s \<and>
    card (free_pages s) \<le> process_tables (GlobalPagingInfo s) n + 1 + card (free_pages s') \<and>
    (\<forall>q t. path_ok q \<longrightarrow> table_at (mem s') root q = Some t \<longrightarrow> bytes t 4096 \<subseteq> (\<Union>p \<in> free_pages s. bytes p 4096)) \<and>
    (\<forall>x. x \<notin> table_bytes s \<longrightarrow> x \<notin> (\<Union>p \<in> free_pages s. bytes p 4096) \<longrightarrow> mem s' x = mem s x)"
proof -
  define g where "g = GlobalPagingInfo s"
  note lay = lay [folded g_def] and task = task [folded g_def] and room = room [folded g_def]
  have "free_pages s \<noteq> {}" using room by auto
  from pages.alloc_returns [OF ok(1) this] obtain root s0 where ret: "PageAlloc s = Inr (root, s0)" by blast
  note e = empty_root [OF ok ret] and sp = empty_space [OF ok ret] and res = empty_reserved [OF ok ret]
  from pages.alloc_effect [OF ok(1) ret] have s0: "s0 = s\<lparr>mem := mem s0\<rparr>" "root \<in> free_pages s" "free_pages s0 = free_pages s - {root}"
    "table_bytes s0 = table_bytes s" and out: "\<And>x. x \<notin> bytes root 4096 \<Longrightarrow> x \<notin> table_bytes s \<Longrightarrow> mem s0 x = mem s x" by auto
  have "GlobalPagingInfo s0 = GlobalPagingInfo (s\<lparr>mem := mem s0\<rparr>)" by (rule arg_cong [OF s0(1)])
  then have g0: "GlobalPagingInfo s0 = g" by (simp add: g_def)
  let ?rs = "process_requests g start n"
  note run = process_run [OF lay task]
  have "card (needs (large_requests g)) \<le> card (needs ?rs)" unfolding process_requests_def by (intro card_mono) auto
  then have "card (needs ([] @ large_requests g)) \<le> card (needs []) + card (free_pages s0)" using run(3) room e(4) by simp
  moreover have "\<forall>r \<in> set (large_requests g). request_ok r" "no_clash ([] @ large_requests g)"
    using run(1,2) unfolding process_requests_def by (auto simp: no_clash_def)
  ultimately obtain s1 where s1: "map_all root (large_requests g) s0 = Inr ((), s1)" "run_frame root s0 s1"
    using map_all_space [OF sp] by blast
  from s1(2) have "s1 = s0\<lparr>mem := mem s1\<rparr>" by (simp add: run_frame_def)
  then have "GlobalPagingInfo s1 = GlobalPagingInfo (s0\<lparr>mem := mem s1\<rparr>)" by (rule arg_cong)
  then have g1: "GlobalPagingInfo s1 = g" using g0 by simp
  have ends: "ends_ok g" using lay by (simp add: layout_ok_def)
  have "card (needs ([] @ ?rs)) \<le> card (needs []) + card (free_pages s0)" using run(3) room e(4) by simp
  from map_all_space [OF sp run(1) _ this] run(2) obtain s' where s': "map_all root ?rs s0 = Inr ((), s')" "space root s' ?rs"
    "run_frame root s0 s'" "card (needs ?rs) + card (free_pages s') = card (free_pages s0)" by auto
  have "CreateProcessPML4 start endp kern s = Inr (root, s')"
    using CreateProcessPML4_run [OF g_def [symmetric] ends task [unfolded n] ret g0 s1(1) g1] s'(1) n by simp
  moreover have "implements (mem s') root (process_frame g start n)"
    using process_placed(1) [OF lay task] process_complete [OF lay] by (intro space_implements [OF s'(2)]) auto
  moreover have "s' = s\<lparr>mem := mem s'\<rparr>" using s'(3) s0(1) unfolding run_frame_def by (metis mem_mem_update)
  moreover have "mem s' x = mem s x" if "x \<notin> table_bytes s" "x \<notin> (\<Union>p \<in> free_pages s. bytes p 4096)" for x
  proof -
    have "x \<notin> reserved s0 root" using res that by blast
    then have "mem s' x = mem s0 x" using s'(3) by (simp add: run_frame_def)
    moreover have "x \<notin> bytes root 4096" using that(2) s0(2) by blast
    ultimately show ?thesis using out that(1) by simp
  qed
  moreover have "free_pages s' \<subseteq> free_pages s - {root}" "table_bytes s' = table_bytes s"
    using s'(3) s0(3,4) by (simp_all add: run_frame_def)
  moreover have "card (free_pages s) \<le> process_tables g n + 1 + card (free_pages s')" using s'(4) e(4) run(3) by simp
  moreover have "bytes t 4096 \<subseteq> (\<Union>p \<in> free_pages s. bytes p 4096)" if q: "path_ok q" "table_at (mem s') root q = Some t" for q t
  proof -
    have "bytes t 4096 \<subseteq> reserved s' root" using q unfolding reserved_def by blast
    also have "\<dots> \<subseteq> table_bytes s \<union> (\<Union>p \<in> free_pages s. bytes p 4096)" using s'(3) res by (auto simp: run_frame_def)
    finally show ?thesis using tree_okD(1) [OF spaceD(1) [OF s'(2)] q] s'(3) s0(4) unfolding owned_page_def run_frame_def by blast
  qed
  ultimately show ?thesis using s0(2) spaceD(1) [OF s'(2)] unfolding g_def [symmetric] by blast
qed

section \<open>From the memory map to the address space\<close>

lemma init_frames_outside:
  assumes "16 * unat n \<le> 2 ^ 64" and "x \<notin> bytes fl (16 * unat n)"
  shows "init_frames fl n i a m x = m x"
  using assms
proof (induction fl n i a m rule: init_frames.induct)
  case (1 fl n i a m)
  show ?case
  proof (cases "i < n")
    case True
    have eq: "page_at fl i = fl + of_nat (16 * unat i)" by (simp add: page_at_def)
    have "bytes (page_at fl i) 16 \<subseteq> bytes fl (16 * unat n)"
      unfolding eq by (rule subrange) (use True 1(2) in \<open>auto simp: word_less_nat_alt\<close>)
    with 1(3) have x: "x \<notin> bytes (page_at fl i) 16" by blast
    have "x \<notin> bytes (page_at fl i) 8" using x subrange [of 0 8 16 "page_at fl i"] by auto
    moreover have "x \<noteq> page_at fl i + 8" using x offset_in_bytes [of 8 16 "page_at fl i"] by auto
    ultimately have "((store64 m (page_at fl i) a)(page_at fl i + 8 := 1)) x = m x" by (simp add: store_le_outside)
    with 1(1) [OF True 1(2,3)] True show ?thesis by (subst init_frames.simps) (simp only: if_True)
  qed (simp add: init_frames.simps)
qed

lemma InitializeAllocator_boot:
  assumes "region_fits (managed mmap)" and "n = unat (me_length (managed mmap)) div 4096"
  shows "\<exists>s'. InitializeAllocator mmap s = Inr ((), s') \<and> alloc_ok s' \<and> card (free_pages s') = n \<and>
    (\<forall>p \<in> free_pages s'. unat p + 4096 \<le> unat (first_frame (managed mmap)) + 4096 * n \<and> unat (first_frame (managed mmap)) \<le> unat p) \<and>
    table_bytes s' = bytes (me_base (managed mmap)) (16 * n) \<and>
    (\<exists>m. s' = s\<lparr>FrameList := me_base (managed mmap), mem := m, LargestMemSegSize := me_length (managed mmap)\<rparr> \<and>
      (\<forall>x. x \<notin> bytes (me_base (managed mmap)) (16 * n) \<longrightarrow> m x = mem s x))"
proof -
  let ?e = "managed mmap"
  have nz: "me_length ?e \<noteq> 0" using assms(1) by (simp add: region_fits_def)
  from InitializeAllocator_returns [OF nz, of s] obtain s' where s': "InitializeAllocator mmap s = Inr ((), s')"
    "FrameList s' = me_base ?e" "nframes s' = n" "frame_table s' = map (\<lambda>k. (first_frame ?e + of_nat (4096 * k), True)) [0..<n]"
    unfolding assms(2) by blast
  have tok: "table_ok (me_base ?e) (frame_table s')" using frames_table_ok [OF assms(1)] s'(4) assms(2) by simp
  then have ok: "alloc_ok s'" using s'(2) by (simp add: alloc_ok_def)
  have fp: "free_pages s' = (\<lambda>k. first_frame ?e + of_nat (4096 * k)) ` {0..<n}" using s'(4) by (auto simp: free_pages_def)
  have "distinct (map fst (frame_table s'))" using tok by (simp add: table_ok_def)
  then have "inj_on (\<lambda>k. first_frame ?e + of_nat (4096 * k)) {0..<n}" by (simp add: s'(4) distinct_map comp_def)
  then have card: "card (free_pages s') = n" unfolding fp by (simp add: card_image)
  have lim: "unat (first_frame ?e) + 4096 * n < 2 ^ 64 + 1" using unat_first_frame(3) [OF assms(1)] assms(2) by simp
  have pages: "unat p + 4096 \<le> unat (first_frame ?e) + 4096 * n \<and> unat (first_frame ?e) \<le> unat p" if "p \<in> free_pages s'" for p
  proof -
    from that obtain k where k: "k < n" "p = first_frame ?e + of_nat (4096 * k)" by (auto simp: fp)
    have "unat p = unat (first_frame ?e) + 4096 * k" unfolding k(2) using lim k(1) unat_add_pg [of "first_frame ?e" k] by simp
    with k(1) show ?thesis by simp
  qed
  have N: "unat (me_length ?e div 0x1000) = n" by (simp add: unat_div assms(2))
  have "unat (me_length ?e) < 2 ^ 64" using unsigned_less [of "me_length ?e"] by simp
  then have "16 * n \<le> 2 ^ 64" using assms(2) by simp
  then have "\<exists>m. s' = s\<lparr>FrameList := me_base ?e, mem := m, LargestMemSegSize := me_length ?e\<rparr> \<and>
      (\<forall>x. x \<notin> bytes (me_base ?e) (16 * n) \<longrightarrow> m x = mem s x)"
    using s'(1) nz N by (auto simp: InitializeAllocator_def managed_def [symmetric] Let_def intro!: init_frames_outside)
  with s' ok card pages show ?thesis by (intro exI [of _ s']) (simp add: table_bytes_def)
qed

section \<open>Properties\<close>

lemma InitializePaging_builds:
  fixes s :: "'z paging_scheme"
  assumes "alloc_ok s" and "\<forall>p \<in> free_pages s. unat p < 2 ^ 40"
    and "g = \<lparr>gp_mmap = mmap, gp_hhdm_base = hhdm_base, gp_kernelSize = kernelSize, gp_kernelPhysBase = kernelPhysBase,
      gp_kernelVirtBase = kernelVirtBase, gp_fbBase = fbBase, gp_fbSize = fbSize\<rparr>"
    and "layout_ok g" and "default_tables g < card (free_pages s)"
  shows "\<exists>s'. InitializePaging mmap hhdm_base kernelSize kernelPhysBase kernelVirtBase fbBase fbSize s = Inr ((), s') \<and>
    implements (mem s') (pml4 s') (default_frame g) \<and> trace s' = trace s @ [Cr3Load (pml4 s')] \<and> GlobalPagingInfo s' = g \<and>
    alloc_ok s' \<and> tree_ok s' (pml4 s') \<and>
    (\<forall>x. x \<notin> table_bytes s \<longrightarrow> x \<notin> (\<Union>p \<in> free_pages s. bytes p 4096) \<longrightarrow> mem s' x = mem s x) \<and>
    (\<forall>q t. path_ok q \<longrightarrow> table_at (mem s') (pml4 s') q = Some t \<longrightarrow> bytes t 4096 \<subseteq> table_bytes s \<union> (\<Union>p \<in> free_pages s. bytes p 4096)) \<and>
    (\<exists>m. s' = s\<lparr>mem := m, pml4 := pml4 s', GlobalPagingInfo := g, trace := trace s'\<rparr>) \<and>
    free_pages s' \<subseteq> free_pages s \<and> table_bytes s' = table_bytes s \<and> card (free_pages s) \<le> default_tables g + 1 + card (free_pages s')"
proof -
  from assms(5) have "free_pages s \<noteq> {}" by auto
  from pages.alloc_returns [OF assms(1) this] obtain root s1 where ret: "PageAlloc s = Inr (root, s1)" by blast
  note e = empty_root [OF assms(1,2) ret] and sp = empty_space [OF assms(1,2) ret] and res = empty_reserved [OF assms(1,2) ret]
  let ?s = "s1\<lparr>pml4 := root, GlobalPagingInfo := g\<rparr>"
  have "space root ?s []" "GlobalPagingInfo ?s = g" "default_tables g \<le> card (free_pages ?s)" using sp assms(5) e(4) by simp_all
  from CreateDefaultMappings_builds [OF this(1,2) assms(4) this(3)] obtain s2 where
    s2: "CreateDefaultMappings root ?s = Inr ((), s2)" "space root s2 (default_requests g)" "implements (mem s2) root (default_frame g)"
    "run_frame root ?s s2" "card (free_pages ?s) \<le> default_tables g + card (free_pages s2)" by blast
  from s2(4) have fr: "s2 = ?s\<lparr>mem := mem s2\<rparr>" "\<forall>x. x \<notin> reserved ?s root \<longrightarrow> mem s2 x = mem ?s x" by (simp_all add: run_frame_def)
  have f: "pml4 s2 = pml4 (?s\<lparr>mem := mem s2\<rparr>)" "GlobalPagingInfo s2 = GlobalPagingInfo (?s\<lparr>mem := mem s2\<rparr>)" "trace s2 = trace (?s\<lparr>mem := mem s2\<rparr>)"
    by (rule arg_cong [OF fr(1)])+
  from pages.alloc_effect [OF assms(1) ret] have s1: "s1 = s\<lparr>mem := mem s1\<rparr>" "root \<in> free_pages s"
    and out: "\<And>x. x \<notin> bytes root 4096 \<Longrightarrow> x \<notin> table_bytes s \<Longrightarrow> mem s1 x = mem s x" by auto
  have "trace s1 = trace (s\<lparr>mem := mem s1\<rparr>)" by (rule arg_cong [OF s1(1)])
  then have tr: "trace s2 = trace s" "pml4 s2 = root" "GlobalPagingInfo s2 = g" using f by simp_all
  have "InitializePaging mmap hhdm_base kernelSize kernelPhysBase kernelVirtBase fbBase fbSize s = Inr ((), LoadKernelPML4 s2)"
    unfolding InitializePaging_def ret bindR_Inr Let_def using s2(1) assms(3) by simp
  moreover have "mem s2 x = mem s x" if "x \<notin> table_bytes s" "x \<notin> (\<Union>p \<in> free_pages s. bytes p 4096)" for x
  proof -
    have "x \<notin> reserved s1 root" using res that by blast
    then have "x \<notin> reserved ?s root" by (simp add: reserved_def)
    moreover have "x \<notin> bytes root 4096" using that(2) s1(2) by blast
    ultimately show ?thesis using fr(2) out that(1) by simp
  qed
  moreover have "tree_ok s2 root" using s2(2) by (rule spaceD(1))
  moreover have "tree_ok (LoadKernelPML4 s2) root"
    using \<open>tree_ok s2 root\<close> by (simp add: LoadKernelPML4_def cr3load_def emit_def tree_ok_def alloc_ok_def owned_page_def
      free_pages_def frame_table_def nframes_def table_bytes_def)
  moreover from this have "alloc_ok (LoadKernelPML4 s2)" by (simp add: tree_ok_def)
  moreover have "bytes t 4096 \<subseteq> table_bytes s \<union> (\<Union>p \<in> free_pages s. bytes p 4096)" if q: "path_ok q" "table_at (mem s2) root q = Some t" for q t
  proof -
    have "bytes t 4096 \<subseteq> reserved s2 root" using q unfolding reserved_def by blast
    also have "\<dots> \<subseteq> reserved ?s root" using s2(4) by (simp add: run_frame_def)
    also have "reserved ?s root = reserved s1 root" by (simp add: reserved_def)
    finally show ?thesis using res by blast
  qed
  moreover have "\<exists>m. LoadKernelPML4 s2 = s\<lparr>mem := m, pml4 := root, GlobalPagingInfo := g, trace := trace (LoadKernelPML4 s2)\<rparr>"
  proof -
    have "s2 = s\<lparr>mem := mem s2, pml4 := root, GlobalPagingInfo := g\<rparr>" by (subst fr(1), subst s1(1)) simp
    then have "LoadKernelPML4 s2 = LoadKernelPML4 (s\<lparr>mem := mem s2, pml4 := root, GlobalPagingInfo := g\<rparr>)" by (rule arg_cong)
    then show ?thesis by (simp add: LoadKernelPML4_def cr3load_def emit_def) blast
  qed
  moreover have "mem (LoadKernelPML4 s2) = mem s2" "pml4 (LoadKernelPML4 s2) = root" using tr by (simp_all add: LoadKernelPML4_def cr3load_def emit_def)
  moreover have "trace (LoadKernelPML4 s2) = trace s @ [Cr3Load root]" "GlobalPagingInfo (LoadKernelPML4 s2) = g"
    using tr by (simp_all add: LoadKernelPML4_def cr3load_def emit_def)
  moreover have "free_pages (LoadKernelPML4 s2) \<subseteq> free_pages s" "table_bytes (LoadKernelPML4 s2) = table_bytes s"
    "card (free_pages s) \<le> default_tables g + 1 + card (free_pages (LoadKernelPML4 s2))"
  proof -
    have v: "free_pages (LoadKernelPML4 s2) = free_pages s2" "table_bytes (LoadKernelPML4 s2) = table_bytes s2"
      by (simp_all add: LoadKernelPML4_def cr3load_def emit_def alloc_defs)
    have u: "free_pages ?s = free_pages s1" "table_bytes ?s = table_bytes s1" by simp_all
    have "free_pages s1 \<subseteq> free_pages s" "table_bytes s1 = table_bytes s" using pages.alloc_effect [OF assms(1) ret] by auto
    then show "free_pages (LoadKernelPML4 s2) \<subseteq> free_pages s" "table_bytes (LoadKernelPML4 s2) = table_bytes s"
      using s2(4) by (auto simp: v run_frame_def)
    show "card (free_pages s) \<le> default_tables g + 1 + card (free_pages (LoadKernelPML4 s2))" using s2(5) e(4) by (simp add: v)
  qed
  ultimately show ?thesis using s2(3)
    by (intro exI [of _ "LoadKernelPML4 s2"]) simp
qed


text \<open>A machine with 32 MiB of memory at 1 GiB, the direct map and the kernel where Limine puts them.\<close>

definition big_map :: limine_memmap_response where
  "big_map = [\<lparr>me_base = 0x1000, me_length = 0x9E000, me_type = 1\<rparr>, \<lparr>me_base = 0x40000000, me_length = 0x2000000, me_type = 0\<rparr>]"

definition big_info :: paging_info where
  "big_info = \<lparr>gp_mmap = big_map, gp_hhdm_base = 0xFFFF800000000000, gp_kernelSize = 0x1800, gp_kernelPhysBase = 0x7E000000,
     gp_kernelVirtBase = 0xFFFFFFFF80000000, gp_fbBase = 0xFFFF8000FD000000, gp_fbSize = 0x301000\<rparr>"

definition big_boot :: paging where
  "big_boot = \<lparr>mem = (\<lambda>_. 0), trace = [], device = (\<lambda>_ _. 0x20), fbSetup = False, FrameList = 0, LargestMemSegSize = 0,
     head_next = 0, pml4 = 0, GlobalPagingInfo = big_info\<rparr>"

definition big_machine :: paging where
  "big_machine = (case InitializeAllocator big_map big_boot of Inl (_, s) \<Rightarrow> s | Inr (_, s) \<Rightarrow> s)"

lemma managed_big: "managed big_map = \<lparr>me_base = 0x40000000, me_length = 0x2000000, me_type = 0\<rparr>"
  by (simp add: managed_def big_map_def LIMINE_MEMMAP_USABLE_def)

lemma big_machine_ok:
  "alloc_ok big_machine" "\<forall>p \<in> free_pages big_machine. unat p < 2 ^ 40" "card (free_pages big_machine) = 8192" "trace big_machine = []"
  and big_machine_info: "GlobalPagingInfo big_machine = big_info"
proof -
  have f: "region_fits (managed big_map)" by (simp add: managed_big region_fits_def)
  have ff: "first_frame (managed big_map) = 0x40020000" by (simp add: managed_big first_frame_def ALIGN_UP_def)
  from InitializeAllocator_boot [OF f, of 8192 big_boot] obtain s' where s': "InitializeAllocator big_map big_boot = Inr ((), s')"
    "alloc_ok s'" "card (free_pages s') = 8192" "\<forall>p \<in> free_pages s'. unat p + 4096 \<le> unat (first_frame (managed big_map)) + 4096 * 8192"
    "trace s' = []" "GlobalPagingInfo s' = big_info"
    by (auto simp: managed_big big_boot_def)
  have "s' = big_machine" using s'(1) by (simp add: big_machine_def)
  with s' show "alloc_ok big_machine" "\<forall>p \<in> free_pages big_machine. unat p < 2 ^ 40" "card (free_pages big_machine) = 8192" "trace big_machine = []"
    "GlobalPagingInfo big_machine = big_info" by (fastforce simp: ff)+
qed

lemma big_pages:
  "kernel_pages big_info = 2" "fb_pages big_info = 769" "vp 0xFFFFFFFF80000000 = 0xFFFF80000" "vp 0xFFFF800000000000 = 0x800000000"
  "vp 0xFFFF8000FD000000 = 0x8000FD000" "vp 0x40000000 = 0x40000" "vp 0x1000 = 1"
  "entry_pages \<lparr>me_base = 0x1000, me_length = 0x9E000, me_type = 1\<rparr> = 0x9E" "entry_pages \<lparr>me_base = 0x40000000, me_length = 0x2000000, me_type = 0\<rparr> = 0x2000"
  by (simp_all add: kernel_pages_def fb_pages_def entry_pages_def count_def big_info_def vp_eq)

lemma big_fields:
  "gp_mmap big_info = big_map" "gp_hhdm_base big_info = 0xFFFF800000000000" "gp_kernelSize big_info = 0x1800" "gp_kernelPhysBase big_info = 0x7E000000"
  "gp_kernelVirtBase big_info = 0xFFFFFFFF80000000" "gp_fbBase big_info = 0xFFFF8000FD000000" "gp_fbSize big_info = 0x301000"
  by (simp_all add: big_info_def)

lemma big_layout: "layout_ok big_info" "default_tables big_info = 4157"
  by (simp_all add: layout_ok_def ends_ok_def default_tables_def default_ranges_def tables_for_def big_fields big_pages big_map_def)




end
