(* ===== verification/Spawn.thy ===== *)
theory Spawn
  imports Ramdisk KernelSpace
begin

text \<open>
  Adding a task as a whole, \<open>IntAddTask\<close> of \<open>multitasking/scheduler.c\<close>: the frame comes from the heap, the
  address space and the stack from the page allocator, and the list of tasks, the heap and the tables
  stay apart.
\<close>

section \<open>A block for the frame\<close>

text \<open>When \<open>malloc\<close> serves a request: from a fresh page, or from the first block that fits.\<close>

definition grants :: "'z heap_scheme \<Rightarrow> block list \<Rightarrow> nat \<Rightarrow> bool" where
  "grants s fr n \<longleftrightarrow> fr = [] \<and> free_pages s \<noteq> {} \<and> n \<le> 4064 \<or>
     (\<exists>b fr'. first_fit (16 + n) fr = Some (b, fr') \<and> (snd b = 16 + n \<or> 32 + n \<le> snd b))"

lemma malloc_grants:
  assumes ok: "heap_ok s fr lv" and gr: "grants s fr (unat sz)"
  shows "\<exists>b fr2 s'. malloc sz s = Inr (b + 16, s') \<and> heap_ok s' fr2 ((b, 16 + unat sz) # lv) \<and>
    bytes b (16 + unat sz) \<subseteq> heap_own s fr \<and> (\<forall>x. x \<notin> heap_own s fr \<longrightarrow> mem s' x = mem s x) \<and>
    free_pages s' \<subseteq> free_pages s \<and> card (free_pages s) \<le> 1 + card (free_pages s') \<and> table_bytes s' = table_bytes s \<and>
    (\<exists>m h. s' = s\<lparr>mem := m, head_next := h\<rparr>)"
proof -
  from gr consider (page) "fr = []" "free_pages s \<noteq> {}" "unat sz \<le> 4064"
    | (fit) b fr' where "first_fit (16 + unat sz) fr = Some (b, fr')" "snd b = 16 + unat sz \<or> 32 + unat sz \<le> snd b"
    unfolding grants_def by blast
  then show ?thesis
  proof cases
    case page
    note fr = page(1) and p = page(2,3)
    from malloc_page [OF ok [unfolded fr] p] obtain p s' where s': "p \<in> free_pages s" "malloc sz s = Inr (p + 16, s')"
      "heap_ok s' [(p + of_nat (16 + unat sz), 4096 - (16 + unat sz))] ((p, 16 + unat sz) # lv)" "free_pages s' = free_pages s - {p}"
      "\<forall>x. x \<notin> bytes p 4096 \<longrightarrow> x \<notin> table_bytes s \<longrightarrow> mem s' x = mem s x" by blast
    from malloc_frame [OF s'(2)] have f: "\<exists>m h. s' = s\<lparr>mem := m, head_next := h\<rparr>" .
    then have tab: "table_bytes s' = table_bytes s" by (auto simp: table_bytes_def nframes_def)
    have "bytes p (16 + unat sz) \<subseteq> bytes p 4096" using p(2) by (intro bytes_mono) simp
    then have own: "bytes p (16 + unat sz) \<subseteq> heap_own s fr" using s'(1) by (auto simp: heap_own_def)
    have "finite (free_pages s)" using ok by (intro pages.avail_finite) (simp add: heap_ok_def)
    then have "card (free_pages s) \<le> 1 + card (free_pages s')" using s'(1,4) by (simp add: card_Diff_singleton)
    moreover have "\<forall>x. x \<notin> heap_own s fr \<longrightarrow> mem s' x = mem s x" using s'(1,5) by (auto simp: heap_own_def)
    moreover have "free_pages s' \<subseteq> free_pages s" using s'(4) by blast
    ultimately show ?thesis using s'(2,3) own tab f by blast
  next
    case (fit b fr')
    from malloc_fit [OF ok fit] obtain s' where s': "malloc sz s = Inr (fst b + 16, s')"
      "heap_ok s' (leftover (16 + unat sz) b @ fr') ((fst b, 16 + unat sz) # lv)" "\<forall>x. x \<notin> \<Union> (blk ` set fr) \<longrightarrow> mem s' x = mem s x" by blast
    from malloc_frame [OF s'(1)] obtain m h where f: "s' = s\<lparr>mem := m, head_next := h\<rparr>" by blast
    have b: "b \<in> set fr" by (rule first_fit_Some [OF fit(1)]) simp
    have tab: "m x = mem s x" if "x \<in> table_bytes s" for x
    proof -
      have "x \<notin> blk c" if "c \<in> set fr" for c
        using heap_blockD [OF ok, of c] that \<open>x \<in> table_bytes s\<close> by (auto simp: block_ok_def)
      then show ?thesis using s'(3) f by auto
    qed
    have "alloc_ok s" using ok by (simp add: heap_ok_def)
    from pages.client_write [OF this tab] have cw: "free_pages s' = free_pages s" "table_bytes s' = table_bytes s"
      by (simp_all add: f free_pages_def frame_table_def nframes_def table_bytes_def)
    have "bytes (fst b) (16 + unat sz) \<subseteq> blk b" using fit(2) by (intro bytes_mono) auto
    then have own: "bytes (fst b) (16 + unat sz) \<subseteq> heap_own s fr" using b by (auto simp: heap_own_def)
    have "\<forall>x. x \<notin> heap_own s fr \<longrightarrow> mem s' x = mem s x" using s'(3) by (auto simp: heap_own_def)
    with s'(1,2) own cw f show ?thesis by (intro exI [of _ "fst b"] exI [of _ "leftover (16 + unat sz) b @ fr'"] exI [of _ s']) auto
  qed
qed

section \<open>The frame\<close>

lemma set_name_effect:
  assumes "cstr_at m taskName name" and "length name \<le> 32" and "bytes (pf_name f) 33 \<inter> bytes taskName 33 = {}"
  shows "\<exists>m'. set_name f taskName m = Some m' \<and> cstr_at m' (pf_name f) name \<and> (\<forall>x. x \<notin> bytes (pf_name f) 33 \<longrightarrow> m' x = m x)"
proof -
  let ?n = "Suc (length name)"
  have sub: "bytes a ?n \<subseteq> bytes a 33" for a using assms(2) by (intro bytes_mono) simp
  have "bytes (pf_name f) ?n \<inter> bytes taskName ?n = {}" by (rule disjoint_mono [OF assms(3) sub sub])
  with strcpy_cstr [OF assms(1), of "pf_name f"] assms(2)
  have "set_name f taskName m = Some (\<lambda>x. if x \<in> bytes (pf_name f) ?n then (name @ [0]) ! unat (x - pf_name f) else m x)"
    using strlen_cstr [OF assms(1)] by (simp add: set_name_def)
  moreover have "cstr_at (\<lambda>x. if x \<in> bytes (pf_name f) ?n then (name @ [0]) ! unat (x - pf_name f) else m x) (pf_name f) name"
  proof -
    have "pf_name f + of_nat i \<in> bytes (pf_name f) ?n" "unat (pf_name f + of_nat i - pf_name f) = i" if "i \<le> length name" for i
      using that assms(2) offset_in_bytes [of i ?n "pf_name f"] unat_of_nat64 [of i] by simp_all
    with assms(1) show ?thesis by (auto simp: cstr_at_def nth_append)
  qed
  ultimately show ?thesis using sub by auto
qed

text \<open>What \<open>IntAddTask\<close> writes into a frame before it has an address space, and after.\<close>

definition frame_start :: "addr \<Rightarrow> addr \<Rightarrow> memory \<Rightarrow> memory" where
  "frame_start f start m = store64 (store64 (store64 (set_quanta f 10 m) (reg_cs (pf_regs f)) 0x08)
     (reg_rip (pf_regs f)) start) (reg_ss (pf_regs f)) 0x10"

definition frame_rest :: "addr \<Rightarrow> addr \<Rightarrow> addr \<Rightarrow> memory \<Rightarrow> memory" where
  "frame_rest f st nx m = set_pf_next f nx (store64 (store64 m (reg_rsp (pf_regs f)) st) (reg_flags (pf_regs f)) 0x202)"

lemma frame_fields_in:
  "bytes (reg_cs (pf_regs f)) 8 \<subseteq> bytes f 224" "bytes (reg_rip (pf_regs f)) 8 \<subseteq> bytes f 224" "bytes (reg_ss (pf_regs f)) 8 \<subseteq> bytes f 224"
  "bytes (reg_rsp (pf_regs f)) 8 \<subseteq> bytes f 224" "bytes (reg_flags (pf_regs f)) 8 \<subseteq> bytes f 224" "bytes (f + 200) 8 \<subseteq> bytes f 224"
  "bytes (f + 216) 8 \<subseteq> bytes f 224" "f + 193 \<in> bytes f 224" "bytes (pf_name f) 33 \<subseteq> bytes f 224"
  using field_in_frame [of 161 8 f] field_in_frame [of 153 8 f] field_in_frame [of 185 8 f] field_in_frame [of 177 8 f]
    field_in_frame [of 169 8 f] field_in_frame [of 200 8 f] field_in_frame [of 216 8 f] offset_in_bytes [of 193 224 f] field_in_frame [of 1 33 f]
  by (simp_all add: reg_cs_def reg_rip_def reg_ss_def reg_rsp_def reg_flags_def pf_regs_def pf_name_def add.assoc)

lemma frame_start_outside:
  assumes "x \<notin> bytes f 224"
  shows "frame_start f start m x = m x"
proof -
  have "x \<notin> bytes (reg_cs (pf_regs f)) 8" "x \<notin> bytes (reg_rip (pf_regs f)) 8" "x \<notin> bytes (reg_ss (pf_regs f)) 8" "x \<noteq> f + 193"
    using assms frame_fields_in(1-3,8) [of f] by blast+
  then show ?thesis by (simp add: frame_start_def set_quanta_def store_le_outside)
qed

lemma frame_rest_outside:
  assumes "x \<notin> bytes f 224"
  shows "frame_rest f st nx m x = m x"
proof -
  have "x \<notin> bytes (reg_rsp (pf_regs f)) 8" "x \<notin> bytes (reg_flags (pf_regs f)) 8" "x \<notin> bytes (f + 216) 8"
    using assms frame_fields_in(4,5,7) [of f] by blast+
  then show ?thesis by (simp add: frame_rest_def set_pf_next_def store_le_outside)
qed

lemma store_same: "m x = m' x \<Longrightarrow> store_le n m a v x = store_le n m' a v x"
  by (simp add: store_le_def)

lemma frame_rest_same: "m x = m' x \<Longrightarrow> frame_rest f st nx m x = frame_rest f st nx m' x"
  unfolding frame_rest_def set_pf_next_def by (intro store_same)

lemma IntAddTask_steps:
  assumes "malloc 224 (emit Cli s) = Inr (f, s1)" and "f \<noteq> 0"
    and "set_name f taskName ((mem s1)(f := highest_pid s1)) = Some mN"
    and "CreateProcessPML4 start endp kern (s1\<lparr>highest_pid := highest_pid s1 + 1, mem := frame_start f start mN\<rparr>) = Inr (root, s3)"
    and "PageAlloc (s3\<lparr>mem := store64 (mem s3) (f + 200) root\<rparr>) = Inr (st, s5)"
  shows "IntAddTask taskName start endp kern s = Inr ((), emit Sti (s5\<lparr>mem := set_pf_next (prochead s5) f
    (frame_rest f st (pf_next (store64 (store64 (mem s5) (reg_rsp (pf_regs f)) st) (reg_flags (pf_regs f)) 0x202) (prochead s5)) (mem s5))\<rparr>))"
  using assms(2-5)
  by (simp add: IntAddTask_def Let_def assms(1) frame_start_def [symmetric] frame_rest_def)

text \<open>The allocator sees neither the trace nor the fields of the scheduler.\<close>

lemma alloc_views [simp]:
  "alloc_ok (emit e s) = alloc_ok s" "free_pages (emit e s) = free_pages s" "table_bytes (emit e s) = table_bytes s"
  by (simp_all add: emit_def alloc_defs)

lemma heap_views [simp]:
  "heap_ok (emit e s) fr lv = heap_ok s fr lv" "grants (emit e s) fr n = grants s fr n" "heap_own (emit e s) fr = heap_own s fr"
  by (simp_all add: emit_def heap_ok_def block_ok_def grants_def heap_own_def alloc_defs)

lemma pid_views [simp]:
  "alloc_ok (s\<lparr>highest_pid := h, mem := m\<rparr>) = alloc_ok (s\<lparr>mem := m\<rparr>)"
  "free_pages (s\<lparr>highest_pid := h, mem := m\<rparr>) = free_pages (s\<lparr>mem := m\<rparr>)"
  "table_bytes (s\<lparr>highest_pid := h, mem := m\<rparr>) = table_bytes (s\<lparr>mem := m\<rparr>)"
  by (simp_all add: alloc_defs)

text \<open>The state in which a task can be added.\<close>

definition spawn_ok :: "'z sched_scheme \<Rightarrow> block list \<Rightarrow> block list \<Rightarrow> addr list \<Rightarrow> addr \<Rightarrow> u8 list \<Rightarrow> bool" where
  "spawn_ok s fr lv fs taskName name \<longleftrightarrow> heap_ok s fr lv \<and> grants s fr 224 \<and> tasks s fs \<and>
     (\<forall>f \<in> set (prochead s # fs). bytes f 224 \<inter> heap_own s fr = {}) \<and>
     cstr_at (mem s) taskName name \<and> length name \<le> 32 \<and> bytes taskName 33 \<inter> heap_own s fr = {} \<and>
     (\<forall>p \<in> free_pages s. unat p < 2 ^ 40) \<and> layout_ok (GlobalPagingInfo s)"

text \<open>The frame: a block of the heap with the process number and the name in it.\<close>

lemma spawn_named:
  fixes s :: "'z sched_scheme"
  assumes ok: "spawn_ok s fr lv fs taskName name"
  shows "\<exists>f s1 mN. malloc 224 (emit Cli s) = Inr (f, s1) \<and> f \<noteq> 0 \<and> bytes f 224 \<subseteq> heap_own s fr \<and> alloc_ok s1 \<and>
    set_name f taskName ((mem s1)(f := highest_pid s)) = Some mN \<and> cstr_at mN (pf_name f) name \<and>
    (\<forall>x. x \<notin> bytes (pf_name f) 33 \<longrightarrow> mN x = ((mem s1)(f := highest_pid s)) x) \<and>
    (\<forall>x. x \<notin> heap_own s fr \<longrightarrow> mem s1 x = mem s x) \<and>
    (\<forall>x \<in> bytes f 224. x \<notin> table_bytes s \<and> x \<notin> (\<Union>p \<in> free_pages s1. bytes p 4096)) \<and>
    free_pages s1 \<subseteq> free_pages s \<and> card (free_pages s) \<le> 1 + card (free_pages s1) \<and> table_bytes s1 = table_bytes s \<and>
    (\<exists>m h. s1 = s\<lparr>trace := trace s @ [Cli], mem := m, head_next := h\<rparr>)"
proof -
  from ok have hp: "heap_ok s fr lv" "grants s fr 224"
    and nm: "cstr_at (mem s) taskName name" "length name \<le> 32" "bytes taskName 33 \<inter> heap_own s fr = {}" by (auto simp: spawn_ok_def)
  have u: "unat (224 :: u64) = 224" by simp
  have "heap_ok (emit Cli s) fr lv" "grants (emit Cli s) fr (unat (224 :: u64))" using hp by (simp_all only: heap_views u)
  from malloc_grants [OF this] obtain b fr2 s1 where ma: "malloc 224 (emit Cli s) = Inr (b + 16, s1)"
    "heap_ok s1 fr2 ((b, 16 + 224) # lv)" "bytes b (16 + 224) \<subseteq> heap_own s fr" "\<forall>x. x \<notin> heap_own s fr \<longrightarrow> mem s1 x = mem (emit Cli s) x"
    "free_pages s1 \<subseteq> free_pages s" "card (free_pages s) \<le> 1 + card (free_pages s1)" "table_bytes s1 = table_bytes s"
    "\<exists>m h. s1 = (emit Cli s)\<lparr>mem := m, head_next := h\<rparr>" unfolding u heap_views alloc_views by blast
  define f where "f = b + 16"
  have blk: "block_ok s1 (b, 240)" using heap_blockD [OF ma(2), of "(b, 240)"] by simp
  have ma4: "mem s1 x = mem s x" if "x \<notin> heap_own s fr" for x using ma(4) that by (simp add: emit_def)
  have fb: "bytes f 224 \<subseteq> bytes b 240" using subrange [of 16 224 240 b] by (simp add: f_def)
  have f0: "f \<noteq> 0"
  proof -
    have "unat b + 240 \<le> 2 ^ 64" using blk by (simp add: block_ok_def)
    then have "unat f = unat b + 16" by (simp add: f_def unat_word_ariths)
    then show ?thesis by auto
  qed
  have fo: "bytes f 224 \<subseteq> heap_own s fr" using fb ma(3) by simp
  from ma(8) obtain m h where s1: "s1 = s\<lparr>trace := trace s @ [Cli], mem := m, head_next := h\<rparr>" by (auto simp: emit_def)
  let ?m0 = "(mem s1)(f := highest_pid s)"
  have ff: "f \<in> bytes f 224" by simp
  have tn: "mem s1 x = mem s x \<and> x \<noteq> f" if "x \<in> bytes taskName 33" for x
    using that nm(3) ma4 [of x] fo ff by blast
  have "?m0 (taskName + of_nat i) = mem s (taskName + of_nat i)" if "i \<le> length name" for i
    using tn [of "taskName + of_nat i"] offset_in_bytes [of i 33 taskName] that nm(2) by simp
  with nm(1) have "cstr_at ?m0 taskName name" by (simp add: cstr_at_def)
  moreover have "bytes (pf_name f) 33 \<inter> bytes taskName 33 = {}" using frame_fields_in(9) [of f] fo nm(3) by blast
  ultimately obtain mN where mN: "set_name f taskName ?m0 = Some mN" "cstr_at mN (pf_name f) name" "\<forall>x. x \<notin> bytes (pf_name f) 33 \<longrightarrow> mN x = ?m0 x"
    using set_name_effect [OF _ nm(2)] by blast
  have "bytes b 240 \<inter> table_bytes s = {}" "\<forall>p \<in> free_pages s1. bytes b 240 \<inter> bytes p 4096 = {}" using blk ma(7) by (simp_all add: block_ok_def)
  then have fx: "\<forall>x \<in> bytes f 224. x \<notin> table_bytes s \<and> x \<notin> (\<Union>p \<in> free_pages s1. bytes p 4096)" using fb by blast
  have al: "alloc_ok s1" using ma(2) by (simp add: heap_ok_def)
  have ex: "\<exists>m h. s1 = s\<lparr>trace := trace s @ [Cli], mem := m, head_next := h\<rparr>" using s1 by blast
  show ?thesis
    by (rule exI [of _ f], rule exI [of _ s1], rule exI [of _ mN], intro conjI allI impI)
      (use ma(1,5,6,7) ma4 f0 fo al mN fx ex in \<open>simp_all only: f_def [symmetric] simp_thms\<close>)
qed

text \<open>The first half: the frame is there, the address space is built, and they lie apart.\<close>

lemma spawn_front:
  fixes s :: "'z sched_scheme"
  assumes ok: "spawn_ok s fr lv fs taskName name"
    and task: "task_ok (GlobalPagingInfo s) start endp n" and n: "n = task_pages start endp kern"
    and room: "process_tables (GlobalPagingInfo s) n + 2 < card (free_pages s)"
  shows "\<exists>f s1 mN root s3. malloc 224 (emit Cli s) = Inr (f, s1) \<and> f \<noteq> 0 \<and> bytes f 224 \<subseteq> heap_own s fr \<and> highest_pid s1 = highest_pid s \<and>
    set_name f taskName ((mem s1)(f := highest_pid s)) = Some mN \<and> cstr_at mN (pf_name f) name \<and>
    (\<forall>x. x \<notin> bytes (pf_name f) 33 \<longrightarrow> mN x = ((mem s1)(f := highest_pid s)) x) \<and>
    CreateProcessPML4 start endp kern (s1\<lparr>highest_pid := highest_pid s1 + 1, mem := frame_start f start mN\<rparr>) = Inr (root, s3) \<and>
    implements (mem s3) root (process_frame (GlobalPagingInfo s) start n) \<and> tree_ok s3 root \<and> root \<in> free_pages s \<and>
    free_pages s3 \<subseteq> free_pages s - {root} \<and> free_pages s3 \<noteq> {} \<and> table_bytes s3 = table_bytes s \<and>
    (\<forall>x \<in> bytes f 224. mem s3 x = frame_start f start mN x \<and> x \<notin> table_bytes s \<and> x \<notin> (\<Union>p \<in> free_pages s3. bytes p 4096)) \<and>
    (\<forall>q t. path_ok q \<longrightarrow> table_at (mem s3) root q = Some t \<longrightarrow> bytes t 4096 \<inter> bytes f 224 = {} \<and> bytes t 4096 \<subseteq> heap_own s fr) \<and>
    (\<forall>x. x \<notin> heap_own s fr \<longrightarrow> mem s3 x = mem s x) \<and>
    (\<exists>m h. s3 = s\<lparr>trace := trace s @ [Cli], head_next := h, highest_pid := highest_pid s + 1, mem := m\<rparr>)"
proof -
  from spawn_named [OF ok] obtain f s1 mN m h where ma: "malloc 224 (emit Cli s) = Inr (f, s1)" and f0: "f \<noteq> 0"
    and fo: "bytes f 224 \<subseteq> heap_own s fr" and a1: "alloc_ok s1" and mN: "set_name f taskName ((mem s1)(f := highest_pid s)) = Some mN" "cstr_at mN (pf_name f) name"
      "\<forall>x. x \<notin> bytes (pf_name f) 33 \<longrightarrow> mN x = ((mem s1)(f := highest_pid s)) x"
    and ma4: "\<forall>x. x \<notin> heap_own s fr \<longrightarrow> mem s1 x = mem s x"
    and fx: "\<forall>x \<in> bytes f 224. x \<notin> table_bytes s \<and> x \<notin> (\<Union>p \<in> free_pages s1. bytes p 4096)"
    and pg: "free_pages s1 \<subseteq> free_pages s" "card (free_pages s) \<le> 1 + card (free_pages s1)" "table_bytes s1 = table_bytes s"
    and s1: "s1 = s\<lparr>trace := trace s @ [Cli], mem := m, head_next := h\<rparr>" by (elim exE conjE) (rule that; assumption)
  have own: "table_bytes s \<subseteq> heap_own s fr" "(\<Union>p \<in> free_pages s. bytes p 4096) \<subseteq> heap_own s fr" by (auto simp: heap_own_def)
  have low: "\<forall>p \<in> free_pages s. unat p < 2 ^ 40" and lay: "layout_ok (GlobalPagingInfo s)" using ok by (auto simp: spawn_ok_def)
  have v1: "highest_pid s1 = highest_pid s" "GlobalPagingInfo s1 = GlobalPagingInfo s" by (simp_all add: s1)
  let ?m1 = "frame_start f start mN"
  have m1: "?m1 x = mem s1 x" if "x \<notin> bytes f 224" for x
  proof -
    have "x \<noteq> f" "x \<notin> bytes (pf_name f) 33" using that frame_fields_in(9) [of f] by auto
    then show ?thesis using frame_start_outside [OF that] mN(3) by simp
  qed
  let ?s2 = "s1\<lparr>highest_pid := highest_pid s1 + 1, mem := ?m1\<rparr>"
  have "?m1 x = mem s1 x" if "x \<in> table_bytes s1" for x using that fx pg(3) by (intro m1) blast
  from pages.client_write [OF a1 this] have a2: "alloc_ok ?s2" "free_pages ?s2 = free_pages s1" "table_bytes ?s2 = table_bytes s" using pg(3) by simp_all
  have g2: "GlobalPagingInfo ?s2 = GlobalPagingInfo s" by (simp add: v1)
  have low2: "\<forall>p \<in> free_pages ?s2. unat p < 2 ^ 40" using low pg(1) a2(2) by auto
  have room2: "process_tables (GlobalPagingInfo s) n < card (free_pages ?s2)" using room pg(2) a2(2) by simp
  from CreateProcessPML4_builds [OF a2(1) low2, unfolded g2, OF lay task n room2] obtain root s3 where
    s3: "CreateProcessPML4 start endp kern ?s2 = Inr (root, s3)"
    "implements (mem s3) root (process_frame (GlobalPagingInfo s) start n)" "tree_ok s3 root" "root \<in> free_pages s1" "s3 = ?s2\<lparr>mem := mem s3\<rparr>"
    "free_pages s3 \<subseteq> free_pages s1 - {root}" "table_bytes s3 = table_bytes s"
    "card (free_pages s1) \<le> process_tables (GlobalPagingInfo s) n + 1 + card (free_pages s3)"
    "\<forall>q t. path_ok q \<longrightarrow> table_at (mem s3) root q = Some t \<longrightarrow> bytes t 4096 \<subseteq> (\<Union>p \<in> free_pages s1. bytes p 4096)"
    "\<forall>x. x \<notin> table_bytes s \<longrightarrow> x \<notin> (\<Union>p \<in> free_pages s1. bytes p 4096) \<longrightarrow> mem s3 x = mem ?s2 x"
    unfolding a2(2,3) by blast
  have sub: "(\<Union>p \<in> free_pages s1. bytes p 4096) \<subseteq> heap_own s fr" using pg(1) own(2) by blast
  have out: "mem s3 x = mem s x" if "x \<notin> heap_own s fr" for x
  proof -
    have "x \<notin> table_bytes s" "x \<notin> (\<Union>p \<in> free_pages s1. bytes p 4096)" "x \<notin> bytes f 224" using that own(1) sub fo by blast+
    then show ?thesis using s3(10) m1 ma4 that by simp
  qed
  have fr: "mem s3 x = ?m1 x \<and> x \<notin> table_bytes s \<and> x \<notin> (\<Union>p \<in> free_pages s3. bytes p 4096)" if "x \<in> bytes f 224" for x
    using s3(6,10) bspec [OF fx that] by auto
  have tb: "bytes t 4096 \<inter> bytes f 224 = {} \<and> bytes t 4096 \<subseteq> heap_own s fr" if "path_ok q" "table_at (mem s3) root q = Some t" for q t
    using s3(9) that fx sub by blast
  have ne: "free_pages s3 \<noteq> {}" using s3(8) pg(2) room by auto
  have ex: "\<exists>m h. s3 = s\<lparr>trace := trace s @ [Cli], head_next := h, highest_pid := highest_pid s + 1, mem := m\<rparr>"
    by (rule exI [of _ "mem s3"], rule exI [of _ h], rule trans [OF s3(5)]) (simp add: s1)
  have rt: "root \<in> free_pages s" "free_pages s3 \<subseteq> free_pages s - {root}" using s3(4,6) pg(1) by blast+
  show ?thesis
    by (rule exI [of _ f], rule exI [of _ s1], rule exI [of _ mN], rule exI [of _ root], rule exI [of _ s3], intro conjI ballI allI impI)
      (use ma f0 fo v1(1) mN s3(1,2,3,7) out fr tb ne ex rt in \<open>simp_all only: simp_thms\<close>)
qed

text \<open>The whole: the stack is another page, and the frame is linked behind \<open>prochead\<close>.\<close>

lemma IntAddTask_effect:
  fixes s :: "'z sched_scheme"
  assumes ok: "spawn_ok s fr lv fs taskName name"
    and task: "task_ok (GlobalPagingInfo s) start endp n" and n: "n = task_pages start endp kern"
    and room: "process_tables (GlobalPagingInfo s) n + 2 < card (free_pages s)"
  shows "\<exists>f mN root st s'. f \<noteq> 0 \<and> bytes f 224 \<subseteq> heap_own s fr \<and> cstr_at mN (pf_name f) name \<and> mN f = highest_pid s \<and>
    IntAddTask taskName start endp kern s = Inr ((), s') \<and> root \<in> free_pages s \<and> st \<in> free_pages s \<and> root \<noteq> st \<and>
    implements (mem s') root (process_frame (GlobalPagingInfo s) start n) \<and> pf_next (mem s') (prochead s) = f \<and>
    (\<forall>x \<in> bytes f 224. mem s' x = frame_rest f st (pf_next (mem s) (prochead s)) (store64 (frame_start f start mN) (f + 200) root) x) \<and>
    (\<forall>x. x \<notin> heap_own s fr \<longrightarrow> x \<notin> bytes (prochead s + 216) 8 \<longrightarrow> mem s' x = mem s x) \<and>
    (\<exists>m h. s' = s\<lparr>trace := trace s @ [Cli, Sti], head_next := h, highest_pid := highest_pid s + 1, mem := m\<rparr>)"
proof -
  from spawn_front [OF assms] obtain f s1 mN root s3 m h where
    call: "malloc 224 (emit Cli s) = Inr (f, s1)" "f \<noteq> 0" "highest_pid s1 = highest_pid s" "set_name f taskName ((mem s1)(f := highest_pid s)) = Some mN"
      "CreateProcessPML4 start endp kern (s1\<lparr>highest_pid := highest_pid s1 + 1, mem := frame_start f start mN\<rparr>) = Inr (root, s3)"
    and fo: "bytes f 224 \<subseteq> heap_own s fr" and mN: "cstr_at mN (pf_name f) name" "\<forall>x. x \<notin> bytes (pf_name f) 33 \<longrightarrow> mN x = ((mem s1)(f := highest_pid s)) x"
    and tree: "implements (mem s3) root (process_frame (GlobalPagingInfo s) start n)" "tree_ok s3 root" "root \<in> free_pages s"
    and pg: "free_pages s3 \<subseteq> free_pages s - {root}" "free_pages s3 \<noteq> {}" "table_bytes s3 = table_bytes s"
    and fm: "\<forall>x \<in> bytes f 224. mem s3 x = frame_start f start mN x \<and> x \<notin> table_bytes s \<and> x \<notin> (\<Union>p \<in> free_pages s3. bytes p 4096)"
    and tb: "\<forall>q t. path_ok q \<longrightarrow> table_at (mem s3) root q = Some t \<longrightarrow> bytes t 4096 \<inter> bytes f 224 = {} \<and> bytes t 4096 \<subseteq> heap_own s fr"
    and out: "\<forall>x. x \<notin> heap_own s fr \<longrightarrow> mem s3 x = mem s x"
    and s3: "s3 = s\<lparr>trace := trace s @ [Cli], head_next := h, highest_pid := highest_pid s + 1, mem := m\<rparr>"
    by (elim exE conjE) (rule that; assumption)
  from ok have hd: "bytes (prochead s) 224 \<inter> heap_own s fr = {}" by (simp add: spawn_ok_def)
  have "bytes (prochead s + 216) 8 \<subseteq> bytes (prochead s) 224" by (rule frame_fields_in(7))
  with hd have hl: "bytes (prochead s + 216) 8 \<inter> heap_own s fr = {}" by blast
  let ?m4 = "store64 (mem s3) (f + 200) root"
  have m4: "?m4 x = mem s3 x" if "x \<notin> bytes f 224" for x
    using that frame_fields_in(6) [of f] by (intro store_le_outside) blast
  have a3: "alloc_ok s3" using tree(2) by (simp add: tree_ok_def)
  have "?m4 x = mem s3 x" if "x \<in> table_bytes s3" for x using that fm pg(3) by (intro m4) blast
  from pages.client_write [OF a3 this] have a4: "alloc_ok (s3\<lparr>mem := ?m4\<rparr>)" "free_pages (s3\<lparr>mem := ?m4\<rparr>) = free_pages s3"
    "table_bytes (s3\<lparr>mem := ?m4\<rparr>) = table_bytes s" using pg(3) by simp_all
  from pages.alloc_returns [OF a4(1)] pg(2) obtain st s5 where al: "PageAlloc (s3\<lparr>mem := ?m4\<rparr>) = Inr (st, s5)" unfolding a4(2) by blast
  from pages.alloc_effect [OF a4(1) al] have st: "st \<in> free_pages s3" "s5 = s3\<lparr>mem := mem s5\<rparr>"
    and m5: "\<And>x. x \<notin> bytes st 4096 \<Longrightarrow> x \<notin> table_bytes s \<Longrightarrow> mem s5 x = ?m4 x" unfolding a4(2,3) by auto
  have ph: "prochead s5 = prochead s" using arg_cong [OF st(2), of prochead] by (simp add: s3)
  let ?nx = "pf_next (store64 (store64 (mem s5) (reg_rsp (pf_regs f)) st) (reg_flags (pf_regs f)) 0x202) (prochead s5)"
  let ?m6 = "set_pf_next (prochead s) f (frame_rest f st ?nx (mem s5))"
  have own: "table_bytes s \<subseteq> heap_own s fr" "bytes st 4096 \<subseteq> heap_own s fr" using st(1) pg(1) by (auto simp: heap_own_def)
  have far: "mem s5 x = mem s x" if "x \<notin> heap_own s fr" for x
  proof -
    have "x \<notin> bytes st 4096" "x \<notin> table_bytes s" "x \<notin> bytes f 224" using that own fo by blast+
    then show ?thesis using m5 m4 out that by simp
  qed
  have nx: "?nx = pf_next (mem s) (prochead s)"
    unfolding pf_next_def ph
  proof (rule load_le_cong)
    fix x assume "x \<in> bytes (prochead s + 216) 8"
    then have x: "x \<notin> heap_own s fr" using hl by blast
    then have "x \<notin> bytes (reg_rsp (pf_regs f)) 8" "x \<notin> bytes (reg_flags (pf_regs f)) 8" using fo frame_fields_in(4,5) [of f] by blast+
    then show "store64 (store64 (mem s5) (reg_rsp (pf_regs f)) st) (reg_flags (pf_regs f)) 0x202 x = mem s x"
      using far [OF x] by (simp add: store_le_outside)
  qed simp
  have m6: "?m6 x = frame_rest f st ?nx (mem s5) x" if "x \<notin> bytes (prochead s + 216) 8" for x
    using that by (simp add: set_pf_next_def store_le_outside)
  have imp: "implements ?m6 root (process_frame (GlobalPagingInfo s) start n)"
  proof (rule implements_cong [OF tree(1)])
    fix q t x assume q: "path_ok q" "table_at (mem s3) root q = Some t" and x: "x \<in> bytes t 4096"
    from tree_okD(1) [OF tree(2) q] have t: "page_ok t" "t \<noteq> st" "bytes t 4096 \<inter> table_bytes s = {}" using st(1) pg(3) by (auto simp: owned_page_def)
    have "page_ok st" using pages.avail_page [OF a3 st(1)] by blast
    from pages_disjoint [OF t(1) this t(2)] have "x \<notin> bytes st 4096" using x by blast
    moreover have "x \<notin> table_bytes s" "x \<notin> bytes f 224" "x \<notin> bytes (prochead s + 216) 8" using tb q x t(3) hl by blast+
    ultimately show "?m6 x = mem s3 x" using m5 m4 m6 frame_rest_outside by simp
  qed
  have fc: "?m6 x = frame_rest f st ?nx (store64 (frame_start f start mN) (f + 200) root) x" if "x \<in> bytes f 224" for x
  proof -
    have "x \<notin> bytes (prochead s + 216) 8" "x \<notin> bytes st 4096" "x \<notin> table_bytes s" using that fo hl fm st(1) by blast+
    then have a: "?m6 x = frame_rest f st ?nx (mem s5) x" and b: "mem s5 x = ?m4 x" using m6 m5 by simp_all
    have c: "?m4 x = store64 (frame_start f start mN) (f + 200) root x" using fm that by (intro store_same) blast
    show ?thesis unfolding a by (rule frame_rest_same) (rule trans [OF b c])
  qed
  have o: "?m6 x = mem s x" if "x \<notin> heap_own s fr" "x \<notin> bytes (prochead s + 216) 8" for x
  proof -
    have "x \<notin> bytes f 224" using fo that(1) by blast
    then show ?thesis using m6 [OF that(2)] far [OF that(1)] frame_rest_outside [of x f] by simp
  qed
  let ?s' = "emit Sti (s5\<lparr>mem := ?m6\<rparr>)"
  have run: "IntAddTask taskName start endp kern s = Inr ((), ?s')"
    using IntAddTask_steps [OF call(1,2) _ call(5) al] call(3,4) by (simp only: ph)
  have e': "\<exists>m h. ?s' = s\<lparr>trace := trace s @ [Cli, Sti], head_next := h, highest_pid := highest_pid s + 1, mem := m\<rparr>"
  proof -
    have "?s' = emit Sti (s3\<lparr>mem := ?m6\<rparr>)" by (subst st(2)) simp
    also have "\<dots> = s\<lparr>trace := trace s @ [Cli, Sti], head_next := h, highest_pid := highest_pid s + 1, mem := ?m6\<rparr>" by (simp add: s3 emit_def)
    finally show ?thesis by blast
  qed
  have me: "mem (emit Sti (s5\<lparr>mem := m\<rparr>)) = m" for m by (simp add: emit_def)
  have "bytes f 1 \<inter> bytes (pf_name f) 33 = {}" using fields_disjoint [of 0 1 1 33 f] by (simp add: pf_name_def)
  then have "f \<notin> bytes (pf_name f) 33" by (metis base_in_bytes disjoint_iff zero_less_one)
  with mN(2) have pid: "mN f = highest_pid s" by simp
  have "pf_next ?m6 (prochead s) = f" by (simp add: pf_next_def set_pf_next_def)
  moreover have "st \<in> free_pages s" "root \<noteq> st" using st(1) pg(1) by blast+
  ultimately show ?thesis
    by - (rule exI [of _ f], rule exI [of _ mN], rule exI [of _ root], rule exI [of _ st], rule exI [of _ ?s'], intro conjI ballI allI impI,
      use call(2) fo mN(1) pid run tree(3) imp fc o e' in \<open>simp_all only: me nx simp_thms\<close>)
qed

section \<open>The new task\<close>

text \<open>A frame as \<open>IntAddTask\<close> leaves it.\<close>

definition new_task :: "memory \<Rightarrow> addr \<Rightarrow> u8 \<Rightarrow> u8 list \<Rightarrow> addr \<Rightarrow> addr \<Rightarrow> addr \<Rightarrow> bool" where
  "new_task m f pid name start root st \<longleftrightarrow> pf_pid m f = pid \<and> cstr_at m (pf_name f) name \<and> pf_quanta m f = 10 \<and> pf_cr3 m f = root \<and>
     load64 m (reg_rip (pf_regs f)) = start \<and> load64 m (reg_cs (pf_regs f)) = 8 \<and> load64 m (reg_flags (pf_regs f)) = 0x202 \<and>
     load64 m (reg_rsp (pf_regs f)) = st \<and> load64 m (reg_ss (pf_regs f)) = 0x10"

lemmas frame_defs = frame_rest_def frame_start_def set_quanta_def set_pf_next_def
  reg_cs_def reg_rip_def reg_ss_def reg_rsp_def reg_flags_def pf_regs_def pf_name_def pf_pid_def pf_quanta_def pf_cr3_def pf_next_def

text \<open>The byte at offset \<open>i\<close> lies below the fields that start at offset \<open>j\<close>.\<close>

lemma below_field:
  assumes "i < j" and "j + 8 \<le> 224"
  shows "f + of_nat i \<notin> bytes (f + of_nat j) 8"
proof -
  have "bytes (f + of_nat i) 1 \<inter> bytes (f + of_nat j) 8 = {}" using assms by (intro fields_disjoint) simp_all
  then show ?thesis by (metis base_in_bytes disjoint_iff zero_less_one)
qed

lemma frame_fields:
  assumes "m = frame_rest f st nx (store64 (frame_start f start mN) (f + 200) root)" and "cstr_at mN (pf_name f) name" and "length name \<le> 32"
  shows "new_task m f (mN f) name start root st" and "pf_next m f = nx"
proof -
  have low: "m (f + of_nat i) = mN (f + of_nat i)" if "i < 153" for i
  proof -
    have "unat (of_nat i :: u64) \<noteq> unat (193 :: u64)" using that unat_of_nat64 [of i] by simp
    then have "(of_nat i :: u64) \<noteq> 193" by metis
    then show ?thesis
      using that below_field [of i 161 f] below_field [of i 153 f] below_field [of i 185 f] below_field [of i 177 f] below_field [of i 169 f]
        below_field [of i 200 f] below_field [of i 216 f]
      by (simp add: assms(1) frame_defs store_le_outside add.assoc)
  qed
  have "m f = mN f" using low [of 0] by simp
  moreover have "m (pf_name f + of_nat i) = mN (pf_name f + of_nat i)" if "i \<le> length name" for i
    using low [of "Suc i"] that assms(3) by (simp add: pf_name_def add.assoc)
  then have "cstr_at m (pf_name f) name" using assms(2) by (simp add: cstr_at_def)
  moreover have "pf_quanta m f = 10" by (simp add: assms(1) frame_defs store_le_outside bytes_def add.assoc)
  moreover have "pf_cr3 m f = root" "load64 m (reg_rip (pf_regs f)) = start" "load64 m (reg_cs (pf_regs f)) = 8" "load64 m (reg_flags (pf_regs f)) = 0x202"
     "load64 m (reg_rsp (pf_regs f)) = st" "load64 m (reg_ss (pf_regs f)) = 0x10"
    by (simp_all add: assms(1) frame_defs load_store_away add.assoc)
  ultimately show "new_task m f (mN f) name start root st" by (simp add: new_task_def pf_pid_def)
  show "pf_next m f = nx" by (simp add: assms(1) frame_defs)
qed

lemma new_task_cong:
  assumes "\<And>x. x \<in> bytes f 224 \<Longrightarrow> m x = m' x" and "length name \<le> 32"
  shows "new_task m f pid name start root st = new_task m' f pid name start root st" and "pf_next m f = pf_next m' f"
proof -
  note i = frame_fields_in [of f]
  have l: "load64 m a = load64 m' a" if "bytes a 8 \<subseteq> bytes f 224" for a
    by (rule load_le_cong) (use that assms(1) in auto)
  have "bytes (pf_name f) (Suc (length name)) \<subseteq> bytes (pf_name f) 33" using assms(2) by (intro bytes_mono) simp
  then have "cstr_at m (pf_name f) name = cstr_at m' (pf_name f) name" using i(9) assms by (intro cstr_at_cong) auto
  moreover have "m f = m' f" "m (f + 193) = m' (f + 193)" using assms(1) i(8) by simp_all
  ultimately show "new_task m f pid name start root st = new_task m' f pid name start root st"
    by (simp add: new_task_def pf_pid_def pf_quanta_def pf_cr3_def l i)
  show "pf_next m f = pf_next m' f" by (simp add: pf_next_def l i)
qed

text \<open>A machine with 8192 free pages, an empty heap and no task; the name \<open>A\<close> stands at \<open>0x500000\<close>.\<close>

definition big_sched0 :: sched where
  "big_sched0 = \<lparr>mem = (\<lambda>_. 0)(0x500000 := 65), trace = [], device = (\<lambda>_ _. 0x20), fbSetup = False, FrameList = 0, LargestMemSegSize = 0,
     head_next = 0, pml4 = 0, GlobalPagingInfo = big_info, tensMsSinceBoot = 0,
     highest_pid = 7, schedulingStarted = False, prochead = 0x600000, current = 0\<rparr>"

definition big_sched :: sched where
  "big_sched = (case InitializeAllocator big_map big_sched0 of Inl (_, s) \<Rightarrow> s | Inr (_, s) \<Rightarrow> s)"

lemma big_sched_ok:
  "spawn_ok big_sched [] [] [] 0x500000 [65]" "card (free_pages big_sched) = 8192" "highest_pid big_sched = 7"
  and big_sched_info: "GlobalPagingInfo big_sched = big_info"
proof -
  have f: "region_fits (managed big_map)" by (simp add: managed_big region_fits_def)
  have ff: "first_frame (managed big_map) = 0x40020000" by (simp add: managed_big first_frame_def ALIGN_UP_def)
  have n: "8192 = unat (me_length (managed big_map)) div 4096" and bl: "me_base (managed big_map) = 0x40000000" "me_length (managed big_map) = 0x2000000"
    by (simp_all add: managed_big)
  from InitializeAllocator_boot [OF f n, of big_sched0, unfolded ff bl] obtain s' m where s': "InitializeAllocator big_map big_sched0 = Inr ((), s')"
    "alloc_ok s'" "card (free_pages s') = 8192"
    "\<forall>p \<in> free_pages s'. unat p + 4096 \<le> unat (0x40020000 :: u64) + 4096 * 8192 \<and> unat (0x40020000 :: u64) \<le> unat p"
    "table_bytes s' = bytes 0x40000000 (16 * 8192)" "s' = big_sched0\<lparr>FrameList := 0x40000000, mem := m, LargestMemSegSize := 0x2000000\<rparr>"
    "\<forall>x. x \<notin> bytes 0x40000000 (16 * 8192) \<longrightarrow> m x = mem big_sched0 x"
    by (elim exE conjE) (rule that; assumption)
  have b: "s' = big_sched" using s'(1) by (simp add: big_sched_def)
  have far: "bytes a n \<inter> heap_own s' [] = {}" if "unat a + n \<le> 0x40000000" for a n
  proof -
    have "bytes a n \<inter> bytes p 4096 = {}" if "p \<in> free_pages s'" for p
      using s'(4) that \<open>unat a + n \<le> _\<close> by (intro bytes_disjoint) auto
    moreover have "bytes a n \<inter> table_bytes s' = {}" unfolding s'(5) using that by (intro bytes_disjoint) auto
    ultimately show ?thesis by (auto simp: heap_own_def)
  qed
  have sm: "m x = mem big_sched0 x" if "x \<in> bytes a n" "unat a + n \<le> 0x40000000" for x a n
    using far [OF that(2)] that(1) s'(5,7) by (auto simp: heap_own_def)
  have z: "load64 m 0x6000D8 = 0"
  proof -
    have "load64 m 0x6000D8 = load64 (\<lambda>_. 0) 0x6000D8"
      by (rule load_le_cong) (use sm [of _ "0x6000D8" 8] in \<open>auto simp: big_sched0_def bytes_def\<close>)
    then show ?thesis by (simp add: load_le_def)
  qed
  have c: "cstr_at m 0x500000 [65]"
    using sm [of "0x500000" "0x500000" 2] sm [of "0x500001" "0x500000" 2] by (simp add: cstr_at_def big_sched0_def bytes_def)
  have "spawn_ok s' [] [] [] 0x500000 [65]"
    using s'(2,3,4) far [of "0x600000" 224] far [of "0x500000" 33] c z big_layout(1)
    by (auto simp: spawn_ok_def heap_ok_def blocks_apart_def grants_def tasks_def frames_apart_def pf_next_def s'(6) big_sched0_def)
  with s'(3) b show "spawn_ok big_sched [] [] [] 0x500000 [65]" "card (free_pages big_sched) = 8192" by simp_all
  show "highest_pid big_sched = 7" "GlobalPagingInfo big_sched = big_info" unfolding b [symmetric] s'(6) by (simp_all add: big_sched0_def)
qed



end
