(* ===== verification/Elf.thy ===== *)
theory Elf
  imports Spawn
begin

text \<open>
  The loader of the program \<open>a.out\<close>: the structures of \<open>elf/elf.h\<close> and the part of \<open>_kmain\<close> in
  \<open>bootstrap/kmain.c\<close> that copies the file into a buffer, checks its header and walks its program
  headers.
\<close>

section \<open>Structures\<close>

definition EM_X86_64 :: u16 where "EM_X86_64 = 0x3E"
definition ELF_MAGIC0 :: u8 where "ELF_MAGIC0 = 0x7F"
definition ELF_MAGIC1 :: u8 where "ELF_MAGIC1 = of_char (CHR ''E'')"
definition ELF_MAGIC2 :: u8 where "ELF_MAGIC2 = of_char (CHR ''L'')"
definition ELF_MAGIC3 :: u8 where "ELF_MAGIC3 = of_char (CHR ''F'')"

text \<open>
  The fields read of \<open>struct ElfHeader64\<close>: \<open>e_ident\<close> at 0, \<open>e_machine\<close> at 18, \<open>e_entry\<close> at 24, \<open>e_phoff\<close> at 32,
  \<open>e_phnum\<close> at 56; and of \<open>struct ElfPheader64\<close>, 56 bytes: \<open>p_type\<close> at 0, \<open>p_filesz\<close> at 32, \<open>p_memsz\<close> at 40.
\<close>

definition e_ident :: "memory \<Rightarrow> addr \<Rightarrow> nat \<Rightarrow> u8" where "e_ident m hdr i = m (hdr + of_nat i)"
definition e_machine :: "memory \<Rightarrow> addr \<Rightarrow> u16" where "e_machine m hdr = load16 m (hdr + 18)"
definition e_entry :: "memory \<Rightarrow> addr \<Rightarrow> u64" where "e_entry m hdr = load64 m (hdr + 24)"
definition e_phoff :: "memory \<Rightarrow> addr \<Rightarrow> u64" where "e_phoff m hdr = load64 m (hdr + 32)"
definition e_phnum :: "memory \<Rightarrow> addr \<Rightarrow> u16" where "e_phnum m hdr = load16 m (hdr + 56)"
definition p_type :: "memory \<Rightarrow> addr \<Rightarrow> u32" where "p_type m ph = load32 m ph"
definition p_filesz :: "memory \<Rightarrow> addr \<Rightarrow> u64" where "p_filesz m ph = load64 m (ph + 32)"
definition p_memsz :: "memory \<Rightarrow> addr \<Rightarrow> u64" where "p_memsz m ph = load64 m (ph + 40)"

section \<open>Program headers\<close>

text \<open>
  One program header. For a loadable segment the kernel allocates memory and prints where; it
  copies nothing yet. The variable \<open>align\<close> is computed and not used.
\<close>

definition phdr_entry :: "addr \<Rightarrow> 'z ramdisk_scheme \<Rightarrow> (unit, 'z ramdisk_scheme) res" where
  "phdr_entry phdr s =
     bindR (printf (lit (''Found program header:'' @ newline)) [] s) (\<lambda>_ s.
     bindR (printf (lit (''    - Type: 0x%x'' @ newline)) [Num (ucast (p_type (mem s) phdr))] s) (\<lambda>_ s.
     bindR (printf (lit (''    - File size: %d'' @ newline)) [Num (p_filesz (mem s) phdr)] s) (\<lambda>_ s.
     bindR (printf (lit (''    - Memory size: %d'' @ newline)) [Num (p_memsz (mem s) phdr)] s) (\<lambda>_ s.
     bindR (if p_filesz (mem s) phdr \<noteq> p_memsz (mem s) phdr
            then printf (lit (''Warning: Unimplemented case (p_filesz != p_memsz).'' @ newline)) [] s
            else Inr ((), s)) (\<lambda>_ s.
     if p_type (mem s) phdr = 0x1
     then bindR (aligned_alloc 0x1000 (p_memsz (mem s) phdr) s) (\<lambda>vmem_seg s. printf (lit ''0x%x'') [Num vmem_seg] s)
     else Inr ((), s))))))"

text \<open>The loop reads \<open>e_phnum\<close> again before every pass; it ends because that is a 16-bit number.\<close>

function phdr_loop :: "addr \<Rightarrow> addr \<Rightarrow> nat \<Rightarrow> 'z ramdisk_scheme \<Rightarrow> (unit, 'z ramdisk_scheme) res" where
  "phdr_loop hdr firstPhdr i s =
     (if i < unat (e_phnum (mem s) hdr)
      then bindR (phdr_entry (firstPhdr + of_nat (56 * i)) s) (\<lambda>_ s. phdr_loop hdr firstPhdr (Suc i) s)
      else Inr ((), s))"
  by pat_completeness auto
termination
proof (relation "measure (\<lambda>(hdr, firstPhdr, i, s). 2 ^ 16 - i)")
  fix hdr firstPhdr i and s :: "'z ramdisk_scheme" and x y
  assume "i < unat (e_phnum (mem s) hdr)"
  moreover have "unat (e_phnum (mem s) hdr) < 2 ^ 16" using unsigned_less [of "e_phnum (mem s) hdr", where ?'a = nat] by simp
  ultimately show "((hdr, firstPhdr, Suc i, y), hdr, firstPhdr, i, s) \<in> measure (\<lambda>(hdr, firstPhdr, i, s). 2 ^ 16 - i)" by simp
qed simp

declare phdr_loop.simps [simp del]

section \<open>The loader\<close>

definition elf_check :: "addr \<Rightarrow> 'z ramdisk_scheme \<Rightarrow> (unit, 'z ramdisk_scheme) res" where
  "elf_check hdr s =
     (if e_ident (mem s) hdr 0 \<noteq> ELF_MAGIC0 \<or> e_ident (mem s) hdr 1 \<noteq> ELF_MAGIC1 \<or>
         e_ident (mem s) hdr 2 \<noteq> ELF_MAGIC2 \<or> e_ident (mem s) hdr 3 \<noteq> ELF_MAGIC3
      then printf (lit (''Error: Elf signature verification failed!'' @ newline)) [] s
      else if e_machine (mem s) hdr \<noteq> EM_X86_64
      then printf (lit (''Error: Elf machine type is not x86_64!'' @ newline)) [] s
      else
        bindR (printf (lit (''    - Verified machine type as x86_64'' @ newline)) [] s) (\<lambda>_ s.
        bindR (printf (lit (''    - ELF requested virtual entry point 0x%x'' @ newline)) [Num (e_entry (mem s) hdr)] s) (\<lambda>_ s.
        bindR (printf (lit (''    - Enumerating program headers...'' @ newline)) [] s) (\<lambda>_ s.
        phdr_loop hdr (hdr + e_phoff (mem s) hdr) 0 s))))"

text \<open>
  The loader, given where the literal \<open>"a.out"\<close> lies. The message that the file was found is
  printed in any case.
\<close>

definition elf_load :: "addr \<Rightarrow> 'z ramdisk_scheme \<Rightarrow> (unit, 'z ramdisk_scheme) res" where
  "elf_load elfTargetFileName s =
     bindR (RdFileGetSz elfTargetFileName s) (\<lambda>sz s.
     bindR (printf (lit (''Found a.out!'' @ newline @ ''File size = %d bytes'' @ newline @ ''Loading file into buffer...'' @ newline))
              [Num (ucast sz)] s) (\<lambda>_ s.
     if sz = 0 then Inr ((), s)
     else
       bindR (malloc (ucast sz) s) (\<lambda>buffer s.
       if buffer = 0 then printf (lit (''Unable to allocate space to copy ELF to, refusing to load!'' @ newline)) [] s
       else
         bindR (RdFileGetStream elfTargetFileName buffer sz s) (\<lambda>_ s.
         bindR (printf (lit (''    - ELF executable loaded at 0x%x'' @ newline)) [Num buffer] s) (\<lambda>_ s.
         elf_check buffer s)))))"

section \<open>What the loader reports\<close>

text \<open>
  The reference: a file is judged by its header, and an accepted one by the list of its segments,
  each with its type, its size in the file and its size in memory.
\<close>

datatype elf_verdict = Bad_signature | Bad_machine | Accepted u64 "(u32 \<times> u64 \<times> u64) list"

definition judge :: "memory \<Rightarrow> addr \<Rightarrow> elf_verdict" where
  "judge m hdr =
     (if map (\<lambda>i. m (hdr + of_nat i)) [0..<4] \<noteq> 0x7F # lit ''ELF'' then Bad_signature
      else if load16 m (hdr + 18) \<noteq> (0x3E :: u16) then Bad_machine
      else Accepted (load64 m (hdr + 24))
        (map (\<lambda>i. let ph = hdr + load64 m (hdr + 32) + of_nat (56 * i) in (load32 m ph, load64 m (ph + 32), load64 m (ph + 40)))
          [0..<unat (load16 m (hdr + 56) :: u16)]))"

text \<open>A size is printed as a signed 32-bit number.\<close>

definition decimal :: "u64 \<Rightarrow> u8 list" where
  "decimal v = (let n = sint (ucast v :: i32) in signed_digits (if n < 0 then -1 else 1) (nat \<bar>n\<bar>))"

fun segment_text :: "u32 \<times> u64 \<times> u64 \<Rightarrow> u8 list" where
  "segment_text (ty, fsz, msz) =
     lit (''Found program header:'' @ newline @ ''    - Type: 0x'') @ hex_text (ucast ty) @
     lit (newline @ ''    - File size: '') @ decimal fsz @ lit (newline @ ''    - Memory size: '') @ decimal msz @ lit newline @
     (if fsz = msz then [] else lit (''Warning: Unimplemented case (p_filesz != p_memsz).'' @ newline))"

fun verdict_text :: "elf_verdict \<Rightarrow> u8 list" where
  "verdict_text Bad_signature = lit (''Error: Elf signature verification failed!'' @ newline)"
| "verdict_text Bad_machine = lit (''Error: Elf machine type is not x86_64!'' @ newline)"
| "verdict_text (Accepted entry segs) =
     lit (''    - Verified machine type as x86_64'' @ newline @ ''    - ELF requested virtual entry point 0x'') @ hex_text entry @
     lit (newline @ ''    - Enumerating program headers...'' @ newline) @ concat (map segment_text segs)"

text \<open>No segment is loadable.\<close>

fun nothing_to_load :: "elf_verdict \<Rightarrow> bool" where
  "nothing_to_load (Accepted entry segs) = list_all (\<lambda>(ty, fsz, msz). ty \<noteq> 1) segs"
| "nothing_to_load v = True"

lemma outputs_line:
  assumes "serial_ready s" and "render f args = Some out"
  shows "outputs (s\<lparr>trace := t\<rparr>) (printf f args (s\<lparr>trace := t\<rparr>)) out"
  using printf_outputs [of "s\<lparr>trace := t\<rparr>", OF _ assms(2)] assms(1) by simp

lemma phdr_entry_outputs:
  assumes ready: "serial_ready s" and ty: "p_type (mem s) ph \<noteq> 1"
  shows "outputs s (phdr_entry ph s) (segment_text (p_type (mem s) ph, p_filesz (mem s) ph, p_memsz (mem s) ph))"
proof -
  let ?f = "p_filesz (mem s) ph" and ?z = "p_memsz (mem s) ph"
  note line = outputs_line [OF ready]
  have lns: "segment_text (p_type (mem s) ph, ?f, ?z) = lit (''Found program header:'' @ newline) @
     ((lit ''    - Type: 0x'' @ hex_text (ucast (p_type (mem s) ph)) @ lit newline) @
      ((lit ''    - File size: '' @ decimal ?f @ lit newline) @ ((lit ''    - Memory size: '' @ decimal ?z @ lit newline) @
      ((if ?f = ?z then [] else lit (''Warning: Unimplemented case (p_filesz != p_memsz).'' @ newline)) @ []))))" by simp
  have first: "outputs s (printf (lit (''Found program header:'' @ newline)) [] s) (lit (''Found program header:'' @ newline))"
    by (rule printf_outputs [OF ready]) (simp add: render_plain)
  have warn: "outputs (s\<lparr>trace := t\<rparr>) (if ?f \<noteq> ?z then printf (lit (''Warning: Unimplemented case (p_filesz != p_memsz).'' @ newline)) [] (s\<lparr>trace := t\<rparr>)
      else Inr ((), s\<lparr>trace := t\<rparr>)) (if ?f = ?z then [] else lit (''Warning: Unimplemented case (p_filesz != p_memsz).'' @ newline))" for t
    using line [of "lit (''Warning: Unimplemented case (p_filesz != p_memsz).'' @ newline)" "[]", OF render_plain] by simp
  have tr: "mem (s\<lparr>trace := t\<rparr>) = mem s" "s\<lparr>trace := t\<rparr>\<lparr>trace := u\<rparr> = s\<lparr>trace := u\<rparr>" for t u by simp_all
  show ?thesis
    unfolding lns phdr_entry_def
    by (intro outputs_bind first; simp only: tr ty if_False outputs_nothing warn; (rule line, simp add: decimal_def Let_def)?)
qed

lemma phdr_loop_outputs:
  assumes ready: "serial_ready s" and n: "n = unat (e_phnum (mem s) hdr)" and i: "i \<le> n"
    and ty: "\<And>k. k < n \<Longrightarrow> p_type (mem s) (ph + of_nat (56 * k)) \<noteq> 1"
  shows "outputs s (phdr_loop hdr ph i s)
    (concat (map (\<lambda>k. let p = ph + of_nat (56 * k) in segment_text (p_type (mem s) p, p_filesz (mem s) p, p_memsz (mem s) p)) [i..<n]))"
  using assms
proof (induction "n - i" arbitrary: i s)
  case 0
  then show ?case by (subst phdr_loop.simps) simp
next
  case (Suc d)
  then have lt: "i < n" by simp
  have step: "outputs s (phdr_entry (ph + of_nat (56 * i)) s) (segment_text (p_type (mem s) (ph + of_nat (56 * i)),
      p_filesz (mem s) (ph + of_nat (56 * i)), p_memsz (mem s) (ph + of_nat (56 * i))))"
    by (rule phdr_entry_outputs) (use Suc.prems lt in blast)+
  have rest: "outputs (s\<lparr>trace := t\<rparr>) (phdr_loop hdr ph (Suc i) (s\<lparr>trace := t\<rparr>))
      (concat (map (\<lambda>k. let p = ph + of_nat (56 * k) in segment_text (p_type (mem s) p, p_filesz (mem s) p, p_memsz (mem s) p)) [Suc i..<n]))" for t
    using Suc.hyps(1) [of "Suc i" "s\<lparr>trace := t\<rparr>"] Suc.hyps(2) Suc.prems lt by simp
  show ?case
    by (subst phdr_loop.simps) (use outputs_bind [OF step rest] lt Suc.prems(2) in \<open>simp add: upt_conv_Cons Let_def\<close>)
qed

lemma elf_check_outputs:
  assumes ready: "serial_ready s" and none: "nothing_to_load (judge (mem s) hdr)"
  shows "outputs s (elf_check hdr s) (verdict_text (judge (mem s) hdr))"
proof -
  have sig: "map (\<lambda>i. mem s (hdr + of_nat i)) [0..<4] \<noteq> 0x7F # lit ''ELF'' \<longleftrightarrow>
      e_ident (mem s) hdr 0 \<noteq> ELF_MAGIC0 \<or> e_ident (mem s) hdr 1 \<noteq> ELF_MAGIC1 \<or> e_ident (mem s) hdr 2 \<noteq> ELF_MAGIC2 \<or> e_ident (mem s) hdr 3 \<noteq> ELF_MAGIC3"
    by (auto simp: e_ident_def ELF_MAGIC0_def ELF_MAGIC1_def ELF_MAGIC2_def ELF_MAGIC3_def upt_rec)
  have now: "outputs s (printf f [] s) f" if "of_char (CHR ''%'') \<notin> set f" for f
    by (rule printf_outputs [OF ready render_plain [OF that]])
  let ?bad = "e_ident (mem s) hdr 0 \<noteq> ELF_MAGIC0 \<or> e_ident (mem s) hdr 1 \<noteq> ELF_MAGIC1 \<or> e_ident (mem s) hdr 2 \<noteq> ELF_MAGIC2 \<or> e_ident (mem s) hdr 3 \<noteq> ELF_MAGIC3"
  show ?thesis
  proof (cases "judge (mem s) hdr")
    case Bad_signature
    then have b: ?bad unfolding sig [symmetric] by (auto simp: judge_def split: if_splits)
    show ?thesis unfolding Bad_signature elf_check_def if_P [OF b] verdict_text.simps by (rule now) simp
  next
    case Bad_machine
    then have b: "\<not> ?bad" unfolding sig [symmetric] by (auto simp: judge_def split: if_splits)
    have m: "e_machine (mem s) hdr \<noteq> EM_X86_64" using Bad_machine by (auto simp: judge_def e_machine_def EM_X86_64_def split: if_splits)
    show ?thesis unfolding Bad_machine elf_check_def if_not_P [OF b] if_P [OF m] verdict_text.simps by (rule now) simp
  next
    case (Accepted entry segs)
    let ?ph = "hdr + e_phoff (mem s) hdr" and ?n = "unat (e_phnum (mem s) hdr)"
    let ?seg = "\<lambda>k. let p = ?ph + of_nat (56 * k) in (p_type (mem s) p, p_filesz (mem s) p, p_memsz (mem s) p)"
    have head: "\<not> ?bad" using Accepted unfolding sig [symmetric] by (auto simp: judge_def split: if_splits)
    from Accepted have m: "\<not> e_machine (mem s) hdr \<noteq> EM_X86_64" and entry: "entry = e_entry (mem s) hdr" and segs: "segs = map ?seg [0..<?n]"
      by (auto simp: judge_def e_machine_def EM_X86_64_def e_entry_def e_phoff_def e_phnum_def p_type_def p_filesz_def p_memsz_def split: if_splits)
    have "p_type (mem s) (?ph + of_nat (56 * k)) \<noteq> 1" if "k < ?n" for k
      using none that unfolding Accepted segs by (auto simp: list_all_iff Let_def)
    then have loop: "outputs (s\<lparr>trace := t\<rparr>) (phdr_loop hdr ?ph 0 (s\<lparr>trace := t\<rparr>)) (concat (map segment_text segs))" for t
      using phdr_loop_outputs [of "s\<lparr>trace := t\<rparr>" ?n hdr 0 ?ph] ready by (simp add: segs Let_def comp_def)
    have lns: "verdict_text (Accepted entry segs) = lit (''    - Verified machine type as x86_64'' @ newline) @
       ((lit ''    - ELF requested virtual entry point 0x'' @ hex_text (e_entry (mem s) hdr) @ lit newline) @
        (lit (''    - Enumerating program headers...'' @ newline) @ concat (map segment_text segs)))" by (simp add: entry)
    have tr: "mem (s\<lparr>trace := t\<rparr>) = mem s" "s\<lparr>trace := t\<rparr>\<lparr>trace := u\<rparr> = s\<lparr>trace := u\<rparr>" for t u by simp_all
    have first: "outputs s (printf (lit (''    - Verified machine type as x86_64'' @ newline)) [] s) (lit (''    - Verified machine type as x86_64'' @ newline))"
      by (rule now) simp
    have "outputs s (elf_check hdr s) (verdict_text (Accepted entry segs))"
      unfolding lns elf_check_def if_not_P [OF head] if_not_P [OF m]
      by (intro outputs_bind first; simp only: tr loop; (rule outputs_line [OF ready], simp)?)
    then show ?thesis by (simp only: Accepted)
  qed
qed

section \<open>Loading from the RAM disk\<close>

lemma stream_mem: "RdFileGetStream path buffer n s = Inr ((), s') \<Longrightarrow> \<exists>m. s' = s\<lparr>mem := m\<rparr>"
  by (auto simp: RdFileGetStream_def RdFileGetFrame_def bindR_def split: if_splits sum.splits option.splits)
    (metis machine.surjective machine.update_convs(1))+

text \<open>Requests of any size: from a free block, from a fresh page, or from adjacent pages.\<close>

definition serves :: "'z heap_scheme \<Rightarrow> block list \<Rightarrow> nat \<Rightarrow> bool" where
  "serves s fr n \<longleftrightarrow> grants s fr n \<or> first_fit (16 + n) fr = None \<and> combinable (free_list s) n"

lemma serves_trace [simp]: "serves (s\<lparr>trace := t\<rparr>) fr n = serves s fr n"
  by (simp add: serves_def grants_def alloc_defs free_list_def)

lemma malloc_serves:
  assumes ok: "heap_ok s fr lv" and sv: "serves s fr (unat sz)"
  shows "\<exists>b fr2 s'. malloc sz s = Inr (b + 16, s') \<and> heap_ok s' fr2 ((b, 16 + unat sz) # lv) \<and>
    bytes b (16 + unat sz) \<subseteq> heap_own s fr \<and> (\<forall>x. x \<notin> heap_own s fr \<longrightarrow> mem s' x = mem s x) \<and>
    (\<exists>m h. s' = s\<lparr>mem := m, head_next := h\<rparr>)"
proof (cases "grants s fr (unat sz)")
  case True
  from malloc_grants [OF ok True] obtain b fr2 s' where
    s': "malloc sz s = Inr (b + 16, s')" "heap_ok s' fr2 ((b, 16 + unat sz) # lv)" "bytes b (16 + unat sz) \<subseteq> heap_own s fr"
    "\<forall>x. x \<notin> heap_own s fr \<longrightarrow> mem s' x = mem s x" by blast
  from malloc_frame [OF s'(1)] s' show ?thesis by blast
next
  case False
  with sv have none: "first_fit (16 + unat sz) fr = None" and cb: "combinable (free_list s) (unat sz)" by (simp_all add: serves_def)
  then have c: "4080 \<le> unat sz" "unat sz \<le> 2 ^ 31 - 4096" "page_count (unat sz) * 4096 = 16 + unat sz \<or> 32 + unat sz \<le> page_count (unat sz) * 4096"
    by (simp_all add: combinable_def)
  from cb obtain p q qs where fl: "free_list s = run p (page_count (unat sz)) @ q # qs" by (rule combinableE)
  from malloc_combined [OF ok none c fl] obtain fr2 s' where
    s': "malloc sz s = Inr (p + 16, s')" "heap_ok s' fr2 ((p, 16 + unat sz) # lv)"
    "bytes p (16 + unat sz) \<subseteq> (\<Union>r \<in> free_pages s. bytes r 4096)"
    "\<forall>x. x \<notin> (\<Union>r \<in> free_pages s. bytes r 4096) \<longrightarrow> x \<notin> table_bytes s \<longrightarrow> x \<notin> \<Union> (blk ` set fr) \<longrightarrow> mem s' x = mem s x"
    by (elim exE conjE) (rule that; assumption)
  have "bytes p (16 + unat sz) \<subseteq> heap_own s fr" using s'(3) unfolding heap_own_def by blast
  moreover have "\<forall>x. x \<notin> heap_own s fr \<longrightarrow> mem s' x = mem s x" using s'(4) unfolding heap_own_def by simp
  ultimately show ?thesis using malloc_frame [OF s'(1)] s'(1,2) by blast
qed

text \<open>A file that is rejected or has no loadable segment, wherever it is loaded.\<close>

definition loads_nothing :: "u8 list \<Rightarrow> bool" where
  "loads_nothing data \<longleftrightarrow> (\<forall>m b. (\<forall>i < length data. m (b + of_nat i) = data ! i) \<longrightarrow> nothing_to_load (judge m b))"

definition load_text :: "nat \<Rightarrow> addr \<Rightarrow> elf_verdict \<Rightarrow> u8 list" where
  "load_text n buffer v = lit (''Found a.out!'' @ newline @ ''File size = '') @ decimal (of_nat n) @
     lit ('' bytes'' @ newline @ ''Loading file into buffer...'' @ newline @ ''    - ELF executable loaded at 0x'') @ hex_text buffer @ lit newline @
     verdict_text v"

lemma elf_load_effect:
  assumes inv: "rd_inv area s fr ns es lv" and ini: "ramdiskInitialized s" and ready: "serial_ready s"
    and path: "path \<noteq> 0" "cstr_at (mem s) path name" "bytes path (Suc (length name)) \<inter> area = {}" "length name < 2 ^ 31"
    and fd: "find (\<lambda>e. fst e = name) es = Some e" "describes (mem s) R e (name, data)" "R \<inter> area = {}"
    and len: "data \<noteq> []" "length data < 2 ^ 31" and gr: "serves s fr (length data)" and none: "loads_nothing data"
  shows "\<exists>buffer s' ev. elf_load path s = Inr ((), s') \<and> trace s' = trace s @ ev \<and>
    sent ev = crlf (load_text (length data) buffer (judge (mem s') buffer)) \<and> bytes buffer (length data) \<subseteq> area \<and>
    (\<forall>i < length data. mem s' (buffer + of_nat i) = data ! i) \<and> (\<forall>x. x \<notin> area \<longrightarrow> mem s' x = mem s x) \<and>
    (\<exists>m h. s' = s\<lparr>mem := m, head_next := h, trace := trace s'\<rparr>)"
proof -
  let ?n = "length data"
  have ok: "heap_ok s fr (map node_block ns @ lv)" and list: "listing s ns es" and own: "heap_own s fr \<subseteq> area"
    and head: "bytes (filehead s) 120 \<inter> area = {}" using inv by (simp_all add: rd_inv_def)
  have sz: "RdFileGetSz path s = Inr (of_nat ?n, s)"
    using RdFileGetSz_found [OF list ini path(1,2)] fd(1,2) by (simp add: describes_def)
  have u: "unat (ucast (of_nat ?n :: u32) :: u64) = ?n" "(of_nat ?n :: u32) \<noteq> 0" "(ucast (of_nat ?n :: u32) :: u64) = of_nat ?n"
  proof -
    have w: "unat (of_nat ?n :: u32) = ?n" using len(2) by (simp add: unat_of_nat)
    then show c: "(ucast (of_nat ?n :: u32) :: u64) = of_nat ?n" by (metis of_nat_unat)
    show "unat (ucast (of_nat ?n :: u32) :: u64) = ?n" unfolding c using len(2) by (intro unat_of_nat64) simp
    show "(of_nat ?n :: u32) \<noteq> 0" using w len(1) by (metis length_0_conv unat_0)
  qed
  let ?hello = "lit (''Found a.out!'' @ newline @ ''File size = %d bytes'' @ newline @ ''Loading file into buffer...'' @ newline)"
  let ?t1 = "lit (''Found a.out!'' @ newline @ ''File size = '') @ decimal (of_nat ?n) @ lit ('' bytes'' @ newline @ ''Loading file into buffer...'' @ newline)"
  have "outputs s (printf ?hello [Num (ucast (of_nat ?n :: u32))] s) ?t1"
    by (rule printf_outputs [OF ready]) (simp add: decimal_def Let_def u(3))
  then obtain e1 where e1: "printf ?hello [Num (ucast (of_nat ?n :: u32))] s = Inr ((), s\<lparr>trace := trace s @ e1\<rparr>)" "sent e1 = crlf ?t1"
    by (rule outputsE)
  let ?s1 = "s\<lparr>trace := trace s @ e1\<rparr>"
  have "heap_ok ?s1 fr (map node_block ns @ lv)" "serves ?s1 fr (unat (ucast (of_nat ?n :: u32) :: u64))" using ok gr u(1) by simp_all
  from malloc_serves [OF this] obtain b fr2 s2 m h where s2: "malloc (ucast (of_nat ?n :: u32)) ?s1 = Inr (b + 16, s2)"
    "heap_ok s2 fr2 ((b, 16 + ?n) # map node_block ns @ lv)" "bytes b (16 + ?n) \<subseteq> heap_own s fr" "\<forall>x. x \<notin> heap_own s fr \<longrightarrow> mem s2 x = mem s x"
    and s2': "s2 = ?s1\<lparr>mem := m, head_next := h\<rparr>" unfolding u(1) heap_trace by (elim exE conjE) (rule that; simp)
  define buffer where "buffer = b + 16"
  have bb: "bytes buffer ?n \<subseteq> heap_own s fr" using subrange [of 16 ?n "16 + ?n" b] s2(3) len(2) by (simp add: buffer_def)
  have b0: "buffer \<noteq> 0"
  proof -
    have "unat b + (16 + ?n) \<le> 2 ^ 64" using heap_blockD [OF s2(2), of "(b, 16 + ?n)"] by (simp add: block_ok_def)
    moreover have "0 < ?n" using len(1) by simp
    ultimately have "unat b + 16 < 2 ^ 64" by linarith
    then have "unat buffer = unat b + 16" by (simp add: buffer_def unat_word_ariths)
    then show ?thesis by auto
  qed
  have keep: "mem s2 x = mem s x" if "x \<notin> area" for x using that s2(4) own by blast
  have list2: "listing s2 ns es"
  proof (subst listing_cong [of ns s2 s])
    show "mem s2 x = mem s x" if "n \<in> set ns" "x \<in> bytes n 120" for n x
    proof -
      have "blk (node_block n) \<inter> heap_own s fr = {}" by (rule heap_own_live [OF ok]) (use that(1) in simp)
      then show ?thesis using s2(4) node_in_block [of n] that(2) by blast
    qed
    show "fn_next (mem s2) (filehead s2) = fn_next (mem s) (filehead s)"
    proof -
      have "mem s2 x = mem s x" if "x \<in> bytes (filehead s + 112) 8" for x using that node_fields(3) [of "filehead s"] head by (intro keep) blast
      moreover have "filehead s2 = filehead s" by (simp add: s2')
      ultimately show ?thesis unfolding fn_next_def by (simp only:) (rule load_le_cong; simp)
    qed
  qed (rule list)
  have src: "bytes (snd (snd e)) ?n \<subseteq> R" using fd(2) by (simp add: describes_def)
  have "mem s2 (snd (snd e) + of_nat i) = mem s (snd (snd e) + of_nat i)" if "i < ?n" for i
    using subsetD [OF src offset_in_bytes [OF that]] len(2) fd(3) by (intro keep) auto
  then have desc2: "describes (mem s2) R e (name, data)" using fd(2) by (simp add: describes_def)
  have path2: "cstr_at (mem s2) path name"
    by (subst cstr_at_cong [of path name _ "mem s"]) (use path keep in auto)
  have ini2: "ramdiskInitialized s2" by (simp add: s2' ini)
  have "bytes buffer ?n \<inter> R = {}" using bb own fd(3) by blast
  from RdFileGetStream_found [OF list2 ini2 path(1) path2 fd(1) desc2 order_refl len(2) this] obtain s3 where
    s3: "RdFileGetStream path buffer (of_nat ?n) s2 = Inr ((), s3)" "\<forall>i < ?n. mem s3 (buffer + of_nat i) = data ! i"
    "\<forall>x. x \<notin> bytes buffer ?n \<longrightarrow> mem s3 x = mem s2 x" by blast
  from stream_mem [OF s3(1)] obtain m3 where s3': "s3 = s2\<lparr>mem := m3\<rparr>" by blast
  have ready3: "serial_ready s3" using ready by (simp add: s3' s2' serial_ready_def)
  let ?t2 = "lit ''    - ELF executable loaded at 0x'' @ hex_text buffer @ lit newline"
  have "nothing_to_load (judge (mem s3) buffer)" using none s3(2) by (auto simp: loads_nothing_def)
  then have "outputs s3 (bindR (printf (lit (''    - ELF executable loaded at 0x%x'' @ newline)) [Num buffer] s3) (\<lambda>_. elf_check buffer)) (?t2 @ verdict_text (judge (mem s3) buffer))"
    using ready3 elf_check_outputs [of "s3\<lparr>trace := t\<rparr>" buffer for t] by (intro outputs_bind printf_outputs) simp_all
  then obtain e2 where e2: "bindR (printf (lit (''    - ELF executable loaded at 0x%x'' @ newline)) [Num buffer] s3) (\<lambda>_. elf_check buffer) =
      Inr ((), s3\<lparr>trace := trace s3 @ e2\<rparr>)" "sent e2 = crlf (?t2 @ verdict_text (judge (mem s3) buffer))" by (rule outputsE)
  let ?s' = "s3\<lparr>trace := trace s3 @ e2\<rparr>"
  have "elf_load path s = Inr ((), ?s')"
    by (simp only: elf_load_def sz bindR_Inr e1(1) u(2) if_False s2(1) buffer_def [symmetric] b0 s3(1) e2(1))
  moreover have "trace ?s' = trace s @ e1 @ e2" by (simp add: s3' s2')
  moreover have "sent (e1 @ e2) = crlf (load_text ?n buffer (judge (mem ?s') buffer))" using e1(2) e2(2) by (simp add: load_text_def)
  moreover have "bytes buffer ?n \<subseteq> area" "\<forall>i < ?n. mem ?s' (buffer + of_nat i) = data ! i" using bb own s3(2) by auto
  moreover have "\<forall>x. x \<notin> area \<longrightarrow> mem ?s' x = mem s x"
  proof (intro allI impI)
    fix x assume x: "x \<notin> area"
    then have "x \<notin> bytes buffer ?n" using bb own by blast
    then show "mem ?s' x = mem s x" using s3(3) keep [OF x] by simp
  qed
  moreover have "\<exists>m h. ?s' = s\<lparr>mem := m, head_next := h, trace := trace ?s'\<rparr>"
    by (rule exI [of _ m3], rule exI [of _ h]) (simp add: s3' s2')
  ultimately show ?thesis by blast
qed

lemma load_from_ramdisk:
  assumes "rd_boot s a fs" and "free_pages s \<noteq> {}" and "length fs \<le> 30"
    and "path \<noteq> 0" and "cstr_at (mem s) path name" and "length name < 2 ^ 31"
    and "bytes path (Suc (length name)) \<inter> (heap_own s [] \<union> bytes (filehead s) 120) = {}"
    and "map_of (rev fs) name = Some data" and "data \<noteq> []" and "loads_nothing data"
    and "length data = 136 * (30 - length fs) \<or> length data + 16 \<le> 136 * (30 - length fs) \<or> combinable (tl (free_list s)) (length data)"
  shows "\<exists>s1 s2 buffer ev. InitializeRamdisk a s = Inr ((), s1) \<and> elf_load path s1 = Inr ((), s2) \<and>
    (\<forall>i < length data. mem s2 (buffer + of_nat i) = data ! i) \<and> bytes buffer (length data) \<subseteq> heap_own s [] \<and>
    trace s2 = trace s1 @ ev \<and> sent ev = crlf (load_text (length data) buffer (judge (mem s2) buffer)) \<and>
    (\<forall>x. x \<notin> heap_own s [] \<longrightarrow> x \<notin> bytes (filehead s) 120 \<longrightarrow> mem s2 x = mem s x) \<and>
    (\<exists>m h t. s1 = s\<lparr>mem := m, head_next := h, trace := t, ramdiskInitialized := True\<rparr>) \<and>
    (\<exists>m h t. s2 = s\<lparr>mem := m, head_next := h, trace := t, ramdiskInitialized := True\<rparr>)"
proof -
  from InitializeRamdisk_effect [OF assms(1-3)] obtain fr ns s1 where s1: "InitializeRamdisk a s = Inr ((), s1)" "ramdiskInitialized s1"
    "rd_inv (heap_own s []) s1 fr ns (rev (tar_entries a fs)) []" "node_room (30 - length fs) fr s1" "serial_ready s1" "tar_at (mem s1) a fs"
    "\<forall>x. x \<notin> heap_own s [] \<longrightarrow> x \<notin> bytes (filehead s) 120 \<longrightarrow> mem s1 x = mem s x"
    "free_list s1 = (if fs = [] then free_list s else tl (free_list s))"
    "\<exists>m h t. s1 = s\<lparr>mem := m, head_next := h, trace := t, ramdiskInitialized := True\<rparr>" by blast
  let ?R = "bytes a (tar_len fs)"
  have "list_all2 (describes (mem s1) ?R) (tar_entries a fs) fs"
    by (rule tar_entries_describe [OF s1(6)]) (use assms(1) in \<open>simp_all add: rd_boot_def\<close>)
  then have "list_all2 (describes (mem s1) ?R) (rev (tar_entries a fs)) (rev fs)" by simp
  from find_entry [OF this, of name] assms(8) obtain e where e: "find (\<lambda>e. fst e = name) (rev (tar_entries a fs)) = Some e"
    "describes (mem s1) ?R e (name, data)" by auto
  have path: "cstr_at (mem s1) path name"
    by (subst cstr_at_cong [of path name _ "mem s"]) (use assms(5,6,7) s1(7) in auto)
  have away: "bytes path (Suc (length name)) \<inter> heap_own s [] = {}" "?R \<inter> heap_own s [] = {}"
    using assms(1,7) by (auto simp: rd_boot_def archive_safe_def)
  have "fs \<noteq> []" using assms(8) by auto
  with s1(4) obtain b where fr: "fr = [(b, 16 + 136 * (30 - length fs))]" by (cases fs) (auto simp: node_room_def)
  have gr: "serves s1 fr (length data)"
  proof (cases "combinable (tl (free_list s)) (length data)")
    case True
    moreover have "0 < length fs" "4080 \<le> length data" using \<open>fs \<noteq> []\<close> True by (simp_all add: combinable_def)
    then have "136 * (30 - length fs) < length data" by linarith
    then have "first_fit (16 + length data) fr = None" by (simp add: fr)
    ultimately show ?thesis using s1(8) \<open>fs \<noteq> []\<close> by (simp add: serves_def)
  next
    case False
    then show ?thesis using assms(11) by (auto simp: serves_def grants_def fr)
  qed
  have len: "length data < 2 ^ 31" using assms(11) by (auto simp: combinable_def)
  from elf_load_effect [OF s1(3,2,5) assms(4) path away(1) assms(6) e away(2) assms(9) len gr assms(10)] obtain buffer s2 ev where
    s2: "elf_load path s1 = Inr ((), s2)" "trace s2 = trace s1 @ ev" "sent ev = crlf (load_text (length data) buffer (judge (mem s2) buffer))"
    "bytes buffer (length data) \<subseteq> heap_own s []" "\<forall>i < length data. mem s2 (buffer + of_nat i) = data ! i"
    "\<forall>x. x \<notin> heap_own s [] \<longrightarrow> mem s2 x = mem s1 x" "\<exists>m h. s2 = s1\<lparr>mem := m, head_next := h, trace := trace s2\<rparr>" by blast
  have out: "\<forall>x. x \<notin> heap_own s [] \<longrightarrow> x \<notin> bytes (filehead s) 120 \<longrightarrow> mem s2 x = mem s x" using s2(6) s1(7) by simp
  from s2(7) s1(9) obtain m h t m' h' where u: "s2 = s1\<lparr>mem := m, head_next := h, trace := trace s2\<rparr>"
    "s1 = s\<lparr>mem := m', head_next := h', trace := t, ramdiskInitialized := True\<rparr>" by blast
  have "s1\<lparr>mem := m, head_next := h, trace := v\<rparr> = s\<lparr>mem := m, head_next := h, trace := v, ramdiskInitialized := True\<rparr>" for v
    by (simp add: u(2))
  with u(1) have u2: "\<exists>m h t. s2 = s\<lparr>mem := m, head_next := h, trace := t, ramdiskInitialized := True\<rparr>" by metis
  show ?thesis
    by (rule exI [of _ s1], rule exI [of _ s2], rule exI [of _ buffer], rule exI [of _ ev], intro conjI)
      (rule s1(1) s2(1-5) s1(9) out u2)+
qed

section \<open>A small file\<close>

text \<open>The header of an x86-64 file with one program header, a note of 32 bytes behind the header.\<close>

definition demo_elf_mem :: memory where
  "demo_elf_mem = (store64 (store64 (store32 (store16 (store64 (store64 (store16 (\<lambda>_. 0) 0x800012 (0x3E :: u16)) 0x800018 (0x400000 :: u64)) 0x800020 (0x40 :: u64))
       0x800038 (1 :: u16)) 0x800040 (4 :: u32)) 0x800060 (32 :: u64)) 0x800068 (32 :: u64))
     (0x800000 := 0x7F, 0x800001 := 0x45, 0x800002 := 0x4C, 0x800003 := 0x46)"

lemma demo_judge: "judge demo_elf_mem 0x800000 = Accepted 0x400000 [(4, 32, 32)]"
proof -
  have four: "[0..<4] = [0, 1, 2, 3 :: nat]" by code_simp
  have "map (\<lambda>i. demo_elf_mem (0x800000 + of_nat i)) [0..<4] = 0x7F # lit ''ELF''" by (simp add: four demo_elf_mem_def)
  then show ?thesis by (simp add: judge_def demo_elf_mem_def load_upd_away load_store_away Let_def)
qed

section \<open>Properties\<close>





end
