(* ===== verification/Kmain.thy ===== *)
theory Kmain
  imports Idt Pcie Bootloader Elf
begin

text \<open>
  The kernel entry, \<open>_kmain\<close> in \<open>bootstrap/kmain.c\<close>: every component is set up in the order of the
  code, then \<open>a.out\<close> is loaded and the processor halts.
\<close>

section \<open>State\<close>

text \<open>
  \<open>requests\<close> are the requests of \<open>bootloader.c\<close> with the responses in them. Where the linker puts the
  kernel, the descriptor table and the literal \<open>"a.out"\<close>, and the value of \<open>__DATE__\<close>, are parameters.
\<close>

record kernel = idts +
  requests :: limine_requests
  kernelStart :: addr
  kernelEnd :: addr
  gdt_table :: addr
  elf_name :: addr
  build_date :: "u8 list"

section \<open>The entry\<close>

text \<open>A function that needs no machine, as a step of one.\<close>

definition lift :: "'s \<Rightarrow> stop + 'a \<Rightarrow> ('a, 's) res" where
  "lift s r = (case r of Inl e \<Rightarrow> Inl (e, s) | Inr x \<Rightarrow> Inr (x, s))"

text \<open>
  The first element of an array of pointers, dereferenced: the array pointer may be null, and an
  array without elements has no first one.
\<close>

definition first_of :: "'a list option \<Rightarrow> stop + 'a" where
  "first_of p = (case p of None \<Rightarrow> Inl NullDeref | Some [] \<Rightarrow> Inl Undefined | Some (x # xs) \<Rightarrow> Inr x)"

definition framebuffer_size :: "limine_framebuffer \<Rightarrow> u64" where
  "framebuffer_size f = fb_width f * fb_height f * ucast (fb_bpp f) + 0x1000"

text \<open>From the drivers on, when memory and interrupts are set up.\<close>

definition start_drivers :: "Bootloader \<Rightarrow> 'z kernel_scheme \<Rightarrow> (unit, 'z kernel_scheme) res" where
  "start_drivers bootloader s =
     bindR (printf (lit (''System/14 kernel, compiled on %s'' @ newline)) [Str (build_date s)] s) (\<lambda>_ s.
     let s = InitializePIT s in
     bindR (InitializePCIE s) (\<lambda>_ s.
     bindR (if bl_mod bootloader \<noteq> None
            then bindR (lift s (first_of (bl_mod bootloader))) (\<lambda>f s. InitializeRamdisk (file_address f) s)
            else Inr ((), s)) (\<lambda>_ s.
     elf_load (elf_name s) s)))"

definition kmain :: "'z kernel_scheme \<Rightarrow> (unit, 'z kernel_scheme) res" where
  "kmain s =
     (let s = InitializeGDT (gdt_table s) s in
      bindR (lift s (InitializeBootloader (requests s))) (\<lambda>bootloader s.
      bindR (lift s (first_of (fb bootloader))) (\<lambda>f s.
      let s = InitializeTerminal (fb_address f) (ucast (fb_width f)) (ucast (fb_height f)) (ucast (fb_pitch f)) s in
      bindR (InitializeACPI (rsdp bootloader) s) (\<lambda>_ s.
      bindR (InitializeAllocator (mmap bootloader) s) (\<lambda>_ s.
      bindR (InitializePaging (mmap bootloader) (hhdm_base bootloader) (kernelEnd s - kernelStart s)
               (ka_phys_base bootloader) (ka_virt_base bootloader) (fb_address f) (framebuffer_size f) s) (\<lambda>_ s.
      bindR (InitializeIDT s) (\<lambda>_ s.
      bindR (start_drivers bootloader s) (\<lambda>_ s.
      Inl (Endless, emit Hlt s)))))))))"

section \<open>The order of the start\<close>

text \<open>What the memory manager is told: the layout of the kernel, the framebuffer and the memory map.\<close>

definition kernel_info :: "Bootloader \<Rightarrow> limine_framebuffer \<Rightarrow> 'z kernel_scheme \<Rightarrow> paging_info" where
  "kernel_info b f s = \<lparr>gp_mmap = mmap b, gp_hhdm_base = hhdm_base b, gp_kernelSize = kernelEnd s - kernelStart s,
     gp_kernelPhysBase = ka_phys_base b, gp_kernelVirtBase = ka_virt_base b, gp_fbBase = fb_address f, gp_fbSize = framebuffer_size f\<rparr>"

text \<open>The memory the allocator manages: the frame table at the start of the largest region and the frames behind it.\<close>

definition managed_area :: "limine_memmap_entry \<Rightarrow> addr set" where
  "managed_area e = {x. unat (me_base e) \<le> unat x \<and> unat x < unat (first_frame e) + 4096 * (unat (me_length e) div 4096)}"

text \<open>
  The responses are there, the ACPI tables are sound, the largest usable region has room for the page
  tables, and neither the array \<open>idt\<close>, zero at first, nor the MADT lies in it.
\<close>

definition boot_ok :: "'z kernel_scheme \<Rightarrow> Bootloader \<Rightarrow> limine_framebuffer \<Rightarrow> u32 list \<Rightarrow> ic list \<Rightarrow> bool" where
  "boot_ok s b f ts es \<longleftrightarrow> InitializeBootloader (requests s) = Inr b \<and> first_of (fb b) = Inr f \<and> serial_ready s \<and>
     rsdp b \<noteq> 0 \<and> rsdp_rsdt (mem s) (rsdp b) \<noteq> 0 \<and> has_sig (mem s) ''RSDT'' (ucast (rsdp_rsdt (mem s) (rsdp b))) \<and>
     rsdt_at (mem s) (rsdp_rsdt (mem s) (rsdp b)) ts \<and> region_fits (managed (mmap b)) \<and> layout_ok (kernel_info b f s) \<and>
     unat (first_frame (managed (mmap b))) + unat (me_length (managed (mmap b))) \<le> 2 ^ 40 \<and>
     default_tables (kernel_info b f s) < unat (me_length (managed (mmap b))) div 4096 \<and>
     (let madt = last_with (mem s) ''APIC'' ts (madtPtr s) in madt \<noteq> 0 \<and> madt_at (mem s) madt es \<and>
        (\<forall>x \<in> bytes (idt s) 4096. mem s x = 0) \<and> bytes (idt s) 4096 \<inter> bytes madt (52 + ics_len es) = {} \<and>
        (bytes (idt s) 4096 \<union> bytes madt (52 + ics_len es)) \<inter> managed_area (managed (mmap b)) = {})"

text \<open>After the allocator, all it owns lies in that area.\<close>

lemma boot_allocator:
  fixes s :: "'z allocator_scheme"
  assumes "region_fits e" and "e = managed m" and "n = unat (me_length e) div 4096" and "unat (first_frame e) + unat (me_length e) \<le> 2 ^ 40"
  shows "\<exists>s'. InitializeAllocator m s = Inr ((), s') \<and> alloc_ok s' \<and> card (free_pages s') = n \<and> (\<forall>p \<in> free_pages s'. unat p < 2 ^ 40) \<and>
    table_bytes s' \<union> (\<Union>p \<in> free_pages s'. bytes p 4096) \<subseteq> managed_area e \<and>
    (\<exists>m. s' = s\<lparr>FrameList := me_base e, mem := m, LargestMemSegSize := me_length e\<rparr> \<and> (\<forall>x. x \<notin> managed_area e \<longrightarrow> m x = mem s x))"
proof -
  from InitializeAllocator_boot [of m n s] assms(1-3) obtain s' m' where s': "InitializeAllocator m s = Inr ((), s')" "alloc_ok s'" "card (free_pages s') = n"
    "\<forall>p \<in> free_pages s'. unat p + 4096 \<le> unat (first_frame e) + 4096 * n \<and> unat (first_frame e) \<le> unat p" "table_bytes s' = bytes (me_base e) (16 * n)"
    "s' = s\<lparr>FrameList := me_base e, mem := m', LargestMemSegSize := me_length e\<rparr>" "\<forall>x. x \<notin> bytes (me_base e) (16 * n) \<longrightarrow> m' x = mem s x" by auto
  have up: "unat (me_base e) + 16 * n \<le> unat (first_frame e)" "unat (first_frame e) + 4096 * n < 2 ^ 64"
    using unat_first_frame [OF assms(1)] by (simp_all add: assms(3))
  have tb: "bytes (me_base e) (16 * n) \<subseteq> managed_area e"
    using up bytes_unat [of "me_base e" "16 * n"] by (auto simp: managed_area_def assms(3))
  have pg: "bytes p 4096 \<subseteq> managed_area e" if "p \<in> free_pages s'" for p
    using s'(4) that up bytes_unat [of p 4096] by (fastforce simp: managed_area_def assms(3))
  have "unat p < 2 ^ 40" if "p \<in> free_pages s'" for p
  proof -
    have "4096 * n \<le> unat (me_length e)" by (simp add: assms(3))
    then show ?thesis using s'(4) that assms(4) by fastforce
  qed
  moreover have "\<forall>x. x \<notin> managed_area e \<longrightarrow> m' x = mem s x" using s'(7) tb by blast
  moreover have "table_bytes s' \<union> (\<Union>p \<in> free_pages s'. bytes p 4096) \<subseteq> managed_area e" using tb pg s'(5) by blast
  ultimately show ?thesis using s'(1,2,3,6) by blast
qed

lemma kmain_start:
  assumes "InitializeBootloader (requests s) = Inr b" and "first_of (fb b) = Inr f"
  shows "\<exists>t. kmain s = bindR (InitializeACPI (rsdp b) (s\<lparr>fbSetup := True, trace := t\<rparr>)) (\<lambda>_ s.
      bindR (InitializeAllocator (mmap b) s) (\<lambda>_ s.
      bindR (InitializePaging (mmap b) (hhdm_base b) (kernelEnd s - kernelStart s) (ka_phys_base b) (ka_virt_base b) (fb_address f) (framebuffer_size f) s) (\<lambda>_ s.
      bindR (InitializeIDT s) (\<lambda>_ s. bindR (start_drivers b s) (\<lambda>_ s. Inl (Endless, emit Hlt s))))))"
proof -
  obtain t where t: "InitializeGDT (gdt_table s) s = s\<lparr>trace := t\<rparr>"
    by (simp add: InitializeGDT_def loadgdt_def emit_def Let_def)
  have "InitializeTerminal p w h q (s\<lparr>trace := t\<rparr>) = s\<lparr>fbSetup := True, trace := t @ [FtInit p w h q]\<rparr>" for p w h q
    by (simp add: InitializeTerminal_def emit_def)
  then show ?thesis by - (rule exI, simp add: kmain_def Let_def t assms lift_def)
qed

lemma kmain_acpi:
  assumes bl: "InitializeBootloader (requests s) = Inr b" "first_of (fb b) = Inr f" and ready: "serial_ready s"
    and acpi: "rsdp b \<noteq> 0" "rsdp_rsdt (mem s) (rsdp b) = root" "root \<noteq> 0" "has_sig (mem s) ''RSDT'' (ucast root)" "rsdt_at (mem s) root ts"
  shows "\<exists>t. kmain s = bindR (InitializeAllocator (mmap b) (s\<lparr>fbSetup := True, trace := t,
        mcfgPtr := last_with (mem s) ''MCFG'' ts (mcfgPtr s), madtPtr := last_with (mem s) ''APIC'' ts (madtPtr s)\<rparr>)) (\<lambda>_ s.
      bindR (InitializePaging (mmap b) (hhdm_base b) (kernelEnd s - kernelStart s) (ka_phys_base b) (ka_virt_base b) (fb_address f) (framebuffer_size f) s) (\<lambda>_ s.
      bindR (InitializeIDT s) (\<lambda>_ s. bindR (start_drivers b s) (\<lambda>_ s. Inl (Endless, emit Hlt s)))))"
proof -
  from kmain_start [OF bl] obtain t where km: "kmain s = bindR (InitializeACPI (rsdp b) (s\<lparr>fbSetup := True, trace := t\<rparr>)) (\<lambda>_ s.
      bindR (InitializeAllocator (mmap b) s) (\<lambda>_ s.
      bindR (InitializePaging (mmap b) (hhdm_base b) (kernelEnd s - kernelStart s) (ka_phys_base b) (ka_virt_base b) (fb_address f) (framebuffer_size f) s) (\<lambda>_ s.
      bindR (InitializeIDT s) (\<lambda>_ s. bindR (start_drivers b s) (\<lambda>_ s. Inl (Endless, emit Hlt s))))))" by blast
  let ?s0 = "s\<lparr>fbSetup := True, trace := t\<rparr>"
  have ready1: "serial_ready (s\<lparr>fbSetup := True\<rparr>)" using ready by (simp add: serial_ready_def)
  then have ready0: "serial_ready ?s0" by simp
  from InitializeACPI_messages [OF ready0 acpi(1)] acpi(2-4) obtain u where "InitializeACPI (rsdp b) ?s0 = EnumerateACPITables root (?s0\<lparr>trace := u\<rparr>)" by auto
  with EnumerateACPITables_effect [of "?s0\<lparr>trace := u\<rparr>" root ts] ready1 acpi(5) obtain v where
    "InitializeACPI (rsdp b) ?s0 = Inr ((), s\<lparr>fbSetup := True, trace := v, mcfgPtr := last_with (mem s) ''MCFG'' ts (mcfgPtr s),
      madtPtr := last_with (mem s) ''APIC'' ts (madtPtr s)\<rparr>)" by auto
  then show ?thesis unfolding km by auto
qed

text \<open>With these, the kernel gets to its drivers.\<close>

lemma boot_memory:
  assumes ok: "boot_ok s b f ts es"
  shows "\<exists>s'. kmain s = bindR (InitializeIDT s') (\<lambda>_ s. bindR (start_drivers b s) (\<lambda>_ s. Inl (Endless, emit Hlt s))) \<and>
    irq_boot s' es \<and> implements (mem s') (pml4 s') (default_frame (kernel_info b f s)) \<and> alloc_ok s' \<and>
    (\<forall>q t. path_ok q \<longrightarrow> table_at (mem s') (pml4 s') q = Some t \<longrightarrow> bytes t 4096 \<subseteq> managed_area (managed (mmap b))) \<and>
    idt s' = idt s \<and> code_of s' = code_of s \<and> mcfgPtr s' = last_with (mem s) ''MCFG'' ts (mcfgPtr s) \<and> fbSetup s' \<and>
    (\<forall>x. x \<notin> managed_area (managed (mmap b)) \<longrightarrow> mem s' x = mem s x) \<and>
    tree_ok s' (pml4 s') \<and> table_bytes s' \<union> (\<Union>p \<in> free_pages s'. bytes p 4096) \<subseteq> managed_area (managed (mmap b)) \<and>
    unat (me_length (managed (mmap b))) div 4096 \<le> default_tables (kernel_info b f s) + 1 + card (free_pages s') \<and>
    head_next s' = head_next s \<and> filehead s' = filehead s \<and> elf_name s' = elf_name s \<and> build_date s' = build_date s"
proof -
  let ?e = "managed (mmap b)" and ?root = "rsdp_rsdt (mem s) (rsdp b)"
  from ok have bl: "InitializeBootloader (requests s) = Inr b" "first_of (fb b) = Inr f" and ready: "serial_ready s"
    and acpi: "rsdp b \<noteq> 0" "?root \<noteq> 0" "has_sig (mem s) ''RSDT'' (ucast ?root)" "rsdt_at (mem s) ?root ts"
    and reg: "region_fits ?e" "unat (first_frame ?e) + unat (me_length ?e) \<le> 2 ^ 40"
    and lay: "layout_ok (kernel_info b f s)" "default_tables (kernel_info b f s) < unat (me_length ?e) div 4096"
    by (simp_all add: boot_ok_def Let_def)
  define madt where "madt = last_with (mem s) ''APIC'' ts (madtPtr s)"
  from ok have irq: "madt \<noteq> 0" "madt_at (mem s) madt es" "\<forall>x \<in> bytes (idt s) 4096. mem s x = 0"
    "bytes (idt s) 4096 \<inter> bytes madt (52 + ics_len es) = {}" "(bytes (idt s) 4096 \<union> bytes madt (52 + ics_len es)) \<inter> managed_area ?e = {}"
    by (simp_all add: boot_ok_def Let_def madt_def)
  from kmain_acpi [OF bl ready acpi(1) refl acpi(2-4)] obtain v where
    km: "kmain s = bindR (InitializeAllocator (mmap b) (s\<lparr>fbSetup := True, trace := v, mcfgPtr := last_with (mem s) ''MCFG'' ts (mcfgPtr s), madtPtr := madt\<rparr>)) (\<lambda>_ s.
      bindR (InitializePaging (mmap b) (hhdm_base b) (kernelEnd s - kernelStart s) (ka_phys_base b) (ka_virt_base b) (fb_address f) (framebuffer_size f) s) (\<lambda>_ s.
      bindR (InitializeIDT s) (\<lambda>_ s. bindR (start_drivers b s) (\<lambda>_ s. Inl (Endless, emit Hlt s)))))" unfolding madt_def by blast
  let ?s1 = "s\<lparr>fbSetup := True, trace := v, mcfgPtr := last_with (mem s) ''MCFG'' ts (mcfgPtr s), madtPtr := madt\<rparr>"
  from boot_allocator [OF reg(1) refl refl reg(2), of ?s1] obtain s2 m2 where s2: "InitializeAllocator (mmap b) ?s1 = Inr ((), s2)" "alloc_ok s2"
    "card (free_pages s2) = unat (me_length ?e) div 4096" "\<forall>p \<in> free_pages s2. unat p < 2 ^ 40" "table_bytes s2 \<union> (\<Union>p \<in> free_pages s2. bytes p 4096) \<subseteq> managed_area ?e"
    "s2 = ?s1\<lparr>FrameList := me_base ?e, mem := m2, LargestMemSegSize := me_length ?e\<rparr>" "\<forall>x. x \<notin> managed_area ?e \<longrightarrow> m2 x = mem s x" by auto
  have g: "kernel_info b f s = \<lparr>gp_mmap = mmap b, gp_hhdm_base = hhdm_base b, gp_kernelSize = kernelEnd s2 - kernelStart s2, gp_kernelPhysBase = ka_phys_base b,
      gp_kernelVirtBase = ka_virt_base b, gp_fbBase = fb_address f, gp_fbSize = framebuffer_size f\<rparr>" by (simp add: kernel_info_def s2(6))
  from InitializePaging_builds [OF s2(2,4) g lay(1)] lay(2) s2(3) obtain s3 m3 where
    s3: "InitializePaging (mmap b) (hhdm_base b) (kernelEnd s2 - kernelStart s2) (ka_phys_base b) (ka_virt_base b) (fb_address f) (framebuffer_size f) s2 = Inr ((), s3)"
    "implements (mem s3) (pml4 s3) (default_frame (kernel_info b f s))" "alloc_ok s3"
    "\<forall>x. x \<notin> table_bytes s2 \<longrightarrow> x \<notin> (\<Union>p \<in> free_pages s2. bytes p 4096) \<longrightarrow> mem s3 x = mem s2 x"
    "\<forall>q t. path_ok q \<longrightarrow> table_at (mem s3) (pml4 s3) q = Some t \<longrightarrow> bytes t 4096 \<subseteq> table_bytes s2 \<union> (\<Union>p \<in> free_pages s2. bytes p 4096)"
    "s3 = s2\<lparr>mem := m3, pml4 := pml4 s3, GlobalPagingInfo := kernel_info b f s, trace := trace s3\<rparr>"
    "tree_ok s3 (pml4 s3)" "free_pages s3 \<subseteq> free_pages s2" "table_bytes s3 = table_bytes s2"
    "card (free_pages s2) \<le> default_tables (kernel_info b f s) + 1 + card (free_pages s3)" by auto
  have run: "kmain s = bindR (InitializeIDT s3) (\<lambda>_ s. bindR (start_drivers b s) (\<lambda>_ s. Inl (Endless, emit Hlt s)))"
    by (simp only: km s2(1) s3(1) bindR_Inr)
  have out: "mem s3 x = mem s x" if "x \<notin> managed_area ?e" for x
  proof -
    have "x \<notin> table_bytes s2" "x \<notin> (\<Union>p \<in> free_pages s2. bytes p 4096)" using that s2(5) by blast+
    then have "mem s3 x = mem s2 x" using s3(4) by blast
    then show ?thesis using s2(7) that by (simp add: s2(6))
  qed
  have tabs: "bytes t 4096 \<subseteq> managed_area ?e" if "path_ok q" "table_at (mem s3) (pml4 s3) q = Some t" for q t
    using s3(5) that s2(5) by blast
  have v: "madtPtr s3 = madtPtr (s2\<lparr>mem := m3, pml4 := pml4 s3, GlobalPagingInfo := kernel_info b f s, trace := trace s3\<rparr>)"
    "idt s3 = idt (s2\<lparr>mem := m3, pml4 := pml4 s3, GlobalPagingInfo := kernel_info b f s, trace := trace s3\<rparr>)"
    "code_of s3 = code_of (s2\<lparr>mem := m3, pml4 := pml4 s3, GlobalPagingInfo := kernel_info b f s, trace := trace s3\<rparr>)"
    "mcfgPtr s3 = mcfgPtr (s2\<lparr>mem := m3, pml4 := pml4 s3, GlobalPagingInfo := kernel_info b f s, trace := trace s3\<rparr>)"
    "fbSetup s3 = fbSetup (s2\<lparr>mem := m3, pml4 := pml4 s3, GlobalPagingInfo := kernel_info b f s, trace := trace s3\<rparr>)"
    "device s3 = device (s2\<lparr>mem := m3, pml4 := pml4 s3, GlobalPagingInfo := kernel_info b f s, trace := trace s3\<rparr>)"
    "head_next s3 = head_next (s2\<lparr>mem := m3, pml4 := pml4 s3, GlobalPagingInfo := kernel_info b f s, trace := trace s3\<rparr>)"
    "filehead s3 = filehead (s2\<lparr>mem := m3, pml4 := pml4 s3, GlobalPagingInfo := kernel_info b f s, trace := trace s3\<rparr>)"
    "elf_name s3 = elf_name (s2\<lparr>mem := m3, pml4 := pml4 s3, GlobalPagingInfo := kernel_info b f s, trace := trace s3\<rparr>)"
    "build_date s3 = build_date (s2\<lparr>mem := m3, pml4 := pml4 s3, GlobalPagingInfo := kernel_info b f s, trace := trace s3\<rparr>)"
    by (rule arg_cong [OF s3(6)])+
  note v = v [unfolded s2(6), simplified]
  have "irq_boot s3 es"
  proof -
    have z: "mem s3 x = mem s x" if "x \<in> bytes (idt s) 4096 \<union> bytes madt (52 + ics_len es)" for x
      using that irq(5) by (intro out) blast
    have "madt_at (mem s3) madt es" by (rule madt_at_cong [OF _ irq(2)]) (rule z, blast)
    moreover have "serial_ready s3" using ready v(6) by (simp add: serial_ready_def)
    ultimately show ?thesis using irq(1,3,4) z by (simp add: irq_boot_def v)
  qed
  moreover have "table_bytes s3 \<union> (\<Union>p \<in> free_pages s3. bytes p 4096) \<subseteq> managed_area ?e" using s2(5) s3(8,9) by blast
  ultimately show ?thesis using run s3(2,3,7,10) s2(3) out tabs v by (intro exI [of _ s3]) simp
qed

lemma boot_interrupts:
  assumes "boot_ok s b f ts es"
  shows "\<exists>s'. kmain s = bindR (start_drivers b s') (\<lambda>_ s. Inl (Endless, emit Hlt s)) \<and> fbSetup s' \<and> serial_ready s' \<and> alloc_ok s' \<and>
    (\<forall>m. (\<forall>x \<in> managed_area (managed (mmap b)). x \<notin> heap_own s' [] \<longrightarrow> m x = mem s' x) \<longrightarrow>
      implements m (pml4 s') (default_frame (kernel_info b f s))) \<and> last (trace s') = Sti \<and>
    idtr_limit s' = 0x0fff \<and> idtr_ptr s' = idt s \<and> (\<forall>v < 256. gate_target (idt s) (mem s') v = map_option (code_of s) (map_of idt_plan v)) \<and>
    mcfgPtr s' = last_with (mem s) ''MCFG'' ts (mcfgPtr s) \<and> heap_own s' [] \<subseteq> managed_area (managed (mmap b)) \<and>
    unat (me_length (managed (mmap b))) div 4096 \<le> default_tables (kernel_info b f s) + 1 + card (free_pages s') \<and>
    (\<forall>x. x \<notin> managed_area (managed (mmap b)) \<longrightarrow> x \<notin> bytes (idt s) 4096 \<longrightarrow> mem s' x = mem s x) \<and>
    head_next s' = head_next s \<and> filehead s' = filehead s \<and> elf_name s' = elf_name s \<and> build_date s' = build_date s"
proof -
  let ?area = "managed_area (managed (mmap b))"
  from boot_memory [OF assms] obtain s1 where s1: "kmain s = bindR (InitializeIDT s1) (\<lambda>_ s. bindR (start_drivers b s) (\<lambda>_ s. Inl (Endless, emit Hlt s)))"
    "irq_boot s1 es" "implements (mem s1) (pml4 s1) (default_frame (kernel_info b f s))" "alloc_ok s1"
    "\<forall>q t. path_ok q \<longrightarrow> table_at (mem s1) (pml4 s1) q = Some t \<longrightarrow> bytes t 4096 \<subseteq> ?area"
    "idt s1 = idt s" "code_of s1 = code_of s" "mcfgPtr s1 = last_with (mem s) ''MCFG'' ts (mcfgPtr s)" "fbSetup s1"
    "\<forall>x. x \<notin> ?area \<longrightarrow> mem s1 x = mem s x" "tree_ok s1 (pml4 s1)"
    "table_bytes s1 \<union> (\<Union>p \<in> free_pages s1. bytes p 4096) \<subseteq> ?area"
    "unat (me_length (managed (mmap b))) div 4096 \<le> default_tables (kernel_info b f s) + 1 + card (free_pages s1)"
    "head_next s1 = head_next s" "filehead s1 = filehead s" "elf_name s1 = elf_name s" "build_date s1 = build_date s"
    by (elim exE conjE) (rule that; assumption)
  from InitializeIDT_effect [OF s1(2)] obtain t la io where ini: "InitializeIDT s1 =
      Inr ((), s1\<lparr>mem := idt_mem s1, idtr_limit := 0x0fff, idtr_ptr := idt s1, localAPIC := la, ioAPIC := io, trace := t\<rparr>)" "last t = Sti" by force
  define s2 where "s2 = s1\<lparr>mem := idt_mem s1, idtr_limit := 0x0fff, idtr_ptr := idt s1, localAPIC := la, ioAPIC := io, trace := t\<rparr>"
  have away: "bytes (idt s) 4096 \<inter> ?area = {}" using assms by (auto simp: boot_ok_def Let_def)
  have keep: "idt_mem s1 x = mem s1 x" if "x \<in> ?area" for x
    by (rule idt_mem_outside) (use that away s1(6) in auto)
  have "alloc_ok (s1\<lparr>mem := idt_mem s1\<rparr>) \<and> free_pages (s1\<lparr>mem := idt_mem s1\<rparr>) = free_pages s1 \<and> table_bytes (s1\<lparr>mem := idt_mem s1\<rparr>) = table_bytes s1"
    using s1(12) by (intro pages.client_write s1(4) keep) blast
  then have al: "alloc_ok s2" "free_pages s2 = free_pages s1" "table_bytes s2 = table_bytes s1" by (simp_all add: s2_def alloc_defs)
  have own: "heap_own s2 [] = table_bytes s1 \<union> (\<Union>p \<in> free_pages s1. bytes p 4096)" by (simp add: heap_own_def al)
  have imp: "implements m (pml4 s2) (default_frame (kernel_info b f s))"
    if m: "\<forall>x \<in> ?area. x \<notin> heap_own s2 [] \<longrightarrow> m x = mem s2 x" for m
  proof -
    have "m x = mem s1 x" if q: "path_ok q" "table_at (mem s1) (pml4 s1) q = Some tab" "x \<in> bytes tab 4096" for q tab x
    proof -
      have o: "owned_page s1 tab" by (rule tree_okD(1) [OF s1(11) q(1,2)])
      have "bytes tab 4096 \<inter> bytes p 4096 = {}" if "p \<in> free_pages s1" for p
        using o that pages.avail_page [OF s1(4) that] by (intro pages_disjoint) (auto simp: owned_page_def)
      then have "x \<notin> heap_own s2 []" using o q(3) unfolding own owned_page_def by blast
      moreover have "x \<in> ?area" using s1(5) q by blast
      ultimately show ?thesis using m keep by (simp add: s2_def)
    qed
    then have "implements m (pml4 s1) (default_frame (kernel_info b f s))" by (rule implements_cong [OF s1(3)])
    then show ?thesis by (simp add: s2_def)
  qed
  have zero: "mem s1 x = 0" if "x \<in> bytes (idt s1) 4096" for x using s1(2) that by (simp add: irq_boot_def)
  have tgt: "gate_target (idt s) (mem s2) v = map_option (code_of s) (map_of idt_plan v)" if "v < 256" for v
    using idt_mem_target [OF zero that] s1(6,7) by (simp add: s2_def)
  have out: "mem s2 x = mem s x" if "x \<notin> ?area" "x \<notin> bytes (idt s) 4096" for x
    using s1(6,10) that by (simp add: s2_def idt_mem_outside)
  have run: "kmain s = bindR (start_drivers b s2) (\<lambda>_ s. Inl (Endless, emit Hlt s))" unfolding s1(1) ini(1) s2_def by simp
  have sub: "heap_own s2 [] \<subseteq> ?area" using s1(12) by (simp add: own)
  have v: "fbSetup s2" "serial_ready s2" "last (trace s2) = Sti" "idtr_limit s2 = 0x0fff" "idtr_ptr s2 = idt s"
    "mcfgPtr s2 = last_with (mem s) ''MCFG'' ts (mcfgPtr s)" "head_next s2 = head_next s" "filehead s2 = filehead s"
    "elf_name s2 = elf_name s" "build_date s2 = build_date s"
    using s1 ini(2) by (simp_all add: s2_def irq_boot_def serial_ready_def)
  show ?thesis
    by (rule exI [of _ s2], intro conjI allI impI ballI)
      (use run al imp tgt out sub v s1(13) in \<open>simp_all only: al(2)\<close>)
qed

section \<open>A machine to boot\<close>

text \<open>
  The memory map of \<open>big_map\<close>, an RSDT at \<open>0x700000\<close> that names an MCFG without entries and a MADT with one I/O APIC, a
  framebuffer of 1024 by 768, and the array \<open>idt\<close> at \<open>0x500000\<close>.
\<close>

definition boot_mem :: memory where
  "boot_mem = store32 (store32 (store32 (store32 (store32 (store32 (store32 (store32 (store32 (store32 (store32 (store32 (\<lambda>_. 0)
     0x600010 0x700000) 0x700000 0x54445352) 0x700004 44) 0x700024 0x710000) 0x700028 0x720000) 0x710000 0x4746434D) 0x710004 44)
     0x720000 0x43495041) 0x720004 56) 0x720024 0xFEE00000) 0x72002C 0xC01) 0x720030 0xFEC00000"

definition boot_fb :: limine_framebuffer where
  "boot_fb = \<lparr>fb_address = 0xFFFF8000FD000000, fb_width = 1024, fb_height = 768, fb_pitch = 4096, fb_bpp = 4\<rparr>"

definition boot_requests :: limine_requests where
  "boot_requests = \<lparr>framebuffer_request = Some [boot_fb], mm_request = Some big_map, rsdp_request = Some 0x600000,
     hhdm_request = Some 0xFFFF800000000000, ka_request = Some (0x7E000000, 0xFFFFFFFF80000000),
     kf_request = Some \<lparr>file_address = 0, file_size = 0x1800\<rparr>, module_request = None, efi_request = None\<rparr>"

definition boot_kernel :: kernel where
  "boot_kernel = idts.extend (demo_idt\<lparr>mem := boot_mem, madtPtr := 0, idt := 0x500000\<rparr>)
     (kernel.fields boot_requests 0xFFFFFFFF80000000 0xFFFFFFFF80001800 0xFFFFFFFF80001000 0xFFFFFFFF80001100 (lit ''today''))"

definition boot_loader :: Bootloader where
  "boot_loader = \<lparr>fb = Some [boot_fb], mmap = big_map, rsdp = 0x600000, ka_phys_base = 0x7E000000, ka_virt_base = 0xFFFFFFFF80000000,
     hhdm_base = 0xFFFF800000000000, kernelSize = 0x1800, bl_mod = None, efiSystemTable = 0\<rparr>"

lemma boot_kernel_fields:
  "mem boot_kernel = boot_mem" "requests boot_kernel = boot_requests" "madtPtr boot_kernel = 0" "idt boot_kernel = 0x500000"
  "kernelStart boot_kernel = 0xFFFFFFFF80000000" "kernelEnd boot_kernel = 0xFFFFFFFF80001800" "serial_ready boot_kernel" "code_of boot_kernel = demo_code"
  using demo_apic_mem(3) [of 12]
  by (simp_all add: boot_kernel_def idts.defs kernel.defs demo_idt_def apic.defs serial_ready_def)

text \<open>Any memory that agrees with it where the tables and the array \<open>idt\<close> are.\<close>

lemma boot_tables:
  assumes same: "\<And>x. x \<in> bytes 0x500000 0x230000 \<Longrightarrow> m x = boot_mem x"
  shows "rsdp_rsdt m 0x600000 = 0x700000" "has_sig m ''RSDT'' 0x700000" "rsdt_at m 0x700000 [0x710000, 0x720000]"
    "last_with m ''APIC'' [0x710000, 0x720000] 0 = 0x720000" "madt_at m 0x720000 [(1, 12, 0xFEC00000)]"
    "last_with m ''MCFG'' [0x710000, 0x720000] 0 = 0x710000" "sdt_length m 0x710000 = 44"
    "x \<in> bytes 0x500000 4096 \<Longrightarrow> m x = 0"
proof -
  have byte: "m a = boot_mem a" if "0x500000 \<le> unat a" "unat a < 0x730000" for a
    by (rule same) (use that in \<open>simp add: bytes_unat\<close>)
  have load: "load32 m a = load32 boot_mem a" if "0x500000 \<le> unat a" "unat a + 4 \<le> 0x730000" for a
    by (rule load_le_cong, rule same) (use that bytes_subset [of "0x500000" a 4 "0x230000"] in auto)
  show "rsdp_rsdt m 0x600000 = 0x700000" by (simp add: rsdp_rsdt_def load) (simp add: boot_mem_def load_store_away)
  have l: "load32 m 0x700004 = 44" "load32 m 0x700024 = 0x710000" "load32 m 0x700028 = 0x720000"
    "load32 m 0x720004 = 56" "load32 m 0x720030 = 0xFEC00000" "load32 m 0x710004 = 44"
    by (simp_all add: load) (simp_all add: boot_mem_def load_store_away)
  show "rsdt_at m 0x700000 [0x710000, 0x720000]" by (auto simp: rsdt_at_def sdt_length_def l less_Suc_eq)
  show "sdt_length m 0x710000 = 44" by (simp add: sdt_length_def l)
  have sig: "has_sig m sig p \<longleftrightarrow> m p = of_char (sig ! 0) \<and> m (p + 1) = of_char (sig ! 1) \<and> m (p + 2) = of_char (sig ! 2) \<and> m (p + 3) = of_char (sig ! 3)"
    if "length sig = 4" for sig p using that by (simp add: has_sig_def numeral_eq_Suc less_Suc_eq all_conj_distrib)
  show "has_sig m ''RSDT'' 0x700000"
    by (subst sig) (simp_all add: byte boot_mem_def store_le_def drop_bit_eq_div unsigned_minus_1_eq_mask mask_eq_exp_minus_1)
  show "last_with m ''APIC'' [0x710000, 0x720000] 0 = 0x720000" "last_with m ''MCFG'' [0x710000, 0x720000] 0 = 0x710000"
    by (simp_all add: last_with_def sig byte boot_mem_def store_le_def drop_bit_eq_div unsigned_minus_1_eq_mask mask_eq_exp_minus_1)
  have "ic_type m 0x72002C = 1" "ic_length m 0x72002C = 12"
    by (simp_all add: byte boot_mem_def ic_type_def ic_length_def store_le_def drop_bit_eq_div)
  then show "madt_at m 0x720000 [(1, 12, 0xFEC00000)]" by (simp add: madt_at_def l ics_len_def ic_address_def)
  assume x: "x \<in> bytes 0x500000 4096"
  have away: "x \<notin> bytes a 4" if "bytes 0x500000 4096 \<inter> bytes a 4 = {}" for a using that x by blast
  have "x \<notin> bytes 0x600010 4" "x \<notin> bytes 0x700000 4" "x \<notin> bytes 0x700004 4" "x \<notin> bytes 0x700024 4" "x \<notin> bytes 0x700028 4" "x \<notin> bytes 0x710000 4"
    "x \<notin> bytes 0x710004 4" "x \<notin> bytes 0x720000 4" "x \<notin> bytes 0x720004 4" "x \<notin> bytes 0x720024 4" "x \<notin> bytes 0x72002C 4" "x \<notin> bytes 0x720030 4"
    by (rule away, rule bytes_disjoint; simp)+
  moreover have "m x = boot_mem x" using x bytes_mono [of 4096 "0x230000" "0x500000"] by (intro same) auto
  ultimately show "m x = 0" by (simp add: boot_mem_def store_le_outside)
qed

lemma boot_area: "managed_area (managed big_map) \<subseteq> bytes 0x40000000 0x2020000"
proof -
  have "first_frame (managed big_map) = 0x40020000" by (simp add: managed_big first_frame_def ALIGN_UP_def)
  then show ?thesis unfolding managed_area_def by (auto simp: managed_big bytes_unat)
qed

text \<open>With boot modules, another memory and another place for the list head of the RAM disk and the file name.\<close>

definition boot_machine :: "memory \<Rightarrow> limine_file list option \<Rightarrow> addr \<Rightarrow> addr \<Rightarrow> kernel" where
  "boot_machine m md fh name = boot_kernel\<lparr>mem := m, requests := boot_requests\<lparr>module_request := md\<rparr>, filehead := fh, elf_name := name\<rparr>"

lemma boot_machine_info: "kernel_info (boot_loader\<lparr>bl_mod := md\<rparr>) boot_fb (boot_machine m md fh name) = big_info"
  by (simp add: kernel_info_def boot_loader_def boot_machine_def boot_kernel_fields big_info_def framebuffer_size_def boot_fb_def)

lemma boot_machine_ok:
  assumes same: "\<And>x. x \<in> bytes 0x500000 0x230000 \<Longrightarrow> m x = boot_mem x"
  shows "boot_ok (boot_machine m md fh name) (boot_loader\<lparr>bl_mod := md\<rparr>) boot_fb [0x710000, 0x720000] [(1, 12, 0xFEC00000)]"
proof -
  let ?s = "boot_machine m md fh name" and ?b = "boot_loader\<lparr>bl_mod := md\<rparr>"
  have bl: "InitializeBootloader (requests ?s) = Inr ?b"
    by (cases md) (simp_all add: InitializeBootloader_def boot_machine_def boot_requests_def boot_loader_def)
  have f: "fb ?b = Some [boot_fb]" "mmap ?b = big_map" "rsdp ?b = 0x600000" by (simp_all add: boot_loader_def)
  have v: "mem ?s = m" "madtPtr ?s = 0" "idt ?s = 0x500000" "serial_ready ?s"
    using boot_kernel_fields by (simp_all add: boot_machine_def serial_ready_def)
  have reg: "region_fits (managed big_map)" by (simp add: managed_big region_fits_def)
  have ff: "first_frame (managed big_map) = 0x40020000" by (simp add: managed_big first_frame_def ALIGN_UP_def)
  have apart: "bytes 0x500000 4096 \<inter> bytes 0x720000 64 = {}" "bytes 0x500000 4096 \<inter> bytes 0x40000000 0x2020000 = {}"
    "bytes 0x720000 64 \<inter> bytes 0x40000000 0x2020000 = {}" by (rule bytes_disjoint; simp)+
  then have "(bytes 0x500000 4096 \<union> bytes 0x720000 64) \<inter> managed_area (managed big_map) = {}" using boot_area by blast
  with apart(1) boot_tables [OF same] reg big_layout bl show ?thesis
    by (simp add: boot_ok_def Let_def v boot_machine_info f first_of_def ff [unfolded managed_big] managed_big ics_len_def)
qed

lemma boot_kernel_ok: "boot_ok boot_kernel boot_loader boot_fb [0x710000, 0x720000] [(1, 12, 0xFEC00000)]"
proof -
  have "boot_machine boot_mem None (filehead boot_kernel) (elf_name boot_kernel) = boot_kernel"
    by (simp add: boot_machine_def boot_kernel_def idts.defs kernel.defs boot_requests_def)
  moreover have "boot_loader\<lparr>bl_mod := None\<rparr> = boot_loader" by (simp add: boot_loader_def)
  ultimately show ?thesis using boot_machine_ok [of boot_mem None "filehead boot_kernel" "elf_name boot_kernel"] by simp
qed

section \<open>Properties\<close>

text \<open>
  C1: the start of the kernel. With the responses of the bootloader, sound ACPI tables and enough memory, \<open>_kmain\<close>
  reaches its drivers in a state in which the processor translates by the kernel's own tables, exactly
  as \<open>default_frame\<close> says for the layout the bootloader reported; every planned interrupt vector is
  delivered to its routine; interrupts are enabled, and memory outside the managed region and the array
  \<open>idt\<close> is as it was.
\<close>

theorem kmain_boots:
  assumes "boot_ok s b f ts es"
  shows "\<exists>s'. kmain s = bindR (start_drivers b s') (\<lambda>_ s. Inl (Endless, emit Hlt s)) \<and> fbSetup s' \<and>
    implements (mem s') (pml4 s') (default_frame (kernel_info b f s)) \<and> last (trace s') = Sti \<and>
    (\<forall>v < 256. delivered s' v = map_option (code_of s) (map_of idt_plan v)) \<and>
    mcfgPtr s' = last_with (mem s) ''MCFG'' ts (mcfgPtr s) \<and>
    (\<forall>x. x \<notin> managed_area (managed (mmap b)) \<longrightarrow> x \<notin> bytes (idt s) 4096 \<longrightarrow> mem s' x = mem s x)"
proof -
  from boot_interrupts [OF assms] obtain s' where s': "kmain s = bindR (start_drivers b s') (\<lambda>_ s. Inl (Endless, emit Hlt s))" "fbSetup s'"
    "\<forall>m. (\<forall>x \<in> managed_area (managed (mmap b)). x \<notin> heap_own s' [] \<longrightarrow> m x = mem s' x) \<longrightarrow> implements m (pml4 s') (default_frame (kernel_info b f s))"
    "last (trace s') = Sti" "idtr_limit s' = 0x0fff" "idtr_ptr s' = idt s" "\<forall>v < 256. gate_target (idt s) (mem s') v = map_option (code_of s) (map_of idt_plan v)"
    "mcfgPtr s' = last_with (mem s) ''MCFG'' ts (mcfgPtr s)"
    "\<forall>x. x \<notin> managed_area (managed (mmap b)) \<longrightarrow> x \<notin> bytes (idt s) 4096 \<longrightarrow> mem s' x = mem s x" by (elim exE conjE) (rule that; assumption)
  have "implements (mem s') (pml4 s') (default_frame (kernel_info b f s))" using s'(3) by simp
  moreover have "\<forall>v < 256. delivered s' v = map_option (code_of s) (map_of idt_plan v)" using s'(5,6,7) by (simp add: delivered_def)
  ultimately show ?thesis using s'(1,2,4,8,9) by (intro exI [of _ s']) simp
qed

theorem kmain_boots_witness:
  "\<exists>s'. kmain boot_kernel = bindR (start_drivers boot_loader s') (\<lambda>_ s. Inl (Endless, emit Hlt s)) \<and>
     delivered s' 40 = Some 0xFFFFFFFF80001000 \<and> last (trace s') = Sti"
  using kmain_boots [OF boot_kernel_ok] by (auto simp: boot_kernel_fields idt_plan_def demo_code_def)

text \<open>
  C36: what stops the start early. Without the response for the direct map or for the kernel file, and without a framebuffer,
  the kernel dereferences a null pointer before anything is shown; without an RSDP, or without a usable
  region of memory, it panics with a message.
\<close>

theorem kmain_stops:
  assumes "serial_ready s"
  shows "(hhdm_request (requests s) = None \<or> kf_request (requests s) = None \<longrightarrow>
      kmain s = Inl (NullDeref, InitializeGDT (gdt_table s) s)) \<and>
    (framebuffer_request (requests s) = None \<longrightarrow> kmain s = Inl (NullDeref, InitializeGDT (gdt_table s) s)) \<and>
    (InitializeBootloader (requests s) = Inr b \<and> first_of (fb b) = Inr f \<and> rsdp b = 0 \<longrightarrow>
      (\<exists>s'. kmain s = Inl (Panicked ''RSD PTR == 0. Unable to initialize ACPI.'', s') \<and> fbSetup s')) \<and>
    (InitializeBootloader (requests s) = Inr b \<and> first_of (fb b) = Inr f \<and> rsdp b \<noteq> 0 \<and> rsdp_rsdt (mem s) (rsdp b) \<noteq> 0 \<and>
      has_sig (mem s) ''RSDT'' (ucast (rsdp_rsdt (mem s) (rsdp b))) \<and> rsdt_at (mem s) (rsdp_rsdt (mem s) (rsdp b)) ts \<and>
      me_length (managed (mmap b)) = 0 \<longrightarrow> (\<exists>s'. kmain s = Inl (Panicked ''Detected no free memory!'', s') \<and> fbSetup s'))"
proof (intro conjI impI)
  have r: "requests (InitializeGDT (gdt_table s) s) = requests s" by (simp add: InitializeGDT_def loadgdt_def emit_def Let_def)
  show "kmain s = Inl (NullDeref, InitializeGDT (gdt_table s) s)" if "hhdm_request (requests s) = None \<or> kf_request (requests s) = None"
    using InitializeBootloader_null [OF that] by (simp add: kmain_def Let_def r lift_def)
  show "kmain s = Inl (NullDeref, InitializeGDT (gdt_table s) s)" if "framebuffer_request (requests s) = None"
  proof (cases "hhdm_request (requests s) = None \<or> kf_request (requests s) = None")
    case True
    then show ?thesis using InitializeBootloader_null [OF True] by (simp add: kmain_def Let_def r lift_def)
  next
    case False
    then obtain off kf where "hhdm_request (requests s) = Some off" "kf_request (requests s) = Some kf" by auto
    from InitializeBootloader_total [OF this] that show ?thesis by (simp add: kmain_def Let_def r lift_def first_of_def)
  qed
  have halts: "\<exists>s'. (panic msg u :: (unit, 'a kernel_scheme) res) = Inl (Panicked msg, s') \<and> fbSetup s'" if "serial_ready u" "fbSetup u" for msg u
    using panic_halts [OF that(1), of msg] that(2) by auto
  show "\<exists>s'. kmain s = Inl (Panicked ''RSD PTR == 0. Unable to initialize ACPI.'', s') \<and> fbSetup s'"
    if b: "InitializeBootloader (requests s) = Inr b \<and> first_of (fb b) = Inr f \<and> rsdp b = 0"
  proof -
    from kmain_start [of s b f] b obtain t k where km: "kmain s = bindR (InitializeACPI (rsdp b) (s\<lparr>fbSetup := True, trace := t\<rparr>)) k" by blast
    have "serial_ready (s\<lparr>fbSetup := True, trace := t\<rparr>)" "fbSetup (s\<lparr>fbSetup := True, trace := t\<rparr>)" using assms by (simp_all add: serial_ready_def)
    from halts [OF this, of "''RSD PTR == 0. Unable to initialize ACPI.''"] b show ?thesis unfolding km by (auto simp: InitializeACPI_def)
  qed
  show "\<exists>s'. kmain s = Inl (Panicked ''Detected no free memory!'', s') \<and> fbSetup s'"
    if b: "InitializeBootloader (requests s) = Inr b \<and> first_of (fb b) = Inr f \<and> rsdp b \<noteq> 0 \<and> rsdp_rsdt (mem s) (rsdp b) \<noteq> 0 \<and>
      has_sig (mem s) ''RSDT'' (ucast (rsdp_rsdt (mem s) (rsdp b))) \<and> rsdt_at (mem s) (rsdp_rsdt (mem s) (rsdp b)) ts \<and> me_length (managed (mmap b)) = 0"
  proof -
    have p: "InitializeAllocator (mmap b) u = panic ''Detected no free memory!'' u" for u :: "'a kernel_scheme"
      using b by (simp add: InitializeAllocator_def managed_def Let_def)
    from kmain_acpi [of s b f "rsdp_rsdt (mem s) (rsdp b)" ts] b assms obtain t x y k where
      km: "kmain s = bindR (InitializeAllocator (mmap b) (s\<lparr>fbSetup := True, trace := t, mcfgPtr := x, madtPtr := y\<rparr>)) k" by blast
    have "serial_ready (s\<lparr>fbSetup := True, trace := t, mcfgPtr := x, madtPtr := y\<rparr>)" "fbSetup (s\<lparr>fbSetup := True, trace := t, mcfgPtr := x, madtPtr := y\<rparr>)"
      using assms by (simp_all add: serial_ready_def)
    from halts [OF this, of "''Detected no free memory!''"] show ?thesis unfolding km p by auto
  qed
qed

theorem kmain_stops_witness:
  "kmain (boot_kernel\<lparr>requests := boot_requests\<lparr>framebuffer_request := None\<rparr>\<rparr>) =
     Inl (NullDeref, InitializeGDT 0xFFFFFFFF80001000 (boot_kernel\<lparr>requests := boot_requests\<lparr>framebuffer_request := None\<rparr>\<rparr>))"
proof -
  let ?s = "boot_kernel\<lparr>requests := boot_requests\<lparr>framebuffer_request := None\<rparr>\<rparr>"
  have "serial_ready ?s" using boot_kernel_fields(7) by (simp add: serial_ready_def)
  from kmain_stops [OF this] have "kmain ?s = Inl (NullDeref, InitializeGDT (gdt_table ?s) ?s)" by simp
  then show ?thesis by (simp add: boot_kernel_def idts.defs kernel.defs)
qed

end
