(* ===== verification/Boot.thy ===== *)
theory Boot
  imports Kmain
begin

text \<open>
  The whole run of \<open>_kmain\<close>, \<open>bootstrap/kmain.c\<close>: the start, the drivers, the RAM disk of the first boot
  module and the program \<open>a.out\<close> in it, down to the halt at the end.
\<close>

section \<open>The drivers\<close>

text \<open>The memory the kernel sets up before its drivers: the managed region and the array \<open>idt\<close>.\<close>

definition kernel_writes :: "'z kernel_scheme \<Rightarrow> Bootloader \<Rightarrow> addr set" where
  "kernel_writes s b = managed_area (managed (mmap b)) \<union> bytes (idt s) 4096"

text \<open>Either there is no MCFG, or it is sound and every function it leads to has a name.\<close>

definition pcie_ok :: "memory \<Rightarrow> addr \<Rightarrow> (addr \<times> u8 \<times> u8) list \<Rightarrow> bool" where
  "pcie_ok m p ps \<longleftrightarrow> (p \<noteq> 0 \<longrightarrow> mcfg_at m p ps \<and> list_all (all_named m) ps)"

lemma pcie_returns:
  assumes "serial_ready s" and "pcie_ok (mem s) (mcfgPtr s) ps"
  shows "\<exists>t. InitializePCIE s = Inr ((), s\<lparr>trace := t\<rparr>)"
proof (cases "mcfgPtr s = 0")
  case True
  let ?msg = "''System ACPI tables do not contain MCFG -- unable to initialize PCI-e.''"
  obtain out where out: "renders [(lit (replicate 46 (CHR ''!'') @ newline), []), (lit (''Soft error occured in kernel: %s'' @ newline), [Str (lit ?msg)]),
      (lit (replicate 46 (CHR ''!'') @ newline @ newline @ newline), [])] = Some out" by (simp add: render_plain)
  have ready: "serial_ready (s\<lparr>trace := t\<rparr>)" for t using assms(1) by simp
  have soft: "outputs (s\<lparr>trace := t\<rparr>) (KernelSoftError ?msg (s\<lparr>trace := t\<rparr>)) out" for t
    unfolding KernelSoftError_def by (rule printfs_outputs [OF ready out])
  have "outputs s (InitializePCIE s) (lit (''PCI driver initializing...'' @ newline @ rule_line) @ out)"
    by (rule InitializePCIE_start [OF assms(1)]) (simp only: True if_True soft simp_thms)
  then show ?thesis by (auto elim: outputsE)
next
  case False
  then show ?thesis using pcie_outputs [OF assms(1) False] assms(2) by (auto simp: pcie_ok_def elim!: outputsE)
qed

lemma InitializePIT_trace: "\<exists>t. InitializePIT s = s\<lparr>trace := t\<rparr>"
  unfolding InitializePIT_def outb_def io_wait_def emit_def Let_def by (rule exI) simp

lemma drivers_start:
  assumes ready: "serial_ready s" and pcie: "pcie_ok (mem s) (mcfgPtr s) ps" and md: "first_of (bl_mod b) = Inr f"
  shows "\<exists>t. start_drivers b s = bindR (InitializeRamdisk (file_address f) (s\<lparr>trace := t\<rparr>)) (\<lambda>_ s. elf_load (elf_name s) s)"
proof -
  have "outputs s (printf (lit (''System/14 kernel, compiled on %s'' @ newline)) [Str (build_date s)] s)
      (lit ''System/14 kernel, compiled on '' @ build_date s @ [10])"
    by (rule printf_outputs [OF ready]) simp
  then obtain t1 where t1: "printf (lit (''System/14 kernel, compiled on %s'' @ newline)) [Str (build_date s)] s = Inr ((), s\<lparr>trace := t1\<rparr>)"
    by (auto elim: outputsE)
  obtain t2 where t2: "InitializePIT (s\<lparr>trace := t1\<rparr>) = s\<lparr>trace := t2\<rparr>"
    using InitializePIT_trace [of "s\<lparr>trace := t1\<rparr>"] by auto
  obtain t3 where t3: "InitializePCIE (s\<lparr>trace := t2\<rparr>) = Inr ((), s\<lparr>trace := t3\<rparr>)"
    using pcie_returns [of "s\<lparr>trace := t2\<rparr>" ps] ready pcie by auto
  have "bl_mod b \<noteq> None" using md by (cases "bl_mod b") (simp_all add: first_of_def)
  then show ?thesis
    by (intro exI [of _ t3]) (simp only: start_drivers_def t1 bindR_Inr Let_def t2 t3 if_True simp_thms lift_def md sum.case not_False_eq_True)
qed

section \<open>The program on the RAM disk\<close>

text \<open>
  The first module is a tar archive with a file \<open>a.out\<close>, clear of everything the kernel writes, as are
  the MCFG with the configuration spaces, the static list head of the RAM disk and the literal \<open>"a.out"\<close>; the
  heap is unused, and there is room for the file in the first page the heap takes.
\<close>

definition disk_ok :: "'z kernel_scheme \<Rightarrow> Bootloader \<Rightarrow> limine_file \<Rightarrow> tar_file list \<Rightarrow> u8 list \<Rightarrow> bool" where
  "disk_ok s b f fs data \<longleftrightarrow> first_of (bl_mod b) = Inr f \<and> length fs \<le> 30 \<and> map_of (rev fs) (lit ''a.out'') = Some data \<and>
     data \<noteq> [] \<and> (length data = 136 * (30 - length fs) \<or> length data + 16 \<le> 136 * (30 - length fs)) \<and>
     head_next s = 0 \<and> fn_next (mem s) (filehead s) = 0 \<and> bytes (filehead s) 120 \<inter> kernel_writes s b = {} \<and>
     tar_at (mem s) (file_address f) fs \<and> unat (file_address f) + tar_len fs \<le> 2 ^ 64 \<and>
     bytes (file_address f) (tar_len fs) \<inter> (kernel_writes s b \<union> bytes (filehead s) 120) = {} \<and>
     elf_name s \<noteq> 0 \<and> cstr_at (mem s) (elf_name s) (lit ''a.out'') \<and>
     bytes (elf_name s) 6 \<inter> (kernel_writes s b \<union> bytes (filehead s) 120) = {}"

text \<open>In the state the drivers find.\<close>

lemma disk_rd_boot:
  assumes disk: "disk_ok s b f fs data" and inv: "alloc_ok s'" and ready: "serial_ready s'"
    and own: "heap_own s' [] \<subseteq> managed_area (managed (mmap b))" and keep: "\<forall>x. x \<notin> kernel_writes s b \<longrightarrow> mem s' x = mem s x"
    and vars: "head_next s' = head_next s" "filehead s' = filehead s" "elf_name s' = elf_name s"
  shows "rd_boot s' (file_address f) fs" and "cstr_at (mem s') (elf_name s') (lit ''a.out'')"
    and "bytes (elf_name s') (Suc (length (lit ''a.out''))) \<inter> (heap_own s' [] \<union> bytes (filehead s') 120) = {}"
proof -
  let ?a = "file_address f"
  have same: "mem s' x = mem s x" if "x \<notin> kernel_writes s b" for x using keep that by blast
  from disk have d: "head_next s = 0" "fn_next (mem s) (filehead s) = 0" "bytes (filehead s) 120 \<inter> kernel_writes s b = {}"
    "tar_at (mem s) ?a fs" "unat ?a + tar_len fs \<le> 2 ^ 64" "bytes ?a (tar_len fs) \<inter> (kernel_writes s b \<union> bytes (filehead s) 120) = {}"
    "cstr_at (mem s) (elf_name s) (lit ''a.out'')" "bytes (elf_name s) 6 \<inter> (kernel_writes s b \<union> bytes (filehead s) 120) = {}"
    by (simp_all add: disk_ok_def)
  have own': "heap_own s' [] \<subseteq> kernel_writes s b" using own by (auto simp: kernel_writes_def)
  have "heap_ok s' [] []" using inv vars(1) d(1) by (simp add: heap_ok_def blocks_apart_def)
  moreover have "fn_next (mem s') (filehead s) = fn_next (mem s) (filehead s)"
    unfolding fn_next_def by (rule load_le_cong, rule same, use d(3) node_fields(3) [of "filehead s"] in blast, simp)
  moreover have "tar_at (mem s') ?a fs"
    by (rule tar_at_cong [OF same _ d(4)]) (use d(5,6) in auto)
  moreover have "bytes (filehead s) 120 \<inter> heap_own s' [] = {}" using d(3) own' by blast
  moreover have "bytes ?a (tar_len fs) \<inter> (heap_own s' [] \<union> bytes (filehead s) 120) = {}" using d(6) own' by blast
  ultimately show "rd_boot s' ?a fs"
    using ready d(2,5) vars(2) by (simp add: rd_boot_def archive_safe_def)
  have six: "Suc (length (lit ''a.out'')) = 6" by simp
  show "cstr_at (mem s') (elf_name s') (lit ''a.out'')"
    unfolding vars(3) by (subst cstr_at_cong [of _ _ _ "mem s"], rule same) (use d(7,8) in \<open>unfold six, auto\<close>)
  show "bytes (elf_name s') (Suc (length (lit ''a.out''))) \<inter> (heap_own s' [] \<union> bytes (filehead s') 120) = {}"
    unfolding six vars(2,3) using d(8) own' by blast
qed

text \<open>The bus as the bootloader leaves it, clear of what the kernel writes.\<close>

definition bus_ok :: "'z kernel_scheme \<Rightarrow> Bootloader \<Rightarrow> u32 list \<Rightarrow> (addr \<times> u8 \<times> u8) list \<Rightarrow> bool" where
  "bus_ok s b ts ps \<longleftrightarrow> (let p = last_with (mem s) ''MCFG'' ts (mcfgPtr s) in
     pcie_ok (mem s) p ps \<and> (p \<noteq> 0 \<longrightarrow> pcie_memory p ps \<inter> kernel_writes s b = {}))"

lemma kmain_ends:
  assumes boot: "boot_ok s b f ts es" and disk: "disk_ok s b md fs data" and bus: "bus_ok s b ts ps" and none: "loads_nothing data"
    and room: "default_tables (kernel_info b f s) + 1 < unat (me_length (managed (mmap b))) div 4096"
  shows "\<exists>s' buffer t ev. kmain s = Inl (Endless, s') \<and> trace s' = t @ ev @ [Hlt] \<and>
    sent ev = crlf (load_text (length data) buffer (judge (mem s') buffer)) \<and>
    (\<forall>i < length data. mem s' (buffer + of_nat i) = data ! i) \<and> bytes buffer (length data) \<subseteq> managed_area (managed (mmap b)) \<and>
    implements (mem s') (pml4 s') (default_frame (kernel_info b f s)) \<and>
    (\<forall>v < 256. delivered s' v = map_option (code_of s) (map_of idt_plan v)) \<and>
    (\<forall>x. x \<notin> kernel_writes s b \<longrightarrow> x \<notin> bytes (filehead s) 120 \<longrightarrow> mem s' x = mem s x)"
proof -
  let ?area = "managed_area (managed (mmap b))"
  from boot_interrupts [OF boot] obtain s1 where s1: "kmain s = bindR (start_drivers b s1) (\<lambda>_ s. Inl (Endless, emit Hlt s))"
    "serial_ready s1" "alloc_ok s1"
    "\<forall>m. (\<forall>x \<in> ?area. x \<notin> heap_own s1 [] \<longrightarrow> m x = mem s1 x) \<longrightarrow> implements m (pml4 s1) (default_frame (kernel_info b f s))"
    "idtr_limit s1 = 0x0fff" "idtr_ptr s1 = idt s" "\<forall>v < 256. gate_target (idt s) (mem s1) v = map_option (code_of s) (map_of idt_plan v)"
    "mcfgPtr s1 = last_with (mem s) ''MCFG'' ts (mcfgPtr s)" "heap_own s1 [] \<subseteq> ?area"
    "unat (me_length (managed (mmap b))) div 4096 \<le> default_tables (kernel_info b f s) + 1 + card (free_pages s1)"
    "\<forall>x. x \<notin> ?area \<longrightarrow> x \<notin> bytes (idt s) 4096 \<longrightarrow> mem s1 x = mem s x"
    "head_next s1 = head_next s" "filehead s1 = filehead s" "elf_name s1 = elf_name s"
    by (elim exE conjE) (rule that; assumption)
  have same: "mem s1 x = mem s x" if "x \<notin> kernel_writes s b" for x using s1(11) that by (simp add: kernel_writes_def)
  have d: "first_of (bl_mod b) = Inr md" "length fs \<le> 30" "map_of (rev fs) (lit ''a.out'') = Some data" "data \<noteq> []"
    "length data = 136 * (30 - length fs) \<or> length data + 16 \<le> 136 * (30 - length fs) \<or> combinable (tl (free_list t)) (length data)"
    "bytes (filehead s) 120 \<inter> kernel_writes s b = {}" "elf_name s \<noteq> 0" for t :: "'a kernel_scheme"
    using disk by (auto simp: disk_ok_def)
  have pcie: "pcie_ok (mem s1) (mcfgPtr s1) ps"
    unfolding pcie_ok_def s1(8)
  proof (intro impI conjI)
    assume p: "last_with (mem s) ''MCFG'' ts (mcfgPtr s) \<noteq> 0"
    let ?p = "last_with (mem s) ''MCFG'' ts (mcfgPtr s)"
    have c: "mcfg_at (mem s) ?p ps" "list_all (all_named (mem s)) ps" "pcie_memory ?p ps \<inter> kernel_writes s b = {}"
      using bus p by (simp_all add: bus_ok_def pcie_ok_def Let_def)
    have "mem s1 x = mem s x" if "x \<in> pcie_memory ?p ps" for x using that c(3) by (intro same) blast
    from pcie_cong [OF this c(1,2)] show "mcfg_at (mem s1) ?p ps" "list_all (all_named (mem s1)) ps" by simp_all
  qed
  from drivers_start [OF s1(2) pcie d(1)] obtain t0 where
    st: "start_drivers b s1 = bindR (InitializeRamdisk (file_address md) (s1\<lparr>trace := t0\<rparr>)) (\<lambda>_ s. elf_load (elf_name s) s)" by blast
  let ?s2 = "s1\<lparr>trace := t0\<rparr>"
  have "alloc_ok ?s2" "serial_ready ?s2" "heap_own ?s2 [] \<subseteq> ?area" "\<forall>x. x \<notin> kernel_writes s b \<longrightarrow> mem ?s2 x = mem s x"
    "head_next ?s2 = head_next s" "filehead ?s2 = filehead s" "elf_name ?s2 = elf_name s"
    using s1(2,3,9,12-14) same by simp_all
  note rd = disk_rd_boot [OF disk this]
  have "0 < card (free_pages s1)" using room s1(10) by linarith
  then have fp: "free_pages ?s2 \<noteq> {}" by auto
  have nz: "elf_name ?s2 \<noteq> 0" using d(7) s1(14) by simp
  have short: "length (lit ''a.out'') < 2 ^ 31" by simp
  from load_from_ramdisk [OF rd(1) fp d(2) nz rd(2) short rd(3) d(3,4) none d(5)] obtain s3 s4 buffer ev m3 h3 t3 m4 h4 t4 where
    s4: "InitializeRamdisk (file_address md) ?s2 = Inr ((), s3)" "elf_load (elf_name ?s2) s3 = Inr ((), s4)"
    "\<forall>i < length data. mem s4 (buffer + of_nat i) = data ! i" "bytes buffer (length data) \<subseteq> heap_own ?s2 []"
    "trace s4 = trace s3 @ ev" "sent ev = crlf (load_text (length data) buffer (judge (mem s4) buffer))"
    "\<forall>x. x \<notin> heap_own ?s2 [] \<longrightarrow> x \<notin> bytes (filehead ?s2) 120 \<longrightarrow> mem s4 x = mem ?s2 x"
    and u3: "s3 = ?s2\<lparr>mem := m3, head_next := h3, trace := t3, ramdiskInitialized := True\<rparr>"
    and u4: "s4 = ?s2\<lparr>mem := m4, head_next := h4, trace := t4, ramdiskInitialized := True\<rparr>"
    by (elim exE conjE) (rule that; assumption)
  have name: "elf_name s3 = elf_name ?s2" by (simp add: u3)
  have f4: "pml4 s4 = pml4 s1" "idtr_limit s4 = 0x0fff" "idtr_ptr s4 = idt s" using s1(5,6) by (simp_all add: u4)
  have run: "kmain s = Inl (Endless, emit Hlt s4)"
    by (simp only: s1(1) st s4(1) bindR_Inr name s4(2))
  have out: "mem s4 x = mem s1 x" if "x \<notin> heap_own s1 []" "x \<notin> bytes (filehead s) 120" for x
    using s4(7) that s1(13) by simp
  have fh: "x \<notin> bytes (filehead s) 120" if "x \<in> kernel_writes s b" for x using d(6) that by blast
  have imp: "implements (mem s4) (pml4 s4) (default_frame (kernel_info b f s))"
    unfolding f4(1) by (rule s1(4) [rule_format]) (rule out, assumption, rule fh, simp add: kernel_writes_def)
  have del: "delivered s4 v = map_option (code_of s) (map_of idt_plan v)" if v: "v < 256" for v
  proof -
    have area: "bytes (idt s) 4096 \<inter> ?area = {}" using boot by (auto simp: boot_ok_def Let_def)
    have "bytes (idt s + of_nat (16 * v)) 16 \<subseteq> bytes (idt s) 4096" using v by (intro subrange) simp_all
    then have sub: "bytes (idt s + 16 * of_nat v) 16 \<subseteq> bytes (idt s) 4096" by simp
    have "gate_target (idt s) (mem s4) v = gate_target (idt s) (mem s1) v"
    proof (rule gate_target_cong, rule out)
      fix x assume "x \<in> bytes (idt s + 16 * of_nat v) 16"
      then have x: "x \<in> bytes (idt s) 4096" using sub by blast
      then show "x \<notin> heap_own s1 []" using area s1(9) by blast
      show "x \<notin> bytes (filehead s) 120" by (rule fh) (simp add: kernel_writes_def x)
    qed
    then show ?thesis using s1(7) v by (simp add: delivered_def f4)
  qed
  have keep: "mem s4 x = mem s x" if "x \<notin> kernel_writes s b" "x \<notin> bytes (filehead s) 120" for x
  proof -
    have "x \<notin> heap_own s1 []" using that(1) s1(9) by (auto simp: kernel_writes_def)
    with out that(2) same [OF that(1)] show ?thesis by simp
  qed
  have sub: "bytes buffer (length data) \<subseteq> ?area" using s4(4) s1(9) by simp
  have h: "mem (emit Hlt s4) = mem s4" "pml4 (emit Hlt s4) = pml4 s4" "delivered (emit Hlt s4) = delivered s4" "trace (emit Hlt s4) = trace s3 @ ev @ [Hlt]"
    using s4(5) by (simp_all add: emit_def delivered_def fun_eq_iff)
  show ?thesis
    by (rule exI [of _ "emit Hlt s4"], rule exI [of _ buffer], rule exI [of _ "trace s3"], rule exI [of _ ev], unfold h, intro conjI allI impI)
      (use run s4(3,6) sub imp del keep in \<open>simp_all only:\<close>)
qed

section \<open>A machine with a program\<close>

text \<open>The machine of \<open>Kmain\<close> with one boot module at \<open>0x800000\<close>, an archive of a file \<open>a.out\<close> with the contents \<open>hi\<close>.\<close>

definition disk_byte :: "nat \<Rightarrow> u8" where
  "disk_byte j = (if j < 5 then lit ''a.out'' ! j else if 124 \<le> j \<and> j \<le> 133 then 48 else if j = 134 then 50
     else if j = 512 then 104 else if j = 513 then 105 else 0)"

definition disk_mem :: memory where
  "disk_mem x = (let j = unat (x - 0x800000) in if j < 1025 then disk_byte j else boot_mem x)"

definition disk_file :: limine_file where
  "disk_file = \<lparr>file_address = 0x800000, file_size = 1024\<rparr>"

definition disk_kernel :: kernel where
  "disk_kernel = boot_machine disk_mem (Some [disk_file]) 0x900000 0x800000"

definition disk_loader :: Bootloader where
  "disk_loader = boot_loader\<lparr>bl_mod := Some [disk_file]\<rparr>"

lemma disk_mem_nth: "j < 1025 \<Longrightarrow> disk_mem (0x800000 + of_nat j) = disk_byte j"
  by (simp add: disk_mem_def unat_of_nat64)

lemma disk_mem_outside:
  assumes "x \<notin> bytes 0x800000 1025"
  shows "disk_mem x = boot_mem x"
  using assms by (simp add: disk_mem_def bytes_def Let_def)

lemma disk_mem_tables: "x \<in> bytes 0x500000 0x230000 \<Longrightarrow> disk_mem x = boot_mem x"
proof (rule disk_mem_outside)
  have "bytes 0x500000 0x230000 \<inter> bytes (0x800000 :: addr) 1025 = {}" by (rule bytes_disjoint) simp_all
  then show "x \<in> bytes 0x500000 0x230000 \<Longrightarrow> x \<notin> bytes 0x800000 1025" by blast
qed

lemma disk_name: "cstr_at disk_mem 0x800000 (lit ''a.out'')"
proof -
  have "disk_mem (0x800000 + of_nat i) = lit ''a.out'' ! i" if "i < length (lit ''a.out'')" for i
    using that disk_mem_nth [of i] by (simp add: disk_byte_def)
  moreover have "disk_mem (0x800000 + of_nat 5) = 0" using disk_mem_nth [of 5] by (simp add: disk_byte_def)
  ultimately show ?thesis by (simp add: cstr_at_def)
qed

lemma disk_archive: "tar_at disk_mem 0x800000 [(lit ''a.out'', [104, 105])]"
proof -
  note at = disk_mem_nth
  have "octal_at disk_mem (th_size 0x800000) 2"
    by (rule demo_octal) (use at [of "124 + _"] in \<open>auto simp: th_size_def disk_byte_def add.assoc\<close>)
  then have "octal_at disk_mem (th_size 0x800000) (length [104, 105 :: u8])" by (simp add: numeral_2_eq_2)
  moreover have "disk_mem (0x800000 + 512 + of_nat i) = [104, 105] ! i" if "i < length [104, 105 :: u8]" for i
    using at [of "512 + i"] that by (auto simp: disk_byte_def less_Suc_eq)
  moreover have "disk_mem (0x800000 + of_nat (tar_span (length [104, 105 :: u8]))) = 0"
    using at [of 1024] by (simp add: tar_span_def disk_byte_def)
  ultimately show ?thesis using disk_name by simp
qed

lemma disk_kernel_fields:
  "mem disk_kernel = disk_mem" "idt disk_kernel = 0x500000" "filehead disk_kernel = 0x900000" "elf_name disk_kernel = 0x800000"
  "head_next disk_kernel = 0" "mcfgPtr disk_kernel = 0" "code_of disk_kernel = demo_code"
  using boot_kernel_fields(4,8)
  by (simp_all add: disk_kernel_def boot_machine_def boot_kernel_def idts.defs kernel.defs demo_idt_def apic.defs demo_apic_def acpi.defs
      demo_acpi_def keyboard.defs demo_keyboard_def ramdisk.defs demo_rd_def demo_heap_def heap.defs allocator.defs)

lemma disk_writes: "kernel_writes disk_kernel disk_loader \<subseteq> bytes 0x40000000 0x2020000 \<union> bytes 0x500000 4096"
  using boot_area by (auto simp: kernel_writes_def disk_kernel_fields disk_loader_def boot_loader_def)

lemma disk_kernel_disk: "disk_ok disk_kernel disk_loader disk_file [(lit ''a.out'', [104, 105])] [104, 105]"
proof -
  have len: "tar_len [(path, [104, 105 :: u8])] = 1025" for path by (simp add: tar_span_def)
  have away: "bytes a n \<inter> kernel_writes disk_kernel disk_loader = {}" if "0x501000 \<le> unat a" "unat a + n \<le> 0x40000000" for a n
  proof -
    have "bytes 0x500000 4096 \<inter> bytes a n = {}" by (rule bytes_disjoint) (use that in simp_all)
    moreover have "bytes a n \<inter> bytes 0x40000000 0x2020000 = {}" by (rule bytes_disjoint) (use that in simp_all)
    ultimately show ?thesis using disk_writes by blast
  qed
  have head: "bytes 0x800000 1025 \<inter> bytes (0x900000 :: addr) 120 = {}" by (rule bytes_disjoint) simp_all
  have six: "bytes (0x800000 :: addr) 6 \<subseteq> bytes 0x800000 1025" by (rule bytes_mono) simp
  have a: "bytes (0x800000 :: addr) 1025 \<inter> kernel_writes disk_kernel disk_loader = {}" by (rule away) simp_all
  have "fn_next disk_mem 0x900000 = load64 boot_mem 0x900070"
  proof -
    have "bytes 0x800000 1025 \<inter> bytes (0x900070 :: addr) 8 = {}" by (rule bytes_disjoint) simp_all
    then have "load64 disk_mem 0x900070 = load64 boot_mem 0x900070" by (intro load_le_cong disk_mem_outside) auto
    then show ?thesis by (simp add: fn_next_def)
  qed
  also have "load64 boot_mem 0x900070 = 0" by (simp add: boot_mem_def load_store_away load_zero)
  finally have "fn_next disk_mem 0x900000 = 0" .
  moreover have "bytes (0x900000 :: addr) 120 \<inter> kernel_writes disk_kernel disk_loader = {}" by (rule away) simp_all
  moreover have "bytes 0x800000 1025 \<inter> (kernel_writes disk_kernel disk_loader \<union> bytes 0x900000 120) = {}" using a head by blast
  moreover from this have "bytes 0x800000 6 \<inter> (kernel_writes disk_kernel disk_loader \<union> bytes 0x900000 120) = {}" using six by blast
  ultimately show ?thesis
    using disk_archive disk_name
    by (simp add: disk_ok_def disk_kernel_fields disk_loader_def disk_file_def first_of_def len del: tar_at.simps tar_len.simps)
qed

lemma disk_kernel_bus: "bus_ok disk_kernel disk_loader [0x710000, 0x720000] []"
proof -
  have "mcfg_at disk_mem 0x710000 []" using boot_tables(7) [OF disk_mem_tables] by (simp add: mcfg_at_def)
  moreover have "bytes 0x710000 44 \<inter> kernel_writes disk_kernel disk_loader = {}"
  proof -
    have "bytes 0x500000 4096 \<inter> bytes (0x710000 :: addr) 44 = {}" "bytes (0x710000 :: addr) 44 \<inter> bytes 0x40000000 0x2020000 = {}"
      by (rule bytes_disjoint; simp)+
    then show ?thesis using disk_writes by blast
  qed
  ultimately show ?thesis
    using boot_tables(6) [OF disk_mem_tables] by (simp add: bus_ok_def disk_kernel_fields pcie_ok_def pcie_memory_def)
qed

section \<open>Properties\<close>



end
