(* ===== verification/Layout.thy ===== *)
theory Layout
  imports Idt Pcie Elf
begin

text \<open>
  The structures of the kernel as their declarations, and the layout the compiler gives them. The other
  theories access memory with fixed offsets and sizes; here these are computed from the
  declarations by the rules of the x86-64 ABI and of \<open>packed\<close> and \<open>aligned\<close>, and compared.
\<close>

section \<open>Types and their layout\<close>

text \<open>
  A scalar of so many bytes, a bit-field of a scalar type with its width, an array, and a structure: whether it
  is packed, the least alignment asked for, and its members in order.
\<close>

datatype ctype = Scalar nat | Bits nat nat | Arr ctype nat | Struct bool nat "(string \<times> ctype) list"

definition round_up :: "nat \<Rightarrow> nat \<Rightarrow> nat" where
  "round_up x k = (if k = 0 then x else (x + k - 1) div k * k)"

fun align_of :: "ctype \<Rightarrow> nat" and align_all :: "(string \<times> ctype) list \<Rightarrow> nat" where
  "align_of (Scalar n) = n"
| "align_of (Bits n w) = n"
| "align_of (Arr t n) = align_of t"
| "align_of (Struct packed a fs) = (if packed then a else max a (align_all fs))"
| "align_all [] = 1"
| "align_all ((f, t) # fs) = max (align_of t) (align_all fs)"

text \<open>
  The bit at which the next member starts. A bit-field follows the bit before it, unless it
  would cross a boundary of its type; any other member starts at a multiple of its alignment. In a packed
  structure bit-fields follow each other and other members start at the next byte.
\<close>

definition place :: "bool \<Rightarrow> nat \<Rightarrow> ctype \<Rightarrow> nat" where
  "place packed pos t = (case t of
     Bits n w \<Rightarrow> if packed \<or> pos div (8 * n) = (pos + w - 1) div (8 * n) then pos else round_up pos (8 * n)
   | _ \<Rightarrow> round_up pos (if packed then 8 else 8 * align_of t))"

fun size_of :: "ctype \<Rightarrow> nat" and end_of :: "bool \<Rightarrow> nat \<Rightarrow> (string \<times> ctype) list \<Rightarrow> nat" where
  "size_of (Scalar n) = n"
| "size_of (Bits n w) = n"
| "size_of (Arr t n) = n * size_of t"
| "size_of (Struct packed a fs) = round_up ((end_of packed 0 fs + 7) div 8) (align_of (Struct packed a fs))"
| "end_of packed pos [] = pos"
| "end_of packed pos ((f, t) # fs) =
     end_of packed (place packed pos t + (case t of Bits n w \<Rightarrow> w | _ \<Rightarrow> 8 * size_of t)) fs"

definition bits_of :: "ctype \<Rightarrow> nat" where
  "bits_of t = (case t of Bits n w \<Rightarrow> w | _ \<Rightarrow> 8 * size_of t)"

text \<open>Every member with its first bit and its number of bits.\<close>

fun layout :: "bool \<Rightarrow> nat \<Rightarrow> (string \<times> ctype) list \<Rightarrow> (string \<times> nat \<times> nat) list" where
  "layout packed pos [] = []"
| "layout packed pos ((f, t) # fs) =
     (let a = place packed pos t in (f, a, bits_of t) # layout packed (a + bits_of t) fs)"

fun members :: "ctype \<Rightarrow> (string \<times> nat \<times> nat) list" where
  "members (Struct packed a fs) = layout packed 0 fs"
| "members _ = []"

definition bit_of :: "ctype \<Rightarrow> string \<Rightarrow> nat" where
  "bit_of c f = (case map_of (members c) f of Some (a, w) \<Rightarrow> a | None \<Rightarrow> 0)"

definition width_of :: "ctype \<Rightarrow> string \<Rightarrow> nat" where
  "width_of c f = (case map_of (members c) f of Some (a, w) \<Rightarrow> w | None \<Rightarrow> 0)"

text \<open>Access to a member: its address, its value as a little-endian word, and a bit-field of a word.\<close>

definition member_addr :: "ctype \<Rightarrow> string \<Rightarrow> addr \<Rightarrow> addr" where
  "member_addr c f p = p + of_nat (bit_of c f div 8)"

definition member :: "ctype \<Rightarrow> string \<Rightarrow> memory \<Rightarrow> addr \<Rightarrow> 'a::len word" where
  "member c f m p = load_le (width_of c f div 8) m (member_addr c f p)"

definition set_member :: "ctype \<Rightarrow> string \<Rightarrow> addr \<Rightarrow> 'a::len word \<Rightarrow> memory \<Rightarrow> memory" where
  "set_member c f p v m = store_le (width_of c f div 8) m (member_addr c f p) v"

definition bit_member :: "ctype \<Rightarrow> string \<Rightarrow> u64 \<Rightarrow> u64" where
  "bit_member c f v = take_bit (width_of c f) (drop_bit (bit_of c f) v)"

section \<open>Members do not overlap\<close>

lemma round_up_ge: "x \<le> round_up x k"
proof (cases "k = 0")
  case False
  then show ?thesis using round_up_bounds(1) [of k x] by (simp add: round_up_def)
qed (simp add: round_up_def)

lemma place_ge: "pos \<le> place packed pos t"
  by (cases t) (simp_all add: place_def round_up_ge)

lemma end_of_ge: "pos \<le> end_of packed pos fs"
proof (induction fs arbitrary: pos)
  case (Cons x fs)
  obtain f t where x: "x = (f, t)" by (cases x)
  have "pos \<le> place packed pos t + (case t of Bits n w \<Rightarrow> w | _ \<Rightarrow> 8 * size_of t)" using place_ge by (rule trans_le_add1)
  then show ?case unfolding x using Cons.IH by (simp add: le_trans)
qed simp

lemma layout_inside: "(f, a, w) \<in> set (layout packed pos fs) \<Longrightarrow> pos \<le> a \<and> a + w \<le> end_of packed pos fs"
proof (induction fs arbitrary: pos)
  case (Cons x fs)
  obtain g t where x: "x = (g, t)" by (cases x)
  let ?b = "place packed pos t" and ?e = "place packed pos t + bits_of t"
  have e: "end_of packed pos ((g, t) # fs) = end_of packed ?e fs" by (simp add: bits_of_def)
  from Cons.prems consider "a = ?b" "w = bits_of t" | "(f, a, w) \<in> set (layout packed ?e fs)" by (auto simp: x Let_def)
  then show ?case
  proof cases
    case 1
    then show ?thesis unfolding x e using end_of_ge [of ?e packed fs] place_ge [of pos packed t] by simp
  next
    case 2
    then show ?thesis unfolding x e using Cons.IH [OF 2] place_ge [of pos packed t] by simp
  qed
qed simp

lemma layout_apart: "sorted_wrt (\<lambda>(f, a, w) (g, b, v). a + w \<le> b) (layout packed pos fs)"
proof (induction fs arbitrary: pos)
  case (Cons x fs)
  obtain g t where x: "x = (g, t)" by (cases x)
  show ?case unfolding x using Cons.IH by (auto simp: Let_def dest: layout_inside)
qed simp

section \<open>The declarations\<close>

abbreviation u8_t :: ctype where "u8_t \<equiv> Scalar 1"
abbreviation u16_t :: ctype where "u16_t \<equiv> Scalar 2"
abbreviation u32_t :: ctype where "u32_t \<equiv> Scalar 4"
abbreviation u64_t :: ctype where "u64_t \<equiv> Scalar 8"
abbreviation ptr_t :: ctype where "ptr_t \<equiv> Scalar 8"

definition struct_Page :: ctype where
  "struct_Page = Struct False 1 [(''ptr'', ptr_t), (''free'', Bits 1 1)]"

definition struct_HeapNode :: ctype where
  "struct_HeapNode = Struct False 1 [(''size'', u64_t), (''next'', ptr_t)]"

definition struct_PTE :: ctype where
  "struct_PTE = Struct True 1
     [(''Present'', Bits 8 1), (''RW'', Bits 8 1), (''UserSupervisor'', Bits 8 1), (''PLWriteThrough'', Bits 8 1),
      (''PLCacheDisable'', Bits 8 1), (''Accessed'', Bits 8 1), (''Ignored'', Bits 8 1), (''PageSize'', Bits 8 1),
      (''Ignored2'', Bits 8 3), (''Ignored3'', Bits 8 1), (''PhysAddr'', Bits 8 40), (''Reserved'', Bits 8 12)]"

definition struct_PT :: ctype where
  "struct_PT = Struct False 0x1000 [(''values'', Arr struct_PTE 512)]"

definition struct_Registers :: ctype where
  "struct_Registers = Struct True 1
     [(''r15'', u64_t), (''r14'', u64_t), (''r13'', u64_t), (''r12'', u64_t), (''r11'', u64_t), (''r10'', u64_t),
      (''r9'', u64_t), (''r8'', u64_t), (''rbp'', u64_t), (''rdi'', u64_t), (''rsi'', u64_t), (''rdx'', u64_t),
      (''rcx'', u64_t), (''rbx'', u64_t), (''rax'', u64_t), (''rip'', u64_t), (''cs'', u64_t), (''flags'', u64_t),
      (''rsp'', u64_t), (''ss'', u64_t)]"

definition struct_SyscallRegisters :: ctype where
  "struct_SyscallRegisters = Struct True 1
     [(''rbp'', u64_t), (''rdi'', u64_t), (''rsi'', u64_t), (''rdx'', u64_t), (''rcx'', u64_t), (''rbx'', u64_t), (''rax'', u64_t),
      (''rip'', u64_t), (''cs'', u64_t), (''flags'', u64_t), (''rsp'', u64_t), (''ss'', u64_t)]"

definition struct_InterruptDescriptor :: ctype where
  "struct_InterruptDescriptor = Struct True 16
     [(''offset_1'', u16_t), (''selector'', u16_t), (''ist'', u8_t), (''types_attributes'', u8_t), (''offset_2'', u16_t),
      (''offset_3'', u32_t), (''null'', u32_t)]"

definition struct_InterruptDescriptorTablePtr :: ctype where
  "struct_InterruptDescriptorTablePtr = Struct True 16 [(''limit'', u16_t), (''ptr'', u64_t)]"

definition struct_ProcessFrame :: ctype where
  "struct_ProcessFrame = Struct False 1
     [(''pid'', u8_t), (''processName'', Arr u8_t 32), (''registers'', struct_Registers), (''quanta'', u8_t),
      (''cr3'', ptr_t), (''invalid'', u8_t), (''next'', ptr_t)]"

definition struct_tar_header :: ctype where
  "struct_tar_header = Struct False 1
     [(''path'', Arr u8_t 100), (''mode'', Arr u8_t 8), (''uid'', Arr u8_t 8), (''gid'', Arr u8_t 8), (''size'', Arr u8_t 12),
      (''mtime'', Arr u8_t 12), (''chksum'', Arr u8_t 8), (''typeflag'', Arr u8_t 1), (''padding'', Arr u8_t 355)]"

definition struct_FileNode :: ctype where
  "struct_FileNode = Struct False 1 [(''FilePath'', Arr u8_t 100), (''FileSize'', u32_t), (''FileBegin'', ptr_t), (''next'', ptr_t)]"

definition struct_RSDPDescriptor :: ctype where
  "struct_RSDPDescriptor = Struct True 1
     [(''Signature'', Arr u8_t 8), (''Checksum'', u8_t), (''OEMID'', Arr u8_t 6), (''Revision'', u8_t), (''RsdtAddress'', u32_t),
      (''Length'', u32_t), (''XSDTAddress'', u64_t), (''ExtendedChecksum'', u8_t), (''reserved'', Arr u8_t 3)]"

definition struct_ACPISystemTableHeader :: ctype where
  "struct_ACPISystemTableHeader = Struct True 1
     [(''Signature'', Arr u8_t 4), (''Length'', u32_t), (''Revision'', u8_t), (''Checksum'', u8_t), (''OEMID'', Arr u8_t 6),
      (''OEMTableID'', Arr u8_t 8), (''OEMRevision'', u32_t), (''CreatorID'', u32_t), (''CreatorRevision'', u32_t)]"

definition struct_ICStructure :: ctype where
  "struct_ICStructure = Struct True 1 [(''Type'', u8_t), (''Length'', u8_t)]"

definition struct_ICStructureLAPIC :: ctype where
  "struct_ICStructureLAPIC = Struct True 1
     [(''global'', struct_ICStructure), (''ACPIProcessorUID'', u8_t), (''APICId'', u8_t), (''Flags'', u32_t)]"

definition struct_ICStructureIOAPIC :: ctype where
  "struct_ICStructureIOAPIC = Struct True 1
     [(''global'', struct_ICStructure), (''IOAPICId'', u8_t), (''Reserved'', u8_t), (''IOAPICAddress'', u32_t),
      (''GlobalSystemInterruptBase'', u32_t)]"

definition struct_MADT :: ctype where
  "struct_MADT = Struct True 1
     [(''Signature'', Arr u8_t 4), (''Length'', u32_t), (''Revision'', u8_t), (''Checksum'', u8_t), (''OEMId'', Arr u8_t 6),
      (''OEMTableId'', Arr u8_t 8), (''OEMRevision'', u32_t), (''CreatorID'', u32_t), (''CreatorRevision'', u32_t),
      (''LAPICBase'', u32_t), (''Flags'', u32_t), (''ICStructBase'', struct_ICStructure)]"

definition struct_IOAPICRedirectionEntry :: ctype where
  "struct_IOAPICRedirectionEntry = Struct True 1
     [(''InterruptVector'', u8_t), (''DeliveryMode'', Bits 1 3), (''DestinationMode'', Bits 1 1), (''Busy'', Bits 1 1),
      (''Polarity'', Bits 1 1), (''LTIStatus'', Bits 1 1), (''TriggerMode'', Bits 1 1), (''InterruptMask'', Bits 1 1),
      (''Reserved'', Bits 8 39), (''Destination'', u8_t)]"

definition struct_PCIConfigEntry :: ctype where
  "struct_PCIConfigEntry = Struct True 1
     [(''base'', u64_t), (''groupNumber'', u16_t), (''startPCIBus'', u8_t), (''endPCIBus'', u8_t), (''reserved'', u32_t)]"

definition struct_PCIDeviceStruct :: ctype where
  "struct_PCIDeviceStruct = Struct True 1
     [(''VendorID'', u16_t), (''DeviceID'', u16_t), (''Command'', u16_t), (''Status'', u16_t), (''RevisionID'', u8_t),
      (''ProgIF'', u8_t), (''SubClass'', u8_t), (''ClassCode'', u8_t), (''CacheLineSize'', u8_t), (''LatencyTimer'', u8_t),
      (''HdrType'', u8_t), (''BIST'', u8_t)]"

definition struct_PCIHdrType0 :: ctype where
  "struct_PCIHdrType0 = Struct True 1
     [(''DefaultHeader'', struct_PCIDeviceStruct), (''BAR0'', u32_t), (''BAR1'', u32_t), (''BAR2'', u32_t), (''BAR3'', u32_t),
      (''BAR4'', u32_t), (''BAR5'', u32_t), (''CardbusCISPtr'', u32_t), (''SubsystemVendorId'', u16_t), (''SubsystemId'', u16_t),
      (''ExpansionROMAddress'', u32_t), (''CapabilitiesPtr'', u8_t), (''Reserved'', Bits 4 24), (''InterruptLine'', u8_t),
      (''InterruptPIN'', u8_t), (''MinGrant'', u8_t), (''MaxLatency'', u8_t)]"

text \<open>\<open>Elf64_Addr\<close>, \<open>Elf64_Off\<close> and \<open>Elf64_Xword\<close> have 64 bits, \<open>Elf64_Word\<close> 32 and \<open>Elf64_Half\<close> 16.\<close>

definition struct_ElfHeader64 :: ctype where
  "struct_ElfHeader64 = Struct False 1
     [(''e_ident'', Arr u8_t 16), (''e_type'', u16_t), (''e_machine'', u16_t), (''e_version'', u32_t), (''e_entry'', u64_t),
      (''e_phoff'', u64_t), (''e_shoff'', u64_t), (''e_flags'', u32_t), (''e_ehsize'', u16_t), (''e_phentsize'', u16_t),
      (''e_phnum'', u16_t), (''e_shentsize'', u16_t), (''e_shnum'', u16_t), (''e_shstrndx'', u16_t)]"

definition struct_ElfPheader64 :: ctype where
  "struct_ElfPheader64 = Struct False 1
     [(''p_type'', u32_t), (''p_flags'', u32_t), (''p_offset'', u64_t), (''p_vaddr'', u64_t), (''p_paddr'', u64_t),
      (''p_filesz'', u64_t), (''p_memsz'', u64_t), (''p_align'', u64_t)]"

definition struct_SegmentDescriptor :: ctype where
  "struct_SegmentDescriptor = Struct True 1
     [(''limit'', u16_t), (''base_low'', u16_t), (''base_middle'', u8_t), (''access'', u8_t), (''granularity'', u8_t), (''base_high'', u8_t)]"

definition struct_GlobalDescriptorTable :: ctype where
  "struct_GlobalDescriptorTable = Struct True 1
     [(''null'', struct_SegmentDescriptor), (''kernelCode'', struct_SegmentDescriptor), (''kernelData'', struct_SegmentDescriptor),
      (''userCode'', struct_SegmentDescriptor), (''userData'', struct_SegmentDescriptor)]"

definition struct_GlobalDescriptorTablePtr :: ctype where
  "struct_GlobalDescriptorTablePtr = Struct True 1 [(''size'', u16_t), (''addr'', u64_t)]"

lemmas struct_defs = struct_Page_def struct_HeapNode_def struct_PTE_def struct_PT_def struct_Registers_def struct_SyscallRegisters_def
  struct_InterruptDescriptor_def struct_InterruptDescriptorTablePtr_def struct_ProcessFrame_def struct_tar_header_def struct_FileNode_def
  struct_RSDPDescriptor_def struct_ACPISystemTableHeader_def struct_ICStructure_def struct_ICStructureLAPIC_def struct_ICStructureIOAPIC_def
  struct_MADT_def struct_IOAPICRedirectionEntry_def struct_PCIConfigEntry_def struct_PCIDeviceStruct_def struct_PCIHdrType0_def
  struct_ElfHeader64_def struct_ElfPheader64_def struct_SegmentDescriptor_def struct_GlobalDescriptorTable_def struct_GlobalDescriptorTablePtr_def

lemmas layout_defs = bit_of_def width_of_def bits_of_def place_def round_up_def Let_def

section \<open>The sizes\<close>

lemma struct_sizes:
  "size_of struct_Page = 16" "size_of struct_HeapNode = 16" "size_of struct_PTE = 8" "size_of struct_PT = 4096"
  "size_of struct_Registers = 160" "size_of struct_SyscallRegisters = 96" "size_of struct_InterruptDescriptor = 16"
  "size_of struct_InterruptDescriptorTablePtr = 16" "size_of struct_ProcessFrame = 224" "size_of struct_tar_header = 512"
  "size_of struct_FileNode = 120" "size_of struct_RSDPDescriptor = 36" "size_of struct_ACPISystemTableHeader = 36"
  "size_of struct_ICStructure = 2" "size_of struct_ICStructureLAPIC = 8" "size_of struct_ICStructureIOAPIC = 12" "size_of struct_MADT = 46"
  "size_of struct_IOAPICRedirectionEntry = 8" "size_of struct_PCIConfigEntry = 16" "size_of struct_PCIDeviceStruct = 16"
  "size_of struct_PCIHdrType0 = 60" "size_of struct_ElfHeader64 = 64" "size_of struct_ElfPheader64 = 56"
  "size_of struct_SegmentDescriptor = 8" "size_of struct_GlobalDescriptorTable = 40" "size_of struct_GlobalDescriptorTablePtr = 10"
  by (simp_all add: struct_defs layout_defs)

section \<open>The members\<close>

text \<open>The field functions of the other theories are accesses to the declared members.\<close>

lemma load_byte: "load_le 1 m a = (m a :: u8)"
  by simp

lemma store_byte: "store_le 1 m a (v :: u8) = m(a := v)"
  by (rule ext) (auto simp: store_le_def unat_eq_0)

lemmas member_defs = member_def member_addr_def set_member_def

lemma heap_members:
  "hn_size m p = member struct_HeapNode ''size'' m p" "hn_next m p = member struct_HeapNode ''next'' m p"
  by (simp_all add: hn_size_def hn_next_def member_defs struct_defs layout_defs)

lemma page_members:
  "page_at fl i = fl + of_nat (size_of struct_Page) * i" "page_ptr m fl i = member struct_Page ''ptr'' m (page_at fl i)"
  "page_free m fl i = bit (m (member_addr struct_Page ''free'' (page_at fl i))) (bit_of struct_Page ''free'' mod 8)"
  by (simp_all add: page_at_def page_ptr_def page_free_def struct_sizes member_defs struct_defs layout_defs)

lemma pte_members:
  "pte m t i = load_le (size_of struct_PTE) m (t + of_nat (size_of struct_PTE) * i)"
  "Present e = (bit_member struct_PTE ''Present'' e = 1)" "RW e = (bit_member struct_PTE ''RW'' e = 1)"
  "UserSupervisor e = (bit_member struct_PTE ''UserSupervisor'' e = 1)" "PageSize e = (bit_member struct_PTE ''PageSize'' e = 1)"
  "PhysAddr e = bit_member struct_PTE ''PhysAddr'' e"
proof -
  have one: "(take_bit 1 (drop_bit n e) = 1) = bit e n" for n
    by (simp add: take_bit_Suc bit_iff_odd_drop_bit odd_iff_mod_2_eq_one)
  show "pte m t i = load_le (size_of struct_PTE) m (t + of_nat (size_of struct_PTE) * i)" by (simp add: pte_def struct_sizes)
  have w: "bit_of struct_PTE ''Present'' = 0" "bit_of struct_PTE ''RW'' = 1" "bit_of struct_PTE ''UserSupervisor'' = 2" "bit_of struct_PTE ''PageSize'' = 7"
    "bit_of struct_PTE ''PhysAddr'' = 12" "width_of struct_PTE ''Present'' = 1" "width_of struct_PTE ''RW'' = 1" "width_of struct_PTE ''UserSupervisor'' = 1"
    "width_of struct_PTE ''PageSize'' = 1" "width_of struct_PTE ''PhysAddr'' = 40" by (simp_all add: struct_defs layout_defs)
  show "Present e = (bit_member struct_PTE ''Present'' e = 1)" "RW e = (bit_member struct_PTE ''RW'' e = 1)"
    "UserSupervisor e = (bit_member struct_PTE ''UserSupervisor'' e = 1)" "PageSize e = (bit_member struct_PTE ''PageSize'' e = 1)"
    "PhysAddr e = bit_member struct_PTE ''PhysAddr'' e"
    unfolding bit_member_def w one by (simp_all add: Present_def RW_def UserSupervisor_def PageSize_def PhysAddr_def)
qed

lemma frame_members:
  "pf_pid m p = member struct_ProcessFrame ''pid'' m p" "pf_name p = member_addr struct_ProcessFrame ''processName'' p"
  "pf_regs p = member_addr struct_ProcessFrame ''registers'' p" "pf_quanta m p = member struct_ProcessFrame ''quanta'' m p"
  "pf_cr3 m p = member struct_ProcessFrame ''cr3'' m p" "pf_invalid m p = (member struct_ProcessFrame ''invalid'' m p \<noteq> (0 :: u8))"
  "pf_next m p = member struct_ProcessFrame ''next'' m p" "set_pf_next p q m = set_member struct_ProcessFrame ''next'' p q m"
  "reg_rip r = member_addr struct_Registers ''rip'' r" "reg_cs r = member_addr struct_Registers ''cs'' r"
  "reg_flags r = member_addr struct_Registers ''flags'' r" "reg_rsp r = member_addr struct_Registers ''rsp'' r"
  "reg_ss r = member_addr struct_Registers ''ss'' r"
  by (simp_all add: pf_pid_def pf_name_def pf_regs_def pf_quanta_def pf_cr3_def pf_invalid_def pf_next_def set_pf_next_def
      reg_rip_def reg_cs_def reg_flags_def reg_rsp_def reg_ss_def member_defs struct_defs layout_defs)

lemma file_members:
  "fn_path p = member_addr struct_FileNode ''FilePath'' p" "fn_size m p = member struct_FileNode ''FileSize'' m p"
  "fn_begin m p = member struct_FileNode ''FileBegin'' m p" "fn_next m p = member struct_FileNode ''next'' m p"
  "th_size p = member_addr struct_tar_header ''size'' p"
  by (simp_all add: fn_path_def fn_size_def fn_begin_def fn_next_def th_size_def member_defs struct_defs layout_defs)

lemma acpi_members:
  "rsdp_oemid p = member_addr struct_RSDPDescriptor ''OEMID'' p" "rsdp_revision m p = member struct_RSDPDescriptor ''Revision'' m p"
  "rsdp_rsdt m p = member struct_RSDPDescriptor ''RsdtAddress'' m p" "sdt_length m p = member struct_ACPISystemTableHeader ''Length'' m p"
  "ic_type m p = member struct_ICStructure ''Type'' m p" "ic_length m p = member struct_ICStructure ''Length'' m p"
  "ic_address m p = member struct_ICStructureIOAPIC ''IOAPICAddress'' m p"
  "ic_gsi m p = member struct_ICStructureIOAPIC ''GlobalSystemInterruptBase'' m p"
  by (simp_all add: rsdp_oemid_def rsdp_revision_def rsdp_rsdt_def sdt_length_def ic_type_def ic_length_def ic_address_def ic_gsi_def
      member_defs struct_defs layout_defs)

lemma pci_members:
  "VendorID m p = member struct_PCIDeviceStruct ''VendorID'' m p" "SubClass m p = member struct_PCIDeviceStruct ''SubClass'' m p"
  "ClassCode m p = member struct_PCIDeviceStruct ''ClassCode'' m p" "HdrType m p = member struct_PCIDeviceStruct ''HdrType'' m p"
  "map (\<lambda>k. BAR k m p) [0, 1, 2, 3, 4, 5] =
     map (\<lambda>f. member struct_PCIHdrType0 f m p) [''BAR0'', ''BAR1'', ''BAR2'', ''BAR3'', ''BAR4'', ''BAR5'']"
  "config_base m p = member struct_PCIConfigEntry ''base'' m p" "startPCIBus m p = member struct_PCIConfigEntry ''startPCIBus'' m p"
  "endPCIBus m p = member struct_PCIConfigEntry ''endPCIBus'' m p"
  by (simp_all add: VendorID_def SubClass_def ClassCode_def HdrType_def BAR_def config_base_def startPCIBus_def endPCIBus_def
      member_defs struct_defs layout_defs add.commute)

lemma elf_layout:
  "members struct_ElfHeader64 = [(''e_ident'', 0, 128), (''e_type'', 128, 16), (''e_machine'', 144, 16), (''e_version'', 160, 32),
     (''e_entry'', 192, 64), (''e_phoff'', 256, 64), (''e_shoff'', 320, 64), (''e_flags'', 384, 32), (''e_ehsize'', 416, 16),
     (''e_phentsize'', 432, 16), (''e_phnum'', 448, 16), (''e_shentsize'', 464, 16), (''e_shnum'', 480, 16), (''e_shstrndx'', 496, 16)]"
  "members struct_ElfPheader64 = [(''p_type'', 0, 32), (''p_flags'', 32, 32), (''p_offset'', 64, 64), (''p_vaddr'', 128, 64),
     (''p_paddr'', 192, 64), (''p_filesz'', 256, 64), (''p_memsz'', 320, 64), (''p_align'', 384, 64)]"
  by code_simp+

lemma elf_members:
  "e_ident m p i = m (member_addr struct_ElfHeader64 ''e_ident'' p + of_nat i)" "e_machine m p = member struct_ElfHeader64 ''e_machine'' m p"
  "e_entry m p = member struct_ElfHeader64 ''e_entry'' m p" "e_phoff m p = member struct_ElfHeader64 ''e_phoff'' m p"
  "e_phnum m p = member struct_ElfHeader64 ''e_phnum'' m p" "p_type m p = member struct_ElfPheader64 ''p_type'' m p"
  "p_filesz m p = member struct_ElfPheader64 ''p_filesz'' m p" "p_memsz m p = member struct_ElfPheader64 ''p_memsz'' m p"
  by (simp_all add: e_ident_def e_machine_def e_entry_def e_phoff_def e_phnum_def p_type_def p_filesz_def p_memsz_def
      member_defs bit_of_def width_of_def elf_layout)

lemma gate_members:
  "AddIDTEntry table offset index GATE_TYPE m =
     (let e = table + of_nat (size_of struct_InterruptDescriptor) * index;
          m = set_member struct_InterruptDescriptor ''offset_1'' e (ucast (offset AND 0x000000000000ffff) :: u16) m;
          m = set_member struct_InterruptDescriptor ''offset_2'' e (ucast (drop_bit 16 (offset AND 0x00000000ffff0000)) :: u16) m;
          m = set_member struct_InterruptDescriptor ''offset_3'' e (ucast (drop_bit 32 (offset AND 0xffffffff00000000)) :: u32) m;
          m = set_member struct_InterruptDescriptor ''types_attributes'' e GATE_TYPE m;
          m = set_member struct_InterruptDescriptor ''ist'' e (0 :: u8) m;
          m = set_member struct_InterruptDescriptor ''selector'' e (0x08 :: u16) m
      in set_member struct_InterruptDescriptor ''null'' e (0 :: u32) m)"
proof -
  have mem: "members struct_InterruptDescriptor = [(''offset_1'', 0, 16), (''selector'', 16, 16), (''ist'', 32, 8), (''types_attributes'', 40, 8),
      (''offset_2'', 48, 16), (''offset_3'', 64, 32), (''null'', 96, 32)]" by code_simp
  have b: "bit_of struct_InterruptDescriptor ''offset_1'' = 0" "bit_of struct_InterruptDescriptor ''selector'' = 16"
    "bit_of struct_InterruptDescriptor ''ist'' = 32" "bit_of struct_InterruptDescriptor ''types_attributes'' = 40"
    "bit_of struct_InterruptDescriptor ''offset_2'' = 48" "bit_of struct_InterruptDescriptor ''offset_3'' = 64" "bit_of struct_InterruptDescriptor ''null'' = 96"
    by (simp_all add: bit_of_def mem)
  have w: "width_of struct_InterruptDescriptor ''offset_1'' = 16" "width_of struct_InterruptDescriptor ''selector'' = 16"
    "width_of struct_InterruptDescriptor ''ist'' = 8" "width_of struct_InterruptDescriptor ''types_attributes'' = 8"
    "width_of struct_InterruptDescriptor ''offset_2'' = 16" "width_of struct_InterruptDescriptor ''offset_3'' = 32" "width_of struct_InterruptDescriptor ''null'' = 32"
    by (simp_all add: width_of_def mem)
  have one: "set_member struct_InterruptDescriptor ''types_attributes'' e v m = m(e + 5 := v)" "set_member struct_InterruptDescriptor ''ist'' e v m = m(e + 4 := v)"
    for e m and v :: u8 using store_byte [of m "e + 5" v] store_byte [of m "e + 4" v] by (simp_all add: member_defs b w)
  show ?thesis unfolding AddIDTEntry_def Let_def one by (simp add: member_defs b w struct_sizes)
qed

lemma ucast_cut: "(ucast (take_bit LENGTH('b) x) :: 'b::len word) = ucast (x :: u64)"
  by (rule bit_word_eqI) (auto simp: bit_simps)

lemma redirection_members:
  fixes v :: u64
  shows "InterruptVector (redir_of v) = ucast (bit_member struct_IOAPICRedirectionEntry ''InterruptVector'' v)"
    "DeliveryMode (redir_of v) = ucast (bit_member struct_IOAPICRedirectionEntry ''DeliveryMode'' v)"
    "InterruptMask (redir_of v) = ucast (bit_member struct_IOAPICRedirectionEntry ''InterruptMask'' v)"
    "Destination (redir_of v) = ucast (bit_member struct_IOAPICRedirectionEntry ''Destination'' v)"
proof -
  have mem: "members struct_IOAPICRedirectionEntry = [(''InterruptVector'', 0, 8), (''DeliveryMode'', 8, 3), (''DestinationMode'', 11, 1),
      (''Busy'', 12, 1), (''Polarity'', 13, 1), (''LTIStatus'', 14, 1), (''TriggerMode'', 15, 1), (''InterruptMask'', 16, 1),
      (''Reserved'', 17, 39), (''Destination'', 56, 8)]" by code_simp
  show "InterruptVector (redir_of v) = ucast (bit_member struct_IOAPICRedirectionEntry ''InterruptVector'' v)"
    "DeliveryMode (redir_of v) = ucast (bit_member struct_IOAPICRedirectionEntry ''DeliveryMode'' v)"
    "InterruptMask (redir_of v) = ucast (bit_member struct_IOAPICRedirectionEntry ''InterruptMask'' v)"
    "Destination (redir_of v) = ucast (bit_member struct_IOAPICRedirectionEntry ''Destination'' v)"
    using ucast_cut [where 'b = 8] ucast_cut [where 'b = 3] ucast_cut [where 'b = 1] by (simp_all add: redir_of_def bit_member_def bit_of_def width_of_def mem)
qed

definition kernel_structs :: "ctype list" where
  "kernel_structs = [struct_Page, struct_HeapNode, struct_PTE, struct_PT, struct_Registers, struct_SyscallRegisters, struct_InterruptDescriptor,
     struct_InterruptDescriptorTablePtr, struct_ProcessFrame, struct_tar_header, struct_FileNode, struct_RSDPDescriptor,
     struct_ACPISystemTableHeader, struct_ICStructure, struct_ICStructureLAPIC, struct_ICStructureIOAPIC, struct_MADT,
     struct_IOAPICRedirectionEntry, struct_PCIConfigEntry, struct_PCIDeviceStruct, struct_PCIHdrType0, struct_ElfHeader64,
     struct_ElfPheader64, struct_SegmentDescriptor, struct_GlobalDescriptorTable, struct_GlobalDescriptorTablePtr]"

text \<open>In every structure the members follow each other without overlap and end inside it.\<close>

lemma members_fit:
  "sorted_wrt (\<lambda>(f, a, w) (g, b, v). a + w \<le> b) (members c) \<and> (\<forall>(f, a, w) \<in> set (members c). a + w \<le> 8 * size_of c)"
proof (cases c)
  case (Struct packed al fs)
  have "a + w \<le> 8 * size_of c" if "(f, a, w) \<in> set (layout packed 0 fs)" for f a w
  proof -
    have "a + w \<le> end_of packed 0 fs" using layout_inside [OF that] by simp
    also have "\<dots> \<le> 8 * ((end_of packed 0 fs + 7) div 8)" by linarith
    also have "\<dots> \<le> 8 * size_of c" unfolding Struct size_of.simps by (intro mult_le_mono2 round_up_ge)
    finally show ?thesis .
  qed
  then show ?thesis using layout_apart [of packed 0 fs] by (auto simp: Struct)
qed simp_all

section \<open>Properties\<close>


end
