(* ===== verification/Spec2Isabelle.thy ===== *)
theory Spec2Isabelle
  imports Boot Layout
begin

text \<open>
  \<^bold>\<open>System/14, verified parts of a kernel.\<close> System/14 is a small x86-64 kernel in C: Limine
  boots it, it sets up its memory, interrupts and devices, reads a RAM disk and loads a
  program. This library models the whole of its C code and the assembly stubs that C code
  depends on, and proves what the parts promise to each other. Paths below are under
  \<open>src/src/\<close>.

  \<^bold>\<open>The parts and how they interact.\<close> \<open>_kmain\<close> (\<open>bootstrap/kmain.c\<close>) runs the parts in this order:
  the descriptor table (\<open>gdt/\<close>), the responses of the bootloader (\<open>bootstrap/bootloader.c\<close>), the
  terminal (\<open>util/print.c\<close>), ACPI (\<open>drivers/acpi/\<close>), the page allocator (\<open>mm/allocator/\<close>), the
  page tables (\<open>mm/paging/\<close>), interrupts (\<open>interrupts/\<close>, with the APIC of \<open>drivers/apic/\<close> and the
  clock of \<open>drivers/rtc/\<close>), the timer (\<open>drivers/pit.c\<close>), PCI Express (\<open>drivers/pci/\<close>), the RAM disk
  (\<open>ramdisk/tar.c\<close>) and the ELF loader. The heap (\<open>mm/heapalloc/\<close>) takes pages from the allocator;
  RAM disk, loader and scheduler take blocks from the heap; a timer interrupt calls the
  scheduler (\<open>multitasking/scheduler.c\<close>), which gets address spaces from \<open>mm/paging/\<close>.

  \<^bold>\<open>State.\<close> All components act on one machine, a record that each theory extends by the global
  variables of its file: byte-addressed memory (\<open>mem\<close>, total on 64-bit addresses), the events
  so far (\<open>trace\<close>: port and device accesses, privileged instructions, calls of the terminal
  library), and how the outside answers reads (\<open>device\<close>, \<open>mmio\<close>). Everything C keeps in memory is
  in \<open>mem\<close>: the frame table, the heap's nodes, page tables, task frames, file nodes, the
  interrupt table. Structures are read and written by field functions with the offsets the
  compiler gives them. An operation returns \<open>Inr (x, s)\<close> or stops: \<open>Inl (e, s)\<close> with \<open>e\<close> a
  panic, a null dereference, undefined behaviour of C, or \<open>Endless\<close> for code that does not
  return; so every error path is a value. Integers have the width of the C types; sums and
  products wrap.

  \<^bold>\<open>Theories.\<close>
  \<^item> \<open>Prelude\<close>: words, regions of memory, loads and stores, results, \<open>chain\<close> for linked lists, and the
    locale \<open>intrusive_list\<close>, interpreted for heap nodes, task frames and file nodes.
  \<^item> \<open>Machine\<close>, \<open>CString\<close>, \<open>Console\<close>: \<open>util/ioports.h\<close>, \<open>util/memutil.c\<close>, \<open>util/string.c\<close>, \<open>util/serial.c\<close>,
    \<open>util/print.c\<close>, \<open>system/panic.c\<close>, \<open>system/error.c\<close>. \<open>outputs\<close> says what a call sends over the serial
    line and shows on the terminal; \<open>render\<close> is the reference for \<open>printf\<close>.
  \<^item> \<open>Allocator\<close>: \<open>InitializeAllocator\<close>, \<open>PageAlloc\<close>, \<open>PageFree\<close>. The locale \<open>page_provider\<close> is what
    clients may rely on; its interpretation \<open>pages\<close> is used by heap, paging and scheduler.
  \<^item> \<open>Heap\<close>: \<open>malloc\<close>, \<open>aligned_alloc\<close>, \<open>calloc\<close>, \<open>free\<close>, refined to a list of free blocks (\<open>heap_ok\<close>).
    \<open>LargeHeap\<close>: requests of a page and more, and the order in which pages are given out (\<open>free_list\<close>).
  \<^item> \<open>Paging\<close>: all of \<open>paging.c\<close>, the page walk of the processor (\<open>translate\<close>), trees of tables
    (\<open>tree_ok\<close>) and the effect of one \<open>MapMemory\<close>. \<open>AddressSpace\<close> lifts it to any number of requests:
    \<open>implements\<close> relates the tables to an abstract map from page to frame. \<open>KernelSpace\<close> computes
    that map for \<open>InitializePaging\<close> (\<open>default_frame\<close>) and \<open>CreateProcessPML4\<close> (\<open>process_frame\<close>).
  \<^item> \<open>Timers\<close>, \<open>Scheduler\<close>, \<open>Spawn\<close>: \<open>rtc.c\<close>, \<open>pit.c\<close>, \<open>scheduler.c\<close>, \<open>vmm.c\<close>; the list of tasks, one tick,
    fairness, the end of a task, and a new task as a whole.
  \<^item> \<open>Spinlock\<close>: \<open>spinlock.c\<close> for any number of processors as an interleaving of atomic steps.
  \<^item> \<open>Ramdisk\<close>: \<open>tar.c\<close>, from the bytes of an archive to the lookup functions.
  \<^item> \<open>Keyboard\<close>, \<open>Acpi\<close>, \<open>Apic\<close>, \<open>Pcie\<close>: the drivers, with the I/O APIC as a device.
  \<^item> \<open>Gdt\<close>, \<open>Idt\<close>: descriptor tables, the handlers, the stubs of \<open>interrupt.asm\<close>, the system call of
    \<open>syscall.c\<close>; the locale \<open>vector_table\<close> for filling a table of vectors, interpreted for \<open>AddIDTEntry\<close>.
  \<^item> \<open>Bootloader\<close>, \<open>Elf\<close>, \<open>Kmain\<close>: the responses, \<open>cpuid.c\<close>, the loader inside \<open>_kmain\<close>, and \<open>_kmain\<close>.
    \<open>Boot\<close>: its whole run, from the responses to the halt at the end.
  \<^item> \<open>Layout\<close>: the structures as they are declared and the layout the compiler gives them; the field functions
    of all theories and the sizes they use are those of the declarations.

  \<^bold>\<open>What the theorems show.\<close> Each theory ends with its properties. Memory: pages are given out
  once and lowest first, and the heap implements first fit; both change nothing they do not own.
  Address spaces: \<open>MapMemory\<close> changes the translation of one page, and what the two building
  functions produce is translated by the processor exactly as a function of the layout says.
  Tasks: a tick saves and restores contexts exactly and runs every task for ten ticks in turn;
  a task that ends or faults is removed and the others go on; a new task has a frame, an
  address space and a stack of its own. Files and programs: every file of an archive is served,
  and the loader's output is that of a reference. Interrupts: the processor delivers exactly the
  planned vectors, and the interrupt controllers route the clock and the keyboard to them.
  Start: with sound input the kernel runs to its final halt, with the program of the RAM disk in a
  buffer and all of the above in place, and without it stops in a known way. Other theorems state
  limits of the code: how far the last frame lies outside its region, which requests the heap
  cannot serve or serves with memory in use, that a mapped user page is not reachable from user
  mode.

  \<^bold>\<open>Loops and partiality.\<close> A loop that counts is a function with a termination proof; one that
  follows memory (lists, archives, tables) may run forever and is a \<open>partial_function (option)\<close>, where
  \<open>None\<close> becomes \<open>Endless\<close>; the theorems on it prove that it returns. No fuel is used.

  \<^bold>\<open>Parameters.\<close> What devices answer, where the linker puts the kernel, the tables and string
  literals, the date of the build, and the instruction \<open>cpuid\<close> are fields of the state or arguments.
  Hypotheses on them are named predicates (\<open>serial_ready\<close>, \<open>ioapic_device\<close>, \<open>layout_ok\<close>, \<open>boot_ok\<close> and
  others), and every theorem with hypotheses has a witness at a concrete machine.

  \<^bold>\<open>Addresses.\<close> An address of \<open>mem\<close> is the one the kernel code uses. Loading a root table is an event
  of the trace and does not change what later accesses of the kernel mean. Which frames an address reaches under
  the kernel's own tables is what \<open>default_frame\<close> states.

  \<^bold>\<open>Not modelled.\<close> The terminal library flanterm is a submodule, its two calls are events. Of
  \<open>limine.h\<close>, a header of declarations, only the structures and constants the kernel reads are
  modelled. The build files, the firmware image under \<open>ovmf-x64\<close> and the linker script are not
  code of the kernel. Caches, the TLB and memory ordering are not part of the machine; the only
  concurrency is that of the spinlock, and interrupts arrive between operations.
\<close>

end
